(* ===== verification/Prelude.thy ===== *)
theory Prelude
  imports Main "HOL-Library.AList" "HOL-Library.Multiset" "HOL-Library.Char_ord"
    "HOL-Library.List_Lexorder" "HOL-Library.Word"
begin

text \<open>
  Shared vocabulary of the development: Go strings (byte strings) and the parts of the
  packages \<^verbatim>\<open>strings\<close> and \<^verbatim>\<open>net/textproto\<close> the program calls, Go maps as association lists
  with distinct keys, error values with \<^verbatim>\<open>errors.Is\<close>, and the Go runtime as far as it is not
  determined by the program: what the clock reads and in which order \<^verbatim>\<open>range\<close> visits the
  keys of a map.
\<close>

named_theorems gomap_simps "lookups and key lists of Go maps"
named_theorems gomap_wf "operations that keep the keys of a Go map distinct"

section \<open>Strings\<close>

text \<open>
  A Go string is a sequence of bytes, and so is a HOL \<^typ>\<open>string\<close>. \<^verbatim>\<open>strings.HasPrefix\<close> and
  its kin are stated on the bytes.
\<close>

definition has_prefix :: "string \<Rightarrow> string \<Rightarrow> bool" where
  "has_prefix s p \<longleftrightarrow> take (length p) s = p"

definition has_suffix :: "string \<Rightarrow> string \<Rightarrow> bool" where
  "has_suffix s p \<longleftrightarrow> has_prefix (rev s) (rev p)"

definition trim_prefix :: "string \<Rightarrow> string \<Rightarrow> string" where
  "trim_prefix s p = (if has_prefix s p then drop (length p) s else s)"

definition trim_suffix :: "string \<Rightarrow> string \<Rightarrow> string" where
  "trim_suffix s p = (if has_suffix s p then take (length s - length p) s else s)"

lemma has_prefix_iff: "has_prefix s p \<longleftrightarrow> (\<exists>t. s = p @ t)"
proof
  assume "has_prefix s p"
  then have "s = p @ drop (length p) s"
    unfolding has_prefix_def by (metis append_take_drop_id)
  then show "\<exists>t. s = p @ t" ..
qed (auto simp: has_prefix_def)

lemma has_prefix_append [simp]: "has_prefix (p @ t) p"
  by (simp add: has_prefix_def)

lemma has_suffix_iff: "has_suffix s p \<longleftrightarrow> (\<exists>t. s = t @ p)"
proof -
  have "has_suffix s p \<longleftrightarrow> (\<exists>t. rev s = rev p @ t)"
    by (simp add: has_suffix_def has_prefix_iff)
  also have "\<dots> \<longleftrightarrow> (\<exists>t. s = t @ p)"
    by (metis rev_append rev_rev_ident)
  finally show ?thesis .
qed

lemma trim_prefix_append [simp]: "trim_prefix (p @ s) p = s"
  by (simp add: trim_prefix_def)

lemma trim_suffix_append [simp]: "trim_suffix (s @ p) p = s"
  by (auto simp: trim_suffix_def has_suffix_iff)

lemma trim_suffix_id: "\<not> has_suffix s p \<Longrightarrow> trim_suffix s p = s"
  by (simp add: trim_suffix_def)

text \<open>
  \<^verbatim>\<open>strings.Split\<close> on a one-byte separator and \<^verbatim>\<open>strings.Join\<close>.
\<close>

fun split_on :: "char \<Rightarrow> string \<Rightarrow> string list" where
  "split_on c [] = [[]]"
| "split_on c (x # xs) =
     (if x = c then [] # split_on c xs
      else case split_on c xs of [] \<Rightarrow> [[x]] | w # ws \<Rightarrow> (x # w) # ws)"

fun join_with :: "string \<Rightarrow> string list \<Rightarrow> string" where
  "join_with sep [] = []"
| "join_with sep [x] = x"
| "join_with sep (x # xs) = x @ sep @ join_with sep xs"

lemma split_on_nonempty [simp]: "split_on c s \<noteq> []"
  by (induction s) (auto split: list.splits)

lemma split_on_no_sep: "w \<in> set (split_on c s) \<Longrightarrow> c \<notin> set w"
  by (induction s arbitrary: w) (auto split: list.splits if_splits)

lemma split_on_append_sep: "split_on c (s @ c # t) = split_on c s @ split_on c t"
proof (induction s)
  case Nil
  show ?case by simp
next
  case (Cons x s)
  then show ?case by (cases "split_on c s") auto
qed

lemma split_on_join: "join_with [c] (split_on c s) = s"
proof (induction s)
  case Nil
  show ?case by simp
next
  case (Cons x s)
  obtain w ws where ws: "split_on c s = w # ws"
    by (cases "split_on c s") auto
  with Cons.IH show ?case by (cases ws) auto
qed

lemma concat_split_on_join:
  "gs \<noteq> [] \<Longrightarrow> split_on c (join_with [c] gs) = concat (map (split_on c) gs)"
proof (induction "[c]" gs rule: join_with.induct)
  case (3 x v va)
  then show ?case by (simp add: split_on_append_sep)
qed auto

lemma join_with_inj:
  assumes "\<forall>w \<in> set xs. c \<notin> set w" and "\<forall>w \<in> set ys. c \<notin> set w"
    and "join_with [c] xs = join_with [c] ys" and "xs \<noteq> []" and "ys \<noteq> []"
  shows "xs = ys"
proof -
  have single: "split_on c w = [w]" if "c \<notin> set w" for w
    using that by (induction w) auto
  have split: "split_on c (join_with [c] zs) = zs"
    if "\<forall>w \<in> set zs. c \<notin> set w" and "zs \<noteq> []" for zs
  proof -
    have "concat (map (split_on c) zs) = concat (map (\<lambda>w. [w]) zs)"
      using that(1) by (intro arg_cong [where f = concat] map_cong) (auto simp: single)
    with that(2) show ?thesis by (simp add: concat_split_on_join)
  qed
  from split [OF assms(1,4)] split [OF assms(2,5)] assms(3) show ?thesis by metis
qed

text \<open>
  \<^verbatim>\<open>strings.TrimSpace\<close> removes Unicode white space from both ends. In UTF-8 that is a
  finite set of byte sequences, none of which is a proper suffix or prefix of another valid
  encoding, so stripping them as byte sequences is what the decoder does.
\<close>

definition space_seqs :: "string list" where
  "space_seqs =
    [[CHR 0x09], [CHR 0x0A], [CHR 0x0B], [CHR 0x0C], [CHR 0x0D], [CHR 0x20],
     [CHR 0xC2, CHR 0x85], [CHR 0xC2, CHR 0xA0], [CHR 0xE1, CHR 0x9A, CHR 0x80],
     [CHR 0xE2, CHR 0x80, CHR 0x80], [CHR 0xE2, CHR 0x80, CHR 0x81],
     [CHR 0xE2, CHR 0x80, CHR 0x82], [CHR 0xE2, CHR 0x80, CHR 0x83],
     [CHR 0xE2, CHR 0x80, CHR 0x84], [CHR 0xE2, CHR 0x80, CHR 0x85],
     [CHR 0xE2, CHR 0x80, CHR 0x86], [CHR 0xE2, CHR 0x80, CHR 0x87],
     [CHR 0xE2, CHR 0x80, CHR 0x88], [CHR 0xE2, CHR 0x80, CHR 0x89],
     [CHR 0xE2, CHR 0x80, CHR 0x8A], [CHR 0xE2, CHR 0x80, CHR 0xA8],
     [CHR 0xE2, CHR 0x80, CHR 0xA9], [CHR 0xE2, CHR 0x80, CHR 0xAF],
     [CHR 0xE2, CHR 0x81, CHR 0x9F], [CHR 0xE3, CHR 0x80, CHR 0x80]]"

function strip_seqs :: "string list \<Rightarrow> string \<Rightarrow> string" where
  "strip_seqs ws s =
     (case find (\<lambda>w. w \<noteq> [] \<and> has_prefix s w) ws of
        None \<Rightarrow> s
      | Some w \<Rightarrow> strip_seqs ws (drop (length w) s))"
  by pat_completeness auto
termination
proof (relation "measure (\<lambda>(ws, s). length s)")
  fix ws s w
  assume "find (\<lambda>w. w \<noteq> [] \<and> has_prefix s w) ws = Some w"
  then have "w \<noteq> []" and "has_prefix s w"
    by (auto simp: find_Some_iff)
  then show "((ws, drop (length w) s), (ws, s)) \<in> measure (\<lambda>(ws, s). length s)"
    by (auto simp: has_prefix_iff)
qed simp

declare strip_seqs.simps [simp del]

definition trim_space :: "string \<Rightarrow> string" where
  "trim_space s = rev (strip_seqs (map rev space_seqs) (rev (strip_seqs space_seqs s)))"

lemma strip_seqs_suffix: "\<exists>t. s = t @ strip_seqs ws s"
proof (induction ws s rule: strip_seqs.induct)
  case (1 ws s)
  show ?case
  proof (cases "find (\<lambda>w. w \<noteq> [] \<and> has_prefix s w) ws")
    case None
    then show ?thesis by (simp add: strip_seqs.simps [of ws s])
  next
    case (Some w)
    with "1.IH" obtain t where t: "drop (length w) s = t @ strip_seqs ws (drop (length w) s)"
      by blast
    have "s = (take (length w) s @ t) @ strip_seqs ws (drop (length w) s)"
      using t by (metis append.assoc append_take_drop_id)
    with Some have "s = (take (length w) s @ t) @ strip_seqs ws s"
      by (simp add: strip_seqs.simps [of ws s])
    then show ?thesis ..
  qed
qed

lemma strip_seqs_subset: "set (strip_seqs ws s) \<subseteq> set s"
  using strip_seqs_suffix [of s ws] by (metis Un_upper2 set_append)

lemma trim_space_subset: "set (trim_space s) \<subseteq> set s"
proof -
  have "set (trim_space s) \<subseteq> set (rev (strip_seqs space_seqs s))"
    using strip_seqs_subset [of "map rev space_seqs" "rev (strip_seqs space_seqs s)"]
    by (simp add: trim_space_def)
  also have "\<dots> \<subseteq> set s"
    using strip_seqs_subset by simp
  finally show ?thesis .
qed

lemma strip_seqs_idem: "strip_seqs ws (strip_seqs ws s) = strip_seqs ws s"
proof (induction ws s rule: strip_seqs.induct)
  case (1 ws s)
  show ?case
  proof (cases "find (\<lambda>w. w \<noteq> [] \<and> has_prefix s w) ws")
    case None
    then show ?thesis by (simp add: strip_seqs.simps [of ws s])
  next
    case (Some w)
    with "1.IH" show ?thesis by (simp add: strip_seqs.simps [of ws s])
  qed
qed

text \<open>
  ASCII case, and \<^verbatim>\<open>textproto.CanonicalMIMEHeaderKey\<close>: a name made of token bytes is spelled
  with a capital after each dash, any other name is left as it is.
\<close>

definition ascii_upper :: "char \<Rightarrow> char" where
  "ascii_upper c = (if 97 \<le> (of_char c :: nat) \<and> (of_char c :: nat) \<le> 122
                    then char_of (of_char c - 32 :: nat) else c)"

definition ascii_lower :: "char \<Rightarrow> char" where
  "ascii_lower c = (if 65 \<le> (of_char c :: nat) \<and> (of_char c :: nat) \<le> 90
                    then char_of (of_char c + 32 :: nat) else c)"

definition token_byte :: "char \<Rightarrow> bool" where
  "token_byte c \<longleftrightarrow>
     (let n = (of_char c :: nat) in
       48 \<le> n \<and> n \<le> 57 \<or> 65 \<le> n \<and> n \<le> 90 \<or> 97 \<le> n \<and> n \<le> 122
       \<or> c \<in> set ''!#$%&*+-.^_|~'' \<or> n = 39 \<or> n = 96)"

fun canonical_from :: "bool \<Rightarrow> string \<Rightarrow> string" where
  "canonical_from up [] = []"
| "canonical_from up (c # cs) =
     (if up then ascii_upper c else ascii_lower c) # canonical_from (c = CHR ''-'') cs"

definition canonical_key :: "string \<Rightarrow> string" where
  "canonical_key s = (if list_all token_byte s then canonical_from True s else s)"

definition same_ascii_fold :: "string \<Rightarrow> string \<Rightarrow> bool" where
  "same_ascii_fold s t \<longleftrightarrow> map ascii_lower s = map ascii_lower t"

text \<open>A Go byte slice.\<close>

type_synonym bytes = "8 word list"

section \<open>Maps\<close>

text \<open>
  A Go map is an association list with distinct keys; reading an absent key gives the zero
  value. \<open>map[string]bool\<close> is used by the program as a set.
\<close>

type_synonym 'v gomap = "(string \<times> 'v) list"

definition wf_map :: "('k \<times> 'v) list \<Rightarrow> bool" where
  "wf_map m \<longleftrightarrow> distinct (map fst m)"

definition get_bool :: "bool gomap \<Rightarrow> string \<Rightarrow> bool" where
  "get_bool m k = (case map_of m k of None \<Rightarrow> False | Some b \<Rightarrow> b)"

definition get_list :: "'a list gomap \<Rightarrow> string \<Rightarrow> 'a list" where
  "get_list m k = (case map_of m k of None \<Rightarrow> [] | Some xs \<Rightarrow> xs)"

definition set_true :: "string \<Rightarrow> bool gomap \<Rightarrow> bool gomap" where
  "set_true k m = AList.update k True m"

definition set_all_true :: "string list \<Rightarrow> bool gomap \<Rightarrow> bool gomap" where
  "set_all_true ks m = fold set_true ks m"

lemma wf_map_Nil [gomap_wf, simp]: "wf_map []"
  by (simp add: wf_map_def)

lemma wf_map_update [gomap_wf]: "wf_map m \<Longrightarrow> wf_map (AList.update k v m)"
  by (simp add: wf_map_def distinct_update)

lemma wf_map_delete [gomap_wf]: "wf_map m \<Longrightarrow> wf_map (AList.delete k m)"
  by (simp add: wf_map_def distinct_delete)

lemma wf_map_filter [gomap_wf]: "wf_map m \<Longrightarrow> wf_map (filter P m)"
  by (simp add: wf_map_def distinct_map_filter)

lemma wf_map_set_true [gomap_wf]: "wf_map m \<Longrightarrow> wf_map (set_true k m)"
  by (simp add: set_true_def gomap_wf)

lemma map_of_update [gomap_simps]:
  "map_of (AList.update k v m) k' = (if k' = k then Some v else map_of m k')"
  by (simp add: update_conv')

lemma map_of_delete_if [gomap_simps]:
  "map_of (AList.delete k m) k' = (if k' = k then None else map_of m k')"
  by (simp add: delete_conv')

lemma get_bool_Nil [gomap_simps, simp]: "get_bool [] k = False"
  by (simp add: get_bool_def)

lemma get_bool_set_true [gomap_simps]: "get_bool (set_true k m) k' \<longleftrightarrow> k' = k \<or> get_bool m k'"
  by (simp add: get_bool_def set_true_def map_of_update)

lemma get_bool_set_all_true [gomap_simps]:
  "get_bool (set_all_true ks m) k \<longleftrightarrow> k \<in> set ks \<or> get_bool m k"
  by (induction ks arbitrary: m) (auto simp: set_all_true_def get_bool_set_true)

lemma map_of_filter_wf:
  assumes "wf_map m"
  shows "map_of (filter (\<lambda>(k, v). P k v) m) k =
    (case map_of m k of None \<Rightarrow> None | Some v \<Rightarrow> if P k v then Some v else None)"
  using assms
proof (induction m)
  case Nil
  show ?case by simp
next
  case (Cons p m)
  obtain a b where p: "p = (a, b)" by (cases p)
  from Cons.prems have wf: "wf_map m" and a: "a \<notin> fst ` set m"
    by (auto simp: wf_map_def p)
  from a have none: "map_of m a = None"
    by (simp add: map_of_eq_None_iff)
  have "map_of (filter (\<lambda>(k, v). P k v) m) a = None"
    using a by (auto simp: map_of_eq_None_iff)
  with Cons.IH [OF wf] none show ?case by (auto simp: p)
qed

lemma wf_map_mem: "wf_map m \<Longrightarrow> (k, v) \<in> set m \<longleftrightarrow> map_of m k = Some v"
  by (simp add: wf_map_def)

lemma length_update:
  "length (AList.update k v m) = (if k \<in> fst ` set m then length m else Suc (length m))"
  by (induction m) auto

lemma length_delete_in:
  assumes "wf_map m" and "k \<in> fst ` set m"
  shows "Suc (length (AList.delete k m)) = length m"
proof -
  have "card (set (map fst (AList.delete k m))) = card (set (map fst m) - {k})"
    by (simp add: delete_keys)
  also have "\<dots> = card (set (map fst m)) - 1"
    using assms(2) by (simp add: card_Diff_singleton)
  finally have "length (AList.delete k m) = length m - 1"
    using assms(1) wf_map_delete [OF assms(1), of k]
    by (metis distinct_card length_map wf_map_def)
  moreover have "m \<noteq> []" using assms(2) by auto
  ultimately show ?thesis by (cases m) auto
qed

section \<open>Errors\<close>

text \<open>
  Error values with their wrapping chain. The sentinels the program compares against are
  constructors; \<open>Wrapped\<close> is \<^verbatim>\<open>fmt.Errorf\<close> with \<^verbatim>\<open>%w\<close>, \<open>Plain\<close> any other error.
\<close>

datatype go_error =
    Context_Canceled
  | Err_Abort_Handler
  | Err_No_Identity
  | Err_Unknown_Route
  | Err_Response_Too_Large
  | Plain string
  | Wrapped string go_error

fun errors_is :: "go_error \<Rightarrow> go_error \<Rightarrow> bool" where
  "errors_is (Wrapped m e) t \<longleftrightarrow> Wrapped m e = t \<or> errors_is e t"
| "errors_is e t \<longleftrightarrow> e = t"

lemma errors_is_refl [simp]: "errors_is e e"
  by (cases e) auto

section \<open>The runtime\<close>

text \<open>
  What the environment decides: \<open>now_at n\<close> is the time read by the \<open>n\<close>-th consultation,
  \<open>rank_at n\<close> orders the keys visited by a \<^verbatim>\<open>range\<close> loop at that point. Sorting the keys by
  an arbitrary rank yields every possible visiting order and nothing but permutations.
\<close>

record runtime =
  now_at :: "nat \<Rightarrow> int"
  rank_at :: "nat \<Rightarrow> string \<Rightarrow> nat"
  ticks :: nat

definition read_clock :: "runtime \<Rightarrow> int \<times> runtime" where
  "read_clock r = (now_at r (ticks r), r\<lparr>ticks := Suc (ticks r)\<rparr>)"

definition range_keys :: "(string \<times> 'v) list \<Rightarrow> runtime \<Rightarrow> string list \<times> runtime" where
  "range_keys m r = (sort_key (rank_at r (ticks r)) (map fst m), r\<lparr>ticks := Suc (ticks r)\<rparr>)"

lemma range_keys_perm: "range_keys m r = (ks, r') \<Longrightarrow> mset ks = mset (map fst m)"
  by (auto simp: range_keys_def)

lemma range_keys_set: "range_keys m r = (ks, r') \<Longrightarrow> set ks = fst ` set m"
  by (metis (no_types, lifting) list.set_map range_keys_perm set_mset_mset)

lemma range_keys_distinct: "range_keys m r = (ks, r') \<Longrightarrow> wf_map m \<Longrightarrow> distinct ks"
  by (auto simp: range_keys_def wf_map_def)

end
