(* ===== verification/Ui_Messages.thy ===== *)
theory Ui_Messages
  imports Prelude
begin

text \<open>
  The messages that pass through the proxy. Their Go types are generated from the protocol
  files of hubble-ui and cilium, outside this repository: each record holds the fields the
  program reads or writes and keeps the remainder of the message as opaque bytes. A pointer
  that may be nil is an option; a \<^verbatim>\<open>oneof\<close> is a datatype with the cases the program names and
  one for the others. Encoding and decoding are the fields of \<open>codec\<close>, a parameter.
\<close>

section \<open>Flows and service-map events\<close>

record endpoint =
  ep_namespace :: string
  ep_rest :: bytes

record flow =
  fl_source :: "endpoint option"
  fl_destination :: "endpoint option"
  fl_rest :: bytes

record flow_batch =
  fb_flows :: "flow list"
  fb_rest :: bytes

record namespace_descriptor =
  nd_name :: string
  nd_rest :: bytes

record namespace_state =
  nst_namespace :: "namespace_descriptor option"
  nst_rest :: bytes

record service =
  sv_id :: string
  sv_namespace :: string
  sv_rest :: bytes

record service_state =
  ss_service :: "service option"
  ss_rest :: bytes

record service_link =
  sl_source_id :: string
  sl_destination_id :: string
  sl_rest :: bytes

record service_link_state =
  sls_link :: "service_link option"
  sls_rest :: bytes

datatype event_case =
    Event_Flow "flow option"
  | Event_Flows "flow_batch option"
  | Event_NamespaceState "namespace_state option"
  | Event_ServiceState "service_state option"
  | Event_ServiceLinkState "service_link_state option"
  | Event_Notification bytes
  | Event_Other bytes

record ui_event =
  ev_case :: "event_case option"
  ev_rest :: bytes

record events_response =
  er_events :: "ui_event list"
  er_rest :: bytes

section \<open>Getters\<close>

text \<open>The generated getters return the zero value on a nil receiver.\<close>

definition source_namespace :: "flow option \<Rightarrow> string" where
  "source_namespace f = (case Option.bind f fl_source of None \<Rightarrow> [] | Some e \<Rightarrow> ep_namespace e)"

definition destination_namespace :: "flow option \<Rightarrow> string" where
  "destination_namespace f =
    (case Option.bind f fl_destination of None \<Rightarrow> [] | Some e \<Rightarrow> ep_namespace e)"

definition batch_flows :: "flow_batch option \<Rightarrow> flow list" where
  "batch_flows b = (case b of None \<Rightarrow> [] | Some b \<Rightarrow> fb_flows b)"

definition state_namespace :: "namespace_state option \<Rightarrow> string" where
  "state_namespace n = (case Option.bind n nst_namespace of None \<Rightarrow> [] | Some d \<Rightarrow> nd_name d)"

definition state_service :: "service_state option \<Rightarrow> service option" where
  "state_service st = Option.bind st ss_service"

definition service_id :: "service option \<Rightarrow> string" where
  "service_id v = (case v of None \<Rightarrow> [] | Some v \<Rightarrow> sv_id v)"

definition service_namespace :: "service option \<Rightarrow> string" where
  "service_namespace v = (case v of None \<Rightarrow> [] | Some v \<Rightarrow> sv_namespace v)"

definition state_link :: "service_link_state option \<Rightarrow> service_link option" where
  "state_link st = Option.bind st sls_link"

definition link_source :: "service_link option \<Rightarrow> string" where
  "link_source l = (case l of None \<Rightarrow> [] | Some l \<Rightarrow> sl_source_id l)"

definition link_destination :: "service_link option \<Rightarrow> string" where
  "link_destination l = (case l of None \<Rightarrow> [] | Some l \<Rightarrow> sl_destination_id l)"

definition event_service :: "ui_event \<Rightarrow> service option" where
  "event_service ev =
    (case ev_case ev of Some (Event_ServiceState st) \<Rightarrow> state_service st | _ \<Rightarrow> None)"

definition event_link :: "ui_event \<Rightarrow> service_link option" where
  "event_link ev =
    (case ev_case ev of Some (Event_ServiceLinkState st) \<Rightarrow> state_link st | _ \<Rightarrow> None)"

section \<open>The control stream\<close>

record namespace_states =
  nss_namespaces :: "namespace_state list"
  nss_rest :: bytes

datatype notification =
    NoPermission (np_resource: string) (np_error: string)
  | Notification_Other bytes

datatype control_case =
    Control_Namespaces "namespace_states option"
  | Control_Notification notification
  | Control_Other bytes

record control_response =
  cr_case :: "control_case option"
  cr_rest :: bytes

definition control_namespaces :: "control_response \<Rightarrow> namespace_states option" where
  "control_namespaces r = (case cr_case r of Some (Control_Namespaces st) \<Rightarrow> st | _ \<Rightarrow> None)"

section \<open>The envelope\<close>

record message_meta =
  route_name :: string
  channel_id :: string
  meta_rest :: bytes

record message_body =
  content :: bytes
  body_rest :: bytes

record message =
  msg_meta :: "message_meta option"
  msg_body :: "message_body option"
  msg_rest :: bytes

definition message_route :: "message \<Rightarrow> string" where
  "message_route m = (case msg_meta m of None \<Rightarrow> [] | Some x \<Rightarrow> route_name x)"

definition message_channel :: "message \<Rightarrow> string" where
  "message_channel m = (case msg_meta m of None \<Rightarrow> [] | Some x \<Rightarrow> channel_id x)"

definition message_content :: "message \<Rightarrow> bytes" where
  "message_content m = (case msg_body m of None \<Rightarrow> [] | Some x \<Rightarrow> content x)"

section \<open>Encoding\<close>

text \<open>
  \<^verbatim>\<open>proto.Marshal\<close>/\<^verbatim>\<open>Unmarshal\<close> at the three message types and \<^verbatim>\<open>json.Marshal\<close>/\<^verbatim>\<open>Unmarshal\<close>
  at the envelope.
\<close>

record codec =
  unmarshal_control :: "bytes \<Rightarrow> go_error + control_response"
  marshal_control :: "control_response \<Rightarrow> go_error + bytes"
  unmarshal_events :: "bytes \<Rightarrow> go_error + events_response"
  marshal_events :: "events_response \<Rightarrow> go_error + bytes"
  json_unmarshal :: "bytes \<Rightarrow> go_error + message"
  json_marshal :: "message \<Rightarrow> go_error + bytes"
  proto_unmarshal :: "bytes \<Rightarrow> go_error + message"
  proto_marshal :: "message \<Rightarrow> go_error + bytes"

definition decodeEnvelope :: "codec \<Rightarrow> bytes \<Rightarrow> bool \<Rightarrow> go_error + message" where
  "decodeEnvelope cd b isJSON = (if isJSON then json_unmarshal cd b else proto_unmarshal cd b)"

definition encodeEnvelope :: "codec \<Rightarrow> message \<Rightarrow> bool \<Rightarrow> go_error + bytes" where
  "encodeEnvelope cd msg isJSON = (if isJSON then json_marshal cd msg else proto_marshal cd msg)"

text \<open>
  What the program relies on of the encoders: reading back an encoding gives the message that
  was encoded.
\<close>

definition codec_reads_back :: "codec \<Rightarrow> bool" where
  "codec_reads_back cd \<longleftrightarrow>
     (\<forall>r b. marshal_control cd r = Inr b \<longrightarrow> unmarshal_control cd b = Inr r)
     \<and> (\<forall>r b. marshal_events cd r = Inr b \<longrightarrow> unmarshal_events cd b = Inr r)
     \<and> (\<forall>m b. json_marshal cd m = Inr b \<longrightarrow> json_unmarshal cd b = Inr m)
     \<and> (\<forall>m b. proto_marshal cd m = Inr b \<longrightarrow> proto_unmarshal cd b = Inr m)"


text \<open>A codec for finitely many messages, for closed instances.\<close>

definition table_decode :: "('a \<times> bytes) list \<Rightarrow> bytes \<Rightarrow> go_error + 'a" where
  "table_decode t b =
    (case find (\<lambda>(x, b'). b' = b) t of None \<Rightarrow> Inl (Plain ''cannot parse'') | Some (x, _) \<Rightarrow> Inr x)"

definition table_encode :: "('a \<times> bytes) list \<Rightarrow> 'a \<Rightarrow> go_error + bytes" where
  "table_encode t x =
    (case find (\<lambda>(y, b). y = x \<and> table_decode t b = Inr x) t of
       None \<Rightarrow> Inl (Plain ''cannot encode'') | Some (_, b) \<Rightarrow> Inr b)"

definition table_codec ::
  "(control_response \<times> bytes) list \<Rightarrow> (events_response \<times> bytes) list \<Rightarrow> (message \<times> bytes) list \<Rightarrow> codec"
where
  "table_codec cs es ms =
    \<lparr>unmarshal_control = table_decode cs, marshal_control = table_encode cs,
     unmarshal_events = table_decode es, marshal_events = table_encode es,
     json_unmarshal = table_decode ms, json_marshal = table_encode ms,
     proto_unmarshal = table_decode ms, proto_marshal = table_encode ms\<rparr>"

lemma table_encode_reads_back: "table_encode t x = Inr b \<Longrightarrow> table_decode t b = Inr x"
  by (auto simp: table_encode_def find_Some_iff split: option.splits)

lemma table_codec_reads_back: "codec_reads_back (table_codec cs es ms)"
  by (simp add: codec_reads_back_def table_codec_def table_encode_reads_back)

end
