(* ===== verification/Metrics.thy ===== *)
theory Metrics
  imports Prelude
begin

text \<open>
  The collectors of \<^verbatim>\<open>internal/metrics/metrics.go\<close>. A labelled counter vector is an
  association list from label values to the count: \<^verbatim>\<open>WithLabelValues\<close> makes the series
  appear at zero, \<^verbatim>\<open>Inc\<close> adds one. Histograms are represented by their number of
  observations, not by the observed durations. The collectors are process-wide, so they sit,
  with the runtime, at the root of every state record of the development.
\<close>

type_synonym labels = "string list"
type_synonym counter_vec = "(labels \<times> nat) list"

definition with_label_values :: "labels \<Rightarrow> counter_vec \<Rightarrow> counter_vec" where
  "with_label_values ls v = AList.map_default ls 0 id v"

definition vec_inc :: "labels \<Rightarrow> counter_vec \<Rightarrow> counter_vec" where
  "vec_inc ls v = AList.map_default ls 1 Suc v"

definition vec_value :: "counter_vec \<Rightarrow> labels \<Rightarrow> nat" where
  "vec_value v ls = (case map_of v ls of None \<Rightarrow> 0 | Some n \<Rightarrow> n)"

definition series :: "counter_vec \<Rightarrow> labels set" where
  "series v = fst ` set v"

lemma series_with_label_values [simp]: "series (with_label_values ls v) = insert ls (series v)"
  by (simp add: series_def with_label_values_def dom_map_default)

lemma series_vec_inc [simp]: "series (vec_inc ls v) = insert ls (series v)"
  by (simp add: series_def vec_inc_def dom_map_default)

lemma vec_value_inc: "vec_value (vec_inc ls v) ls' = vec_value v ls' + (if ls' = ls then 1 else 0)"
  by (simp add: vec_value_def vec_inc_def map_of_map_default split: option.splits)

lemma vec_value_with: "vec_value (with_label_values ls v) ls' = vec_value v ls'"
  by (simp add: vec_value_def with_label_values_def map_of_map_default split: option.splits)

section \<open>The label vocabulary\<close>

definition OutcomeFiltered :: string where "OutcomeFiltered = ''filtered''"
definition OutcomeUnauthenticated :: string where "OutcomeUnauthenticated = ''unauthenticated''"
definition OutcomeAuthzError :: string where "OutcomeAuthzError = ''authz_error''"
definition OutcomeClientGone :: string where "OutcomeClientGone = ''client_gone''"
definition OutcomeUpstreamError :: string where "OutcomeUpstreamError = ''upstream_error''"
definition OutcomeResponseTooLarge :: string where
  "OutcomeResponseTooLarge = ''response_too_large''"
definition OutcomePassthrough :: string where "OutcomePassthrough = ''passthrough''"
definition RouteNone :: string where "RouteNone = ''-''"

definition ReloadChanged :: string where "ReloadChanged = ''changed''"
definition ReloadUnchanged :: string where "ReloadUnchanged = ''unchanged''"
definition ReloadError :: string where "ReloadError = ''error''"

definition mappingReloadResults :: "string list" where
  "mappingReloadResults = [ReloadChanged, ReloadUnchanged, ReloadError]"

definition ResourceNamespace :: string where "ResourceNamespace = ''namespace''"
definition ResourceRole :: string where "ResourceRole = ''role''"
definition ResourceClusterRole :: string where "ResourceClusterRole = ''clusterrole''"
definition ResourceRoleBinding :: string where "ResourceRoleBinding = ''rolebinding''"
definition ResourceClusterRoleBinding :: string where
  "ResourceClusterRoleBinding = ''clusterrolebinding''"

definition invalidationResources :: "string list" where
  "invalidationResources =
    [ResourceNamespace, ResourceRole, ResourceClusterRole, ResourceRoleBinding,
     ResourceClusterRoleBinding]"

definition RequestOutcomes :: "string list" where
  "RequestOutcomes =
    [OutcomeFiltered, OutcomeUnauthenticated, OutcomeAuthzError, OutcomeClientGone,
     OutcomeUpstreamError, OutcomeResponseTooLarge]"

lemmas outcome_defs = OutcomeFiltered_def OutcomeUnauthenticated_def OutcomeAuthzError_def
  OutcomeClientGone_def OutcomeUpstreamError_def OutcomeResponseTooLarge_def
  OutcomePassthrough_def RouteNone_def

section \<open>The collectors\<close>

record metrics =
  RequestsTotal :: counter_vec
  RequestDuration :: counter_vec
  EventsTotal :: counter_vec
  ScopeResolutionDuration :: counter_vec
  ScopeCacheTotal :: counter_vec
  SubjectAccessReviewsTotal :: nat
  RBACWatchActive :: nat
  RBACCacheInvalidationsTotal :: counter_vec
  TrackedChannels :: nat
  ChannelEvictionsTotal :: nat
  EmptyScopeNotifications :: nat
  MappingReloads :: counter_vec
  MappingLastReload :: int
  buildInfo :: counter_vec

definition fresh_metrics :: metrics where
  "fresh_metrics =
    \<lparr>RequestsTotal = [], RequestDuration = [], EventsTotal = [], ScopeResolutionDuration = [],
     ScopeCacheTotal = [], SubjectAccessReviewsTotal = 0, RBACWatchActive = 0,
     RBACCacheInvalidationsTotal = [], TrackedChannels = 0, ChannelEvictionsTotal = 0,
     EmptyScopeNotifications = 0, MappingReloads = [], MappingLastReload = 0, buildInfo = []\<rparr>"

text \<open>
  \<^verbatim>\<open>initLabelCombinations\<close>: every series the program can report, exported at zero.
\<close>

definition eventKinds :: "string list" where
  "eventKinds = [''flow'', ''flows'', ''namespace_state'', ''service_state'',
     ''service_link_state'', ''notification'', ''unknown'']"

definition initLabelCombinations :: "string list \<Rightarrow> metrics \<Rightarrow> metrics" where
  "initLabelCombinations routes m =
    (let m = fold (\<lambda>route m.
               let m = fold (\<lambda>outcome m. m\<lparr>RequestsTotal :=
                          with_label_values [route, outcome] (RequestsTotal m)\<rparr>)
                        RequestOutcomes m
               in m\<lparr>RequestDuration := with_label_values [route] (RequestDuration m)\<rparr>)
             routes m;
         m = m\<lparr>RequestsTotal :=
               with_label_values [RouteNone, OutcomePassthrough] (RequestsTotal m)\<rparr>;
         m = fold (\<lambda>kind m.
               fold (\<lambda>decision m. m\<lparr>EventsTotal :=
                      with_label_values [kind, decision] (EventsTotal m)\<rparr>)
                    [''kept'', ''dropped''] m)
             eventKinds m;
         m = fold (\<lambda>result m. m\<lparr>ScopeCacheTotal :=
                    with_label_values [result] (ScopeCacheTotal m)\<rparr>) [''hit'', ''miss''] m;
         m = fold (\<lambda>mode m. m\<lparr>ScopeResolutionDuration :=
                    with_label_values [mode] (ScopeResolutionDuration m)\<rparr>)
                  [''static'', ''rbac''] m;
         m = fold (\<lambda>result m. m\<lparr>MappingReloads :=
                    with_label_values [result] (MappingReloads m)\<rparr>) mappingReloadResults m
     in fold (\<lambda>resource m. m\<lparr>RBACCacheInvalidationsTotal :=
                    with_label_values [resource] (RBACCacheInvalidationsTotal m)\<rparr>)
             invalidationResources m)"

definition NewRegistry :: "string \<Rightarrow> string list \<Rightarrow> metrics \<Rightarrow> metrics" where
  "NewRegistry version routes m =
    (let m = initLabelCombinations routes m
     in m\<lparr>buildInfo := AList.update [version] 1 (with_label_values [version] (buildInfo m))\<rparr>)"

text \<open>
  The label combinations those loops produce, as sets; \<open>exported_closed\<close> says that nothing
  outside them has been reported.
\<close>

definition request_labels :: "string list \<Rightarrow> labels set" where
  "request_labels routes =
    {[r, oc] |r oc. r \<in> set routes \<and> oc \<in> set RequestOutcomes} \<union> {[RouteNone, OutcomePassthrough]}"

definition event_labels :: "labels set" where
  "event_labels = {[k, d] |k d. k \<in> set eventKinds \<and> d \<in> {''kept'', ''dropped''}}"

definition singleton_labels :: "string list \<Rightarrow> labels set" where
  "singleton_labels xs = (\<lambda>x. [x]) ` set xs"

definition labels_exactly :: "string list \<Rightarrow> metrics \<Rightarrow> bool" where
  "labels_exactly routes m \<longleftrightarrow>
     series (RequestsTotal m) = request_labels routes
     \<and> series (RequestDuration m) = singleton_labels routes
     \<and> series (EventsTotal m) = event_labels
     \<and> series (ScopeCacheTotal m) = singleton_labels [''hit'', ''miss'']
     \<and> series (ScopeResolutionDuration m) = singleton_labels [''static'', ''rbac'']
     \<and> series (MappingReloads m) = singleton_labels mappingReloadResults
     \<and> series (RBACCacheInvalidationsTotal m) = singleton_labels invalidationResources"

text \<open>
  A loop that creates series of one vector is an update of that field alone.
\<close>

lemma fold_field:
  "fold (\<lambda>x m. m\<lparr>RequestsTotal := with_label_values (h x) (RequestsTotal m)\<rparr>) xs m
     = m\<lparr>RequestsTotal := fold (\<lambda>x. with_label_values (h x)) xs (RequestsTotal m)\<rparr>"
  "fold (\<lambda>x m. m\<lparr>EventsTotal := with_label_values (h x) (EventsTotal m)\<rparr>) xs m
     = m\<lparr>EventsTotal := fold (\<lambda>x. with_label_values (h x)) xs (EventsTotal m)\<rparr>"
  "fold (\<lambda>x m. m\<lparr>ScopeCacheTotal := with_label_values (h x) (ScopeCacheTotal m)\<rparr>) xs m
     = m\<lparr>ScopeCacheTotal := fold (\<lambda>x. with_label_values (h x)) xs (ScopeCacheTotal m)\<rparr>"
  "fold (\<lambda>x m. m\<lparr>ScopeResolutionDuration := with_label_values (h x) (ScopeResolutionDuration m)\<rparr>) xs m
     = m\<lparr>ScopeResolutionDuration := fold (\<lambda>x. with_label_values (h x)) xs (ScopeResolutionDuration m)\<rparr>"
  "fold (\<lambda>x m. m\<lparr>MappingReloads := with_label_values (h x) (MappingReloads m)\<rparr>) xs m
     = m\<lparr>MappingReloads := fold (\<lambda>x. with_label_values (h x)) xs (MappingReloads m)\<rparr>"
  "fold (\<lambda>x m. m\<lparr>RBACCacheInvalidationsTotal := with_label_values (h x) (RBACCacheInvalidationsTotal m)\<rparr>) xs m
     = m\<lparr>RBACCacheInvalidationsTotal := fold (\<lambda>x. with_label_values (h x)) xs (RBACCacheInvalidationsTotal m)\<rparr>"
  by (induction xs arbitrary: m) auto

lemma fold_events_field:
  "fold (\<lambda>x. fold (\<lambda>y m. m\<lparr>EventsTotal := with_label_values (h x y) (EventsTotal m)\<rparr>) ys) xs m
   = m\<lparr>EventsTotal := fold (\<lambda>x. fold (\<lambda>y. with_label_values (h x y)) ys) xs (EventsTotal m)\<rparr>"
  by (induction xs arbitrary: m) (auto simp: fold_field)

lemma fold_routes_field:
  "fold (\<lambda>x m. m\<lparr>RequestsTotal := fold (\<lambda>y. with_label_values (h x y)) ys (RequestsTotal m),
                 RequestDuration := with_label_values (k x) (RequestDuration m)\<rparr>) xs m
   = m\<lparr>RequestsTotal := fold (\<lambda>x. fold (\<lambda>y. with_label_values (h x y)) ys) xs (RequestsTotal m),
       RequestDuration := fold (\<lambda>x. with_label_values (k x)) xs (RequestDuration m)\<rparr>"
  by (induction xs arbitrary: m) auto

lemma series_fold:
  "series (fold (\<lambda>x. with_label_values (h x)) xs v) = series v \<union> h ` set xs"
  by (induction xs arbitrary: v) auto

lemma series_fold2:
  "series (fold (\<lambda>x. fold (\<lambda>y. with_label_values [x, y]) ys) xs v)
   = series v \<union> {[x, y] |x y. x \<in> set xs \<and> y \<in> set ys}"
  by (induction xs arbitrary: v) (auto simp: series_fold)

lemma series_fresh [simp]: "series [] = {}"
  by (simp add: series_def)

lemma labels_at_start: "labels_exactly routes (NewRegistry version routes fresh_metrics)"
proof -
  have "labels_exactly routes (initLabelCombinations routes fresh_metrics)"
    unfolding labels_exactly_def initLabelCombinations_def Let_def
    by (simp del: fold.simps
        add: fold_field fold_events_field fold_routes_field series_fold series_fold2 fresh_metrics_def
          request_labels_def event_labels_def singleton_labels_def image_def)
  then show ?thesis
    by (simp add: NewRegistry_def Let_def labels_exactly_def)
qed

text \<open>
  On a fresh process the registry exports exactly the declared label combinations: every
  series the vocabulary allows, and no other, exists before the first request.
\<close>

theorem initLabelCombinations_exact:
  "labels_exactly routes (NewRegistry version routes fresh_metrics)"
  by (rule labels_at_start)

end
