(* ===== verification/Identity_Headers.thy ===== *)
theory Identity_Headers
  imports Prelude
begin

text \<open>
  The caller's identity as \<^verbatim>\<open>internal/identity/identity.go\<close> reads it off the request
  headers: the header names of a family, the reader with its error, the group list, and the
  two diagnostics used in the log line of a 401. A \<^verbatim>\<open>http.Header\<close> is a map from canonical
  header names to the list of their values.
\<close>

section \<open>Headers of the standard library\<close>

type_synonym http_header = "string list gomap"

definition header_get :: "http_header \<Rightarrow> string \<Rightarrow> string" where
  "header_get h k = (case get_list h (canonical_key k) of [] \<Rightarrow> [] | v # _ \<Rightarrow> v)"

definition header_values :: "http_header \<Rightarrow> string \<Rightarrow> string list" where
  "header_values h k = get_list h (canonical_key k)"

definition header_set :: "string \<Rightarrow> string \<Rightarrow> http_header \<Rightarrow> http_header" where
  "header_set k v h = AList.update (canonical_key k) [v] h"

lemma get_list_update:
  "get_list (AList.update k v m) k' = (if k' = k then v else get_list m k')"
  by (simp add: get_list_def map_of_update)

lemma header_get_set:
  "header_get (header_set k v h) k' =
    (if canonical_key k' = canonical_key k then v else header_get h k')"
  by (simp add: header_get_def header_set_def get_list_update)

section \<open>Header families\<close>

definition AuthRequestPrefix :: string where "AuthRequestPrefix = ''X-Auth-Request''"
definition ForwardedPrefix :: string where "ForwardedPrefix = ''X-Forwarded''"

record identity =
  id_user :: string
  id_email :: string
  id_groups :: "string list"

record headers =
  h_user :: string
  h_email :: string
  h_groups :: string

definition NewHeaders :: "string \<Rightarrow> headers" where
  "NewHeaders prefix =
    (let prefix = trim_suffix (trim_space prefix) ''-''
     in \<lparr>h_user = prefix @ ''-User'', h_email = prefix @ ''-Email'',
         h_groups = prefix @ ''-Groups''\<rparr>)"

definition Expecting :: "headers \<Rightarrow> string" where
  "Expecting h = h_email h @ '' (and -User/-Groups)''"

fun splitGroups :: "string list \<Rightarrow> string list" where
  "splitGroups [] = []"
| "splitGroups (item # v) =
     filter (\<lambda>g. g \<noteq> []) (map trim_space (split_on CHR '','' item)) @ splitGroups v"

definition From :: "headers \<Rightarrow> http_header \<Rightarrow> go_error + identity" where
  "From h r =
    (let i = \<lparr>id_user = header_get r (h_user h), id_email = header_get r (h_email h),
              id_groups = splitGroups (header_values r (h_groups h))\<rparr>
     in if id_user i = [] \<and> id_email i = [] then Inl Err_No_Identity else Inr i)"

definition PresentIn :: "headers \<Rightarrow> http_header \<Rightarrow> string list" where
  "PresentIn h r = filter (\<lambda>name. header_get r name \<noteq> []) [h_user h, h_email h, h_groups h]"

definition OtherFamilyIn :: "headers \<Rightarrow> http_header \<Rightarrow> string list" where
  "OtherFamilyIn h r =
    (let other = (if has_prefix (h_email h) AuthRequestPrefix then ForwardedPrefix
                  else AuthRequestPrefix)
     in filter (\<lambda>name. header_get r name \<noteq> [])
          (map (\<lambda>suffix. other @ suffix) [''-User'', ''-Email'', ''-Groups'']))"

section \<open>Groups\<close>

lemma splitGroups_append: "splitGroups (v @ w) = splitGroups v @ splitGroups w"
  by (induction v) auto

lemma splitGroups_mem: "g \<in> set (splitGroups v) \<Longrightarrow>
  g \<noteq> [] \<and> CHR '','' \<notin> set g \<and> (\<exists>item \<in> set v. \<exists>p \<in> set (split_on CHR '','' item). g = trim_space p)"
proof (induction v)
  case Nil
  then show ?case by simp
next
  case (Cons item v)
  then show ?case
    using split_on_no_sep trim_space_subset by (fastforce simp: image_iff)
qed

lemma splitGroups_split:
  "splitGroups v = filter (\<lambda>g. g \<noteq> []) (map trim_space (concat (map (split_on CHR '','') v)))"
  by (induction v) auto

text \<open>
  Repeated group headers and one comma-separated header mean the same: joining the header
  values with commas before splitting yields the same group list, in the same order.
\<close>

theorem splitGroups_repeated_or_joined:
  "splitGroups [join_with '','' items] = splitGroups items"
proof (cases "items = []")
  case True
  have "trim_space [] = []"
    using trim_space_subset [of "[]"] by simp
  with True show ?thesis by simp
next
  case False
  then show ?thesis
    by (simp add: splitGroups_split concat_split_on_join)
qed

text \<open>
  A request yields an identity exactly when a user or an email header is present; then the
  fields are those header values, looked up without regard to the case of the configured
  names, and every group is non-empty and free of commas. Otherwise the reader reports the
  no-identity error, whatever groups were sent.
\<close>

theorem From_identity:
  "(case From h r of
      Inl e \<Rightarrow> e = Err_No_Identity \<and> header_get r (h_user h) = [] \<and> header_get r (h_email h) = []
    | Inr i \<Rightarrow> \<not> (id_user i = [] \<and> id_email i = [])
        \<and> id_user i = header_get r (h_user h) \<and> id_email i = header_get r (h_email h)
        \<and> id_groups i = splitGroups (header_values r (h_groups h))
        \<and> [] \<notin> set (id_groups i)
        \<and> (\<nexists>g. g \<in> set (id_groups i) \<and> CHR '','' \<in> set g))"
  using splitGroups_mem [of _ "header_values r (h_groups h)"]
  by (auto simp: From_def Let_def)

section \<open>Header names\<close>

text \<open>Canonical names do not depend on the ASCII case they were configured in.\<close>

lemma of_char_of: "k < 256 \<Longrightarrow> (of_char (char_of (k::nat) :: char) :: nat) = k"
  by simp

lemma of_char_lower: "(of_char (ascii_lower c) :: nat) =
    (if 65 \<le> (of_char c :: nat) \<and> (of_char c :: nat) \<le> 90 then of_char c + 32 else of_char c)"
  by (simp add: ascii_lower_def of_char_of)

lemma ascii_lower_lower [simp]: "ascii_lower (ascii_lower c) = ascii_lower c"
proof -
  have "\<not> (65 \<le> (of_char (ascii_lower c) :: nat) \<and> (of_char (ascii_lower c) :: nat) \<le> 90)"
    by (auto simp: of_char_lower)
  then show ?thesis
    unfolding ascii_lower_def [of "ascii_lower c"] by (rule if_not_P)
qed

lemma ascii_upper_lower [simp]: "ascii_upper (ascii_lower c) = ascii_upper c"
proof (cases "65 \<le> (of_char c :: nat) \<and> (of_char c :: nat) \<le> 90")
  case True
  then have "ascii_upper (ascii_lower c) = char_of (of_char c :: nat)"
    by (simp add: ascii_upper_def [of "ascii_lower c"] of_char_lower)
  with True show ?thesis by (simp add: ascii_upper_def)
next
  case False
  then show ?thesis by (auto simp: ascii_lower_def)
qed

lemma char_of_char_nat: "char_of (of_char c :: nat) = (c :: char)"
  by simp

lemma char_eq_of_char: "c = d \<longleftrightarrow> (of_char c :: nat) = of_char d"
  by (metis char_of_char_nat)

lemma ascii_lower_dash [simp]: "ascii_lower c = CHR ''-'' \<longleftrightarrow> c = CHR ''-''"
  unfolding char_eq_of_char [of "ascii_lower c"] char_eq_of_char [of c] of_char_lower by simp

lemma token_byte_lower [simp]: "token_byte (ascii_lower c) = token_byte c"
proof -
  have mem: "d \<in> set ''!#$%&*+-.^_|~'' \<longleftrightarrow>
      (of_char d :: nat) \<in> {33, 35, 36, 37, 38, 42, 43, 45, 46, 94, 95, 124, 126}" for d
    unfolding char_eq_of_char list.set insert_iff by simp
  show ?thesis
    unfolding token_byte_def mem Let_def of_char_lower by auto
qed

lemma canonical_from_lower: "canonical_from up (map ascii_lower s) = canonical_from up s"
  by (induction up s rule: canonical_from.induct) auto

lemma list_all_token_lower: "list_all token_byte (map ascii_lower s) = list_all token_byte s"
  by (induction s) auto

lemma canonical_key_fold:
  assumes "same_ascii_fold s t" and "list_all token_byte s"
  shows "canonical_key s = canonical_key t"
proof -
  from assms have "list_all token_byte t"
    unfolding same_ascii_fold_def by (metis list_all_token_lower)
  with assms show ?thesis
    unfolding canonical_key_def same_ascii_fold_def by (metis canonical_from_lower)
qed

lemma header_get_fold:
  "same_ascii_fold s t \<Longrightarrow> list_all token_byte s \<Longrightarrow> header_get r s = header_get r t"
  by (simp add: header_get_def canonical_key_fold [of s t])

lemma header_values_fold:
  "same_ascii_fold s t \<Longrightarrow> list_all token_byte s \<Longrightarrow> header_values r s = header_values r t"
  by (simp add: header_values_def canonical_key_fold [of s t])

lemma suffix_tokens:
  "list_all token_byte ''-User''" "list_all token_byte ''-Email''" "list_all token_byte ''-Groups''"
  by (simp_all add: token_byte_def)

text \<open>The three names of the two families the program knows, evaluated.\<close>

lemma NewHeaders_known:
  "NewHeaders AuthRequestPrefix = \<lparr>h_user = ''X-Auth-Request-User'',
     h_email = ''X-Auth-Request-Email'', h_groups = ''X-Auth-Request-Groups''\<rparr>"
  "NewHeaders ForwardedPrefix = \<lparr>h_user = ''X-Forwarded-User'',
     h_email = ''X-Forwarded-Email'', h_groups = ''X-Forwarded-Groups''\<rparr>"
  "NewHeaders ''x-auth-request'' = \<lparr>h_user = ''x-auth-request-User'',
     h_email = ''x-auth-request-Email'', h_groups = ''x-auth-request-Groups''\<rparr>"
  by code_simp+

text \<open>
  The identity read does not depend on how the configured family prefix is capitalised:
  two prefixes that agree up to ASCII case after trimming read the same headers, because
  header names are canonicalised before the lookup.
\<close>

theorem From_prefix_case_insensitive:
  assumes "same_ascii_fold (trim_suffix (trim_space p) ''-'') (trim_suffix (trim_space q) ''-'')"
    and "list_all token_byte (trim_suffix (trim_space p) ''-'')"
  shows "From (NewHeaders p) r = From (NewHeaders q) r"
proof -
  have fold: "same_ascii_fold (trim_suffix (trim_space p) ''-'' @ w)
      (trim_suffix (trim_space q) ''-'' @ w)" for w
    using assms(1) by (simp add: same_ascii_fold_def)
  have tok: "list_all token_byte (trim_suffix (trim_space p) ''-'' @ w)" if "list_all token_byte w" for w
    using assms(2) that by simp
  show ?thesis
    unfolding From_def NewHeaders_def Let_def headers.simps
    by (simp only: header_get_fold [OF fold tok [OF suffix_tokens(1)]]
        header_get_fold [OF fold tok [OF suffix_tokens(2)]]
        header_values_fold [OF fold tok [OF suffix_tokens(3)]])
qed

theorem From_prefix_case_insensitive_witness:
  "From (NewHeaders ''x-auth-request-'') [(''X-Auth-Request-User'', [''bob''])]
     = From (NewHeaders AuthRequestPrefix) [(''X-Auth-Request-User'', [''bob''])]"
  by (rule From_prefix_case_insensitive) code_simp+

text \<open>
  For the two families oauth2-proxy can present, the diagnostic in the 401 log line names
  exactly the headers of the family that is not being read.
\<close>

theorem OtherFamilyIn_is_the_other_family:
  "OtherFamilyIn (NewHeaders AuthRequestPrefix) r = PresentIn (NewHeaders ForwardedPrefix) r
   \<and> OtherFamilyIn (NewHeaders ForwardedPrefix) r = PresentIn (NewHeaders AuthRequestPrefix) r"
proof -
  have "has_prefix ''X-Auth-Request-Email'' AuthRequestPrefix"
    and "\<not> has_prefix ''X-Forwarded-Email'' AuthRequestPrefix"
    by code_simp+
  then show ?thesis
    unfolding OtherFamilyIn_def PresentIn_def NewHeaders_known
    by (simp add: AuthRequestPrefix_def ForwardedPrefix_def)
qed

text \<open>
  The diagnostic compares the configured prefix case-sensitively although the lookup is
  not case-sensitive: with the prefix spelled in lower case, the headers reported as "the
  other family" are the very headers being read.
\<close>

theorem OtherFamilyIn_lower_case_prefix:
  "map canonical_key (OtherFamilyIn (NewHeaders ''x-auth-request'') r)
   = map canonical_key (PresentIn (NewHeaders ''x-auth-request'') r)"
proof -
  have c: "canonical_key ''x-auth-request-User'' = ''X-Auth-Request-User''"
    "canonical_key ''x-auth-request-Email'' = ''X-Auth-Request-Email''"
    "canonical_key ''x-auth-request-Groups'' = ''X-Auth-Request-Groups''"
    "canonical_key ''X-Auth-Request-User'' = ''X-Auth-Request-User''"
    "canonical_key ''X-Auth-Request-Email'' = ''X-Auth-Request-Email''"
    "canonical_key ''X-Auth-Request-Groups'' = ''X-Auth-Request-Groups''"
    by code_simp+
  have "\<not> has_prefix ''x-auth-request-Email'' AuthRequestPrefix"
    by code_simp
  then show ?thesis
    unfolding OtherFamilyIn_def PresentIn_def NewHeaders_known
    by (simp add: AuthRequestPrefix_def header_get_def c)
qed

end
