(* ===== verification/Authorizer.thy ===== *)
theory Authorizer
  imports Metrics Identity_Headers
begin

text \<open>
  The scope a caller resolves to, the state every component shares, and the contract of the
  \<^verbatim>\<open>Authorizer\<close> interface of \<^verbatim>\<open>internal/authz/authz.go\<close> as a locale. The file-backed and the
  RBAC implementation interpret it; the proxy's request handler is proved against it.
\<close>

section \<open>Scope\<close>

record scope =
  sc_all :: bool
  sc_namespaces :: "bool gomap"

definition empty_scope :: scope where
  "empty_scope = \<lparr>sc_all = False, sc_namespaces = []\<rparr>"

definition all_scope :: scope where
  "all_scope = \<lparr>sc_all = True, sc_namespaces = []\<rparr>"

abbreviation in_scope :: "scope \<Rightarrow> string \<Rightarrow> bool" where
  "in_scope sc \<equiv> get_bool (sc_namespaces sc)"

section \<open>State\<close>

text \<open>
  The process-wide state: the runtime and the collectors, then the private state of the
  configured authorizer. Later theories extend the record.
\<close>

record go_state =
  rt :: runtime
  met :: metrics

record 'az auth_state = go_state +
  auth :: 'az

definition now :: "'a go_state_scheme \<Rightarrow> int \<times> 'a go_state_scheme" where
  "now s = (let (t, r) = read_clock (rt s) in (t, s\<lparr>rt := r\<rparr>))"

definition range_map :: "(string \<times> 'v) list \<Rightarrow> 'a go_state_scheme \<Rightarrow> string list \<times> 'a go_state_scheme"
where
  "range_map m s = (let (ks, r) = range_keys m (rt s) in (ks, s\<lparr>rt := r\<rparr>))"

definition observe :: "(metrics \<Rightarrow> metrics) \<Rightarrow> 'a go_state_scheme \<Rightarrow> 'a go_state_scheme" where
  "observe f s = s\<lparr>met := f (met s)\<rparr>"

lemma met_observe [simp]: "met (observe f s) = f (met s)"
  and rt_observe [simp]: "rt (observe f s) = rt s"
  and more_observe [simp]: "go_state.more (observe f s) = go_state.more s"
  by (simp_all add: observe_def)

lemma auth_observe [simp]: "auth (observe f s) = auth s"
  and auth_more_observe [simp]: "auth_state.more (observe f s) = auth_state.more s"
  by (simp_all add: observe_def)

lemma now_eq: "now s = (now_at (rt s) (ticks (rt s)), s\<lparr>rt := (rt s)\<lparr>ticks := Suc (ticks (rt s))\<rparr>\<rparr>)"
  by (simp add: now_def read_clock_def)

lemma range_map_eq:
  "range_map m s = (sort_key (rank_at (rt s) (ticks (rt s))) (map fst m),
     s\<lparr>rt := (rt s)\<lparr>ticks := Suc (ticks (rt s))\<rparr>\<rparr>)"
  by (simp add: range_map_def range_keys_def)

lemma range_map_set: "range_map m s = (ks, s') \<Longrightarrow> set ks = fst ` set m"
  by (force simp: range_map_eq)

lemma range_map_distinct: "range_map m s = (ks, s') \<Longrightarrow> wf_map m \<Longrightarrow> distinct ks"
  by (auto simp: range_map_eq wf_map_def)

lemma range_map_state: "range_map m s = (ks, s') \<Longrightarrow> s' = s\<lparr>rt := rt s'\<rparr>"
  by (auto simp: range_map_eq)

section \<open>Background goroutines\<close>

text \<open>
  \<^verbatim>\<open>time.NewTicker\<close> panics on a period that is not positive, and a panic in a goroutine ends
  the process.
\<close>

datatype 'a goroutine = Panics | Runs 'a

datatype sweep_event = Sweep_Done | Sweep_Tick

section \<open>The interface\<close>

text \<open>
  What a client of \<^verbatim>\<open>AllowedNamespaces\<close> may rely on: a granted scope is one the
  implementation's rules justify for that identity, the rest of the process state is left
  alone, and neither the request and event counters nor the channel gauge are touched.
\<close>

locale authorizer =
  fixes allowed :: "identity \<Rightarrow> ('az, 'b) auth_state_scheme
                    \<Rightarrow> (go_error + scope) \<times> ('az, 'b) auth_state_scheme"
    and inv :: "('az, 'b) auth_state_scheme \<Rightarrow> bool"
    and justified :: "('az, 'b) auth_state_scheme \<Rightarrow> ('az, 'b) auth_state_scheme \<Rightarrow> identity \<Rightarrow> scope \<Rightarrow> bool"
  assumes grants_justified: "inv s \<Longrightarrow> allowed i s = (Inr sc, s') \<Longrightarrow> justified s s' i sc"
    and keeps_inv: "inv s \<Longrightarrow> allowed i s = (res, s') \<Longrightarrow> inv s'"
    and keeps_rest: "allowed i s = (res, s') \<Longrightarrow> auth_state.more s' = auth_state.more s"
    and keeps_counters: "allowed i s = (res, s') \<Longrightarrow>
      RequestsTotal (met s') = RequestsTotal (met s) \<and> RequestDuration (met s') = RequestDuration (met s)
      \<and> EventsTotal (met s') = EventsTotal (met s) \<and> TrackedChannels (met s') = TrackedChannels (met s)"
begin

lemmas contract = grants_justified keeps_inv keeps_rest keeps_counters

end

section \<open>The timing decorator\<close>

definition Instrumented ::
  "(identity \<Rightarrow> 'a go_state_scheme \<Rightarrow> (go_error + scope) \<times> 'a go_state_scheme) \<Rightarrow> string
   \<Rightarrow> identity \<Rightarrow> 'a go_state_scheme \<Rightarrow> (go_error + scope) \<times> 'a go_state_scheme" where
  "Instrumented next_az mode i s =
    (let s = observe (\<lambda>m. m\<lparr>ScopeResolutionDuration :=
               with_label_values [mode] (ScopeResolutionDuration m)\<rparr>) s;
         (res, s) = next_az i s
     in (res, observe (\<lambda>m. m\<lparr>ScopeResolutionDuration :=
               vec_inc [mode] (ScopeResolutionDuration m)\<rparr>) s))"

lemma Instrumented_cases:
  assumes "Instrumented az mode i s = (res, s')"
  obtains s1 where "az i (observe (\<lambda>m. m\<lparr>ScopeResolutionDuration :=
        with_label_values [mode] (ScopeResolutionDuration m)\<rparr>) s) = (res, s1)"
    and "s' = observe (\<lambda>m. m\<lparr>ScopeResolutionDuration :=
        vec_inc [mode] (ScopeResolutionDuration m)\<rparr>) s1"
  using assms by (auto simp: Instrumented_def Let_def split: prod.splits)

text \<open>
  The decorator satisfies the contract whenever the decorated authorizer does and its laws
  do not depend on the resolution timer.
\<close>

context authorizer begin

lemma Instrumented_contract:
  assumes inv_timer: "\<And>f s. inv (observe (\<lambda>m. m\<lparr>ScopeResolutionDuration := f m\<rparr>) s) \<longleftrightarrow> inv s"
    and just_timer: "\<And>f s s' i sc. justified (observe (\<lambda>m. m\<lparr>ScopeResolutionDuration := f m\<rparr>) s) s' i sc
      \<longleftrightarrow> justified s s' i sc"
      "\<And>f s s' i sc. justified s (observe (\<lambda>m. m\<lparr>ScopeResolutionDuration := f m\<rparr>) s') i sc
      \<longleftrightarrow> justified s s' i sc"
  shows "authorizer (Instrumented allowed mode) inv justified"
proof (unfold_locales, goal_cases)
  case (1 s i sc s')
  show ?case
  proof (rule Instrumented_cases [OF 1(2)])
    fix s1
    assume call: "allowed i (observe (\<lambda>m. m\<lparr>ScopeResolutionDuration :=
        with_label_values [mode] (ScopeResolutionDuration m)\<rparr>) s) = (Inr sc, s1)"
      and s': "s' = observe (\<lambda>m. m\<lparr>ScopeResolutionDuration :=
        vec_inc [mode] (ScopeResolutionDuration m)\<rparr>) s1"
    from grants_justified [OF inv_timer [THEN iffD2, OF 1(1)] call]
    show "justified s s' i sc" by (simp only: s' just_timer)
  qed
next
  case (2 s i res s')
  show ?case
  proof (rule Instrumented_cases [OF 2(2)])
    fix s1
    assume call: "allowed i (observe (\<lambda>m. m\<lparr>ScopeResolutionDuration :=
        with_label_values [mode] (ScopeResolutionDuration m)\<rparr>) s) = (res, s1)"
      and s': "s' = observe (\<lambda>m. m\<lparr>ScopeResolutionDuration :=
        vec_inc [mode] (ScopeResolutionDuration m)\<rparr>) s1"
    from keeps_inv [OF inv_timer [THEN iffD2, OF 2(1)] call]
    show "inv s'" by (simp only: s' inv_timer)
  qed
next
  case (3 i s res s')
  then show ?case
    by (rule Instrumented_cases) (auto dest: keeps_rest)
next
  case (4 i s res s')
  then show ?case
    by (rule Instrumented_cases) (auto dest: keeps_counters)
qed

end

end
