(* ===== verification/Service_Registry.thy ===== *)
theory Service_Registry
  imports Authorizer
begin

text \<open>
  The per-channel memory of \<^verbatim>\<open>internal/registry/registry.go\<close>. Every exported operation runs
  under the registry's mutex, so a concurrent execution is a sequence of whole operations;
  \<open>reg_op\<close> and \<open>reg_run\<close> make those sequences a type. The visiting order of \<^verbatim>\<open>range\<close> and the
  readings of the clock come from the runtime and are arbitrary.
\<close>

section \<open>State\<close>

record channel_services =
  last_seen :: int
  ch_namespaces :: "string gomap"
  ch_peers :: "bool gomap"
  emptyScopeNotified :: bool

record registry =
  reg_ttl :: int
  max_channels :: int
  channels :: "channel_services gomap"

record 'az reg_state = "'az auth_state" +
  services :: registry

definition DefaultMaxChannels :: int where "DefaultMaxChannels = 1024"

definition new_registry :: "int \<Rightarrow> int \<Rightarrow> registry" where
  "new_registry ttl maxChannels =
    \<lparr>reg_ttl = ttl, max_channels = maxChannels, channels = []\<rparr>"

definition fresh_channel :: channel_services where
  "fresh_channel = \<lparr>last_seen = 0, ch_namespaces = [], ch_peers = [], emptyScopeNotified = False\<rparr>"

abbreviation chans :: "('az, 'b) reg_state_scheme \<Rightarrow> channel_services gomap" where
  "chans s \<equiv> channels (services s)"

definition set_chans ::
  "channel_services gomap \<Rightarrow> ('az, 'b) reg_state_scheme \<Rightarrow> ('az, 'b) reg_state_scheme" where
  "set_chans m s = s\<lparr>services := (services s)\<lparr>channels := m\<rparr>\<rparr>"

definition modify_channel ::
  "string \<Rightarrow> (channel_services \<Rightarrow> channel_services)
   \<Rightarrow> ('az, 'b) reg_state_scheme \<Rightarrow> ('az, 'b) reg_state_scheme" where
  "modify_channel c f s = set_chans (AList.map_entry c f (chans s)) s"

lemma set_chans_fields [simp]:
  "chans (set_chans m s) = m" "reg_ttl (services (set_chans m s)) = reg_ttl (services s)"
  "max_channels (services (set_chans m s)) = max_channels (services s)"
  "met (set_chans m s) = met s" "rt (set_chans m s) = rt s" "auth (set_chans m s) = auth s"
  "reg_state.more (set_chans m s) = reg_state.more s"
  by (simp_all add: set_chans_def)

lemma services_observe [simp]: "services (observe f s) = services s"
  and reg_more_observe [simp]: "reg_state.more (observe f s) = reg_state.more s"
  by (simp_all add: observe_def)

section \<open>Making room\<close>

definition drop_expired :: "int \<Rightarrow> channel_services gomap \<Rightarrow> channel_services gomap" where
  "drop_expired cutoff m = filter (\<lambda>(k, ch). \<not> last_seen ch < cutoff) m"

fun oldest_of :: "channel_services gomap \<Rightarrow> string list \<Rightarrow> string \<times> int \<Rightarrow> string \<times> int" where
  "oldest_of m [] acc = acc"
| "oldest_of m (k # ks) (oldestID, oldest) =
    (case map_of m k of
       None \<Rightarrow> oldest_of m ks (oldestID, oldest)
     | Some ch \<Rightarrow>
         if oldestID = [] \<or> last_seen ch < oldest
         then oldest_of m ks (k, last_seen ch)
         else oldest_of m ks (oldestID, oldest))"

lemma oldest_of_mem:
  "oldest_of m ks (k\<^sub>0, t\<^sub>0) = (k, t) \<Longrightarrow> k = k\<^sub>0 \<and> t = t\<^sub>0 \<or> k \<in> set ks \<and> k \<in> fst ` set m"
proof (induction ks arbitrary: k\<^sub>0 t\<^sub>0)
  case (Cons k' ks)
  show ?case
  proof (cases "map_of m k'")
    case None
    with Cons show ?thesis by auto
  next
    case (Some ch)
    then have "k' \<in> fst ` set m" by (metis weak_map_of_SomeI image_eqI fst_conv map_of_SomeD)
    with Cons.IH [of k\<^sub>0 t\<^sub>0] Cons.IH [of k' "last_seen ch"] Cons.prems Some show ?thesis
      by (cases "k\<^sub>0 = [] \<or> last_seen ch < t\<^sub>0") auto
  qed
qed simp

lemma length_delete_less: "k \<in> fst ` set m \<Longrightarrow> length (AList.delete k m) < length m"
proof -
  assume k: "k \<in> fst ` set m"
  then obtain v where "(k, v) \<in> set m" by auto
  then show ?thesis
    unfolding AList.delete_eq by (intro length_filter_less [of "(k, v)"]) auto
qed

function evict_loop :: "('az, 'b) reg_state_scheme \<Rightarrow> ('az, 'b) reg_state_scheme" where
  "evict_loop s =
    (if max_channels (services s) \<le> int (length (chans s)) then
       let (ids, s1) = range_map (chans s) s;
           (oldestID, oldest) = oldest_of (chans s) ids ([], 0)
       in if oldestID = [] then s1
          else evict_loop
                 (observe (\<lambda>m. m\<lparr>ChannelEvictionsTotal := Suc (ChannelEvictionsTotal m)\<rparr>)
                   (set_chans (AList.delete oldestID (chans s1)) s1))
     else s)"
  by pat_completeness auto
termination
proof (relation "measure (\<lambda>s. length (chans s))", goal_cases)
  case (2 s x ids s1 y oldestID oldest)
  then have "oldestID \<in> fst ` set (chans s)" and "chans s1 = chans s"
    using oldest_of_mem [of "chans s" ids "[]" 0 oldestID oldest] by (auto simp: range_map_eq)
  then show ?case by (simp add: length_delete_less)
qed simp

declare evict_loop.simps [simp del]

definition makeRoomLocked :: "('az, 'b) reg_state_scheme \<Rightarrow> ('az, 'b) reg_state_scheme" where
  "makeRoomLocked s =
    (if max_channels (services s) \<le> 0 \<or> int (length (chans s)) < max_channels (services s) then s
     else
       let (t, s) = now s;
           cutoff = t - reg_ttl (services s);
           s = set_chans (drop_expired cutoff (chans s)) s
       in if int (length (chans s)) < max_channels (services s) then s
          else evict_loop s)"

definition channelLocked ::
  "string \<Rightarrow> ('az, 'b) reg_state_scheme \<Rightarrow> ('az, 'b) reg_state_scheme" where
  "channelLocked channelID s =
    (case map_of (chans s) channelID of
       Some ch \<Rightarrow> s
     | None \<Rightarrow>
         let s = makeRoomLocked s;
             s = set_chans (AList.update channelID fresh_channel (chans s)) s
         in observe (\<lambda>m. m\<lparr>TrackedChannels := length (chans s)\<rparr>) s)"

section \<open>Operations\<close>

definition Remember ::
  "string \<Rightarrow> string \<Rightarrow> string \<Rightarrow> ('az, 'b) reg_state_scheme \<Rightarrow> ('az, 'b) reg_state_scheme" where
  "Remember channelID serviceID namespace s =
    (if channelID = [] \<or> serviceID = [] then s
     else
       let s = channelLocked channelID s;
           (t, s) = now s
       in modify_channel channelID
            (\<lambda>ch. ch\<lparr>last_seen := t,
                     ch_namespaces := AList.update serviceID namespace (ch_namespaces ch)\<rparr>) s)"

definition RememberPeer ::
  "string \<Rightarrow> string \<Rightarrow> ('az, 'b) reg_state_scheme \<Rightarrow> ('az, 'b) reg_state_scheme" where
  "RememberPeer channelID serviceID s =
    (if channelID = [] \<or> serviceID = [] then s
     else
       let s = channelLocked channelID s;
           (t, s) = now s
       in modify_channel channelID
            (\<lambda>ch. ch\<lparr>last_seen := t, ch_peers := set_true serviceID (ch_peers ch)\<rparr>) s)"

definition MarkEmptyScopeNotified ::
  "string \<Rightarrow> ('az, 'b) reg_state_scheme \<Rightarrow> bool \<times> ('az, 'b) reg_state_scheme" where
  "MarkEmptyScopeNotified channelID s =
    (if channelID = [] then (False, s)
     else
       let s = channelLocked channelID s;
           (t, s) = now s;
           s = modify_channel channelID (\<lambda>ch. ch\<lparr>last_seen := t\<rparr>) s
       in case map_of (chans s) channelID of
            None \<Rightarrow> (False, s)
          | Some ch \<Rightarrow>
              if emptyScopeNotified ch then (False, s)
              else (True, modify_channel channelID (\<lambda>ch. ch\<lparr>emptyScopeNotified := True\<rparr>) s))"

definition IsPeer :: "string \<Rightarrow> string \<Rightarrow> ('az, 'b) reg_state_scheme \<Rightarrow> bool" where
  "IsPeer channelID serviceID s =
    (case map_of (chans s) channelID of
       None \<Rightarrow> False
     | Some ch \<Rightarrow> get_bool (ch_peers ch) serviceID)"

definition Lookup ::
  "string \<Rightarrow> string \<Rightarrow> ('az, 'b) reg_state_scheme \<Rightarrow> string option \<times> ('az, 'b) reg_state_scheme"
where
  "Lookup channelID serviceID s =
    (case map_of (chans s) channelID of
       None \<Rightarrow> (None, s)
     | Some ch \<Rightarrow>
         let (t, s) = now s
         in (map_of (ch_namespaces ch) serviceID,
             modify_channel channelID (\<lambda>ch. ch\<lparr>last_seen := t\<rparr>) s))"

definition sweep :: "('az, 'b) reg_state_scheme \<Rightarrow> ('az, 'b) reg_state_scheme" where
  "sweep s =
    (let (t, s) = now s;
         cutoff = t - reg_ttl (services s);
         s = set_chans (drop_expired cutoff (chans s)) s
     in observe (\<lambda>m. m\<lparr>TrackedChannels := length (chans s)\<rparr>) s)"

fun sweep_loop :: "sweep_event list \<Rightarrow> ('az, 'b) reg_state_scheme \<Rightarrow> ('az, 'b) reg_state_scheme" where
  "sweep_loop [] s = s"
| "sweep_loop (Sweep_Done # evs) s = s"
| "sweep_loop (Sweep_Tick # evs) s = sweep_loop evs (sweep s)"

definition RunSweeper ::
  "sweep_event list \<Rightarrow> ('az, 'b) reg_state_scheme \<Rightarrow> ('az, 'b) reg_state_scheme goroutine" where
  "RunSweeper evs s =
    (if reg_ttl (services s) \<le> 0 then Panics else Runs (sweep_loop evs s))"

end
