(* ===== verification/Registry_Laws.thy ===== *)
theory Registry_Laws
  imports Service_Registry
begin

text \<open>
  What the registry promises: the invariant every operation keeps, the specification of
  eviction, the contract of the service memory as a locale with its interpretation, and the
  refinement of the unbounded memory of everything ever announced.
\<close>

section \<open>Frames\<close>

text \<open>The registry writes its channels, the runtime and two collectors, nothing else.\<close>

definition reg_frame :: "('az, 'b) reg_state_scheme \<Rightarrow> ('az, 'b) reg_state_scheme \<Rightarrow> bool" where
  "reg_frame s s' \<longleftrightarrow>
     auth s' = auth s \<and> reg_state.more s' = reg_state.more s
     \<and> reg_ttl (services s') = reg_ttl (services s)
     \<and> max_channels (services s') = max_channels (services s)
     \<and> now_at (rt s') = now_at (rt s) \<and> ticks (rt s) \<le> ticks (rt s')
     \<and> (met s')\<lparr>TrackedChannels := 0, ChannelEvictionsTotal := 0\<rparr>
       = (met s)\<lparr>TrackedChannels := 0, ChannelEvictionsTotal := 0\<rparr>"

lemma reg_frame_refl [simp]: "reg_frame s s"
  by (simp add: reg_frame_def)

lemma reg_frame_trans: "reg_frame s s1 \<Longrightarrow> reg_frame s1 s2 \<Longrightarrow> reg_frame s s2"
  by (simp add: reg_frame_def)

lemma reg_frame_set_chans [simp]: "reg_frame s (set_chans m s)"
  by (simp add: reg_frame_def)

lemma reg_frame_rt [simp]:
  "now_at r = now_at (rt s) \<Longrightarrow> ticks (rt s) \<le> ticks r \<Longrightarrow> reg_frame s (s\<lparr>rt := r\<rparr>)"
  by (simp add: reg_frame_def)

lemma reg_frame_now: "now s = (t, s') \<Longrightarrow> reg_frame s s'"
  and reg_frame_range: "range_map m s = (ks, s') \<Longrightarrow> reg_frame s s'"
  by (auto simp: now_eq range_map_eq)

lemma reg_frame_evict [simp]:
  "reg_frame s (observe (\<lambda>m. m\<lparr>ChannelEvictionsTotal := f m\<rparr>) s)"
  by (simp add: reg_frame_def)

lemma reg_frame_tracked [simp]:
  "reg_frame s (observe (\<lambda>m. m\<lparr>TrackedChannels := f m\<rparr>) s)"
  by (simp add: reg_frame_def)

lemma reg_frame_modify [simp]: "reg_frame s (modify_channel c f s)"
  by (simp add: modify_channel_def)

lemma reg_frame_fields:
  assumes "reg_frame s s'"
  shows "auth s' = auth s" "reg_ttl (services s') = reg_ttl (services s)"
    "max_channels (services s') = max_channels (services s)"
    "RequestsTotal (met s') = RequestsTotal (met s)" "EventsTotal (met s') = EventsTotal (met s)"
    "RequestDuration (met s') = RequestDuration (met s)"
    "EmptyScopeNotifications (met s') = EmptyScopeNotifications (met s)"
    "now_at (rt s') = now_at (rt s)" "ticks (rt s) \<le> ticks (rt s')"
    "reg_state.more s' = reg_state.more s"
  using assms unfolding reg_frame_def
  by (auto dest: arg_cong [of _ _ RequestsTotal] arg_cong [of _ _ EventsTotal]
      arg_cong [of _ _ RequestDuration] arg_cong [of _ _ EmptyScopeNotifications])

section \<open>Eviction\<close>

definition may_drop :: "'v gomap \<Rightarrow> 'v gomap \<Rightarrow> bool" where
  "may_drop m m' \<longleftrightarrow> (\<forall>k. map_of m' k = None \<or> map_of m' k = map_of m k)"

lemma may_drop_refl [simp]: "may_drop m m"
  by (simp add: may_drop_def)

lemma may_drop_trans: "may_drop m m1 \<Longrightarrow> may_drop m1 m2 \<Longrightarrow> may_drop m m2"
  unfolding may_drop_def by metis

lemma may_drop_delete [simp]: "may_drop m (AList.delete k m)"
  by (simp add: may_drop_def gomap_simps)

lemma may_drop_keys: "may_drop m m' \<Longrightarrow> fst ` set m' \<subseteq> fst ` set m"
  unfolding may_drop_def by (metis map_of_eq_None_iff subsetI)

lemma map_of_drop_expired:
  "wf_map m \<Longrightarrow> map_of (drop_expired cutoff m) k =
    (case map_of m k of None \<Rightarrow> None
     | Some ch \<Rightarrow> if last_seen ch < cutoff then None else Some ch)"
  unfolding drop_expired_def by (subst map_of_filter_wf) (auto split: option.splits)

lemma wf_drop_expired [gomap_wf]: "wf_map m \<Longrightarrow> wf_map (drop_expired cutoff m)"
  by (simp add: drop_expired_def gomap_wf)

lemma may_drop_expired: "wf_map m \<Longrightarrow> may_drop m (drop_expired cutoff m)"
  by (simp add: may_drop_def map_of_drop_expired split: option.splits)

lemma oldest_of_min:
  assumes "k\<^sub>0 \<noteq> []" and "[] \<notin> set ks" and "oldest_of m ks (k\<^sub>0, t\<^sub>0) = (k, t)"
  shows "k \<noteq> [] \<and> t \<le> t\<^sub>0 \<and> (\<forall>k' ch'. k' \<in> set ks \<longrightarrow> map_of m k' = Some ch' \<longrightarrow> t \<le> last_seen ch')
    \<and> (k = k\<^sub>0 \<and> t = t\<^sub>0 \<or> (\<exists>ch. map_of m k = Some ch \<and> last_seen ch = t))"
  using assms
proof (induction ks arbitrary: k\<^sub>0 t\<^sub>0)
  case Nil
  then show ?case by simp
next
  case (Cons k' ks)
  show ?case
  proof (cases "map_of m k'")
    case None
    with Cons show ?thesis by auto
  next
    case (Some ch)
    show ?thesis
    proof (cases "last_seen ch < t\<^sub>0")
      case True
      with Cons.prems Some Cons.IH [of k' "last_seen ch"] show ?thesis by fastforce
    next
      case False
      with Cons.prems Some Cons.IH [of k\<^sub>0 t\<^sub>0] show ?thesis by fastforce
    qed
  qed
qed

text \<open>On a non-empty set of channels the scan finds one that nobody precedes.\<close>

lemma oldest_of_start:
  assumes "set ks = fst ` set m" and "m \<noteq> []" and "[] \<notin> fst ` set m"
    and "oldest_of m ks ([], t\<^sub>0) = (k, t)"
  shows "k \<noteq> [] \<and> k \<in> fst ` set m
    \<and> (\<exists>ch. map_of m k = Some ch \<and> (\<forall>k' ch'. map_of m k' = Some ch' \<longrightarrow> last_seen ch \<le> last_seen ch'))"
proof -
  from assms(1,2) obtain k\<^sub>1 ks\<^sub>1 where ks: "ks = k\<^sub>1 # ks\<^sub>1"
    by (cases ks) auto
  then obtain ch\<^sub>1 where ch\<^sub>1: "map_of m k\<^sub>1 = Some ch\<^sub>1"
    using assms(1) by (metis list.set_intros(1) map_of_eq_None_iff not_Some_eq)
  have ne: "k\<^sub>1 \<noteq> []" "[] \<notin> set ks\<^sub>1"
    using assms(1,3) ks by auto
  have "oldest_of m ks\<^sub>1 (k\<^sub>1, last_seen ch\<^sub>1) = (k, t)"
    using assms(4) ks ch\<^sub>1 by simp
  from oldest_of_min [OF ne this] ch\<^sub>1 obtain ch where
    k: "k \<noteq> []" "map_of m k = Some ch" "last_seen ch = t" "t \<le> last_seen ch\<^sub>1"
    and least: "\<forall>k' ch'. k' \<in> set ks\<^sub>1 \<longrightarrow> map_of m k' = Some ch' \<longrightarrow> t \<le> last_seen ch'"
    by auto
  have "t \<le> last_seen ch'" if "map_of m k' = Some ch'" for k' ch'
  proof -
    have "k' \<in> set ks"
      using that assms(1) by (metis map_of_eq_None_iff option.distinct(1))
    with ks least that k(4) ch\<^sub>1 show ?thesis by auto
  qed
  with k show ?thesis
    by (metis map_of_eq_None_iff option.distinct(1))
qed

definition evicts_oldest :: "channel_services gomap \<Rightarrow> channel_services gomap \<Rightarrow> bool" where
  "evicts_oldest m m' \<longleftrightarrow>
     (\<forall>k ch k' ch'. map_of m k = Some ch \<longrightarrow> map_of m' k = None \<longrightarrow> map_of m' k' = Some ch'
        \<longrightarrow> last_seen ch \<le> last_seen ch')"

lemma evict_loop_spec:
  assumes "wf_map (chans s)" and "[] \<notin> fst ` set (chans s)" and "0 < max_channels (services s)"
  shows "wf_map (chans (evict_loop s)) \<and> may_drop (chans s) (chans (evict_loop s))
    \<and> evicts_oldest (chans s) (chans (evict_loop s))
    \<and> int (length (chans (evict_loop s)))
        = min (int (length (chans s))) (max_channels (services s) - 1)
    \<and> ChannelEvictionsTotal (met (evict_loop s)) + length (chans (evict_loop s))
        = ChannelEvictionsTotal (met s) + length (chans s)
    \<and> reg_frame s (evict_loop s)"
  using assms
proof (induction s rule: evict_loop.induct)
  case (1 s)
  show ?case
  proof (cases "max_channels (services s) \<le> int (length (chans s))")
    case False
    then have "evict_loop s = s" by (simp add: evict_loop.simps [of s])
    with False "1.prems" show ?thesis by (simp add: evicts_oldest_def)
  next
    case True
    obtain ids s1 where r: "range_map (chans s) s = (ids, s1)" by fastforce
    obtain k t where o: "oldest_of (chans s) ids ([], 0) = (k, t)" by fastforce
    have ne: "chans s \<noteq> []" using True "1.prems"(3) by auto
    from oldest_of_start [OF range_map_set [OF r] ne "1.prems"(2) o] obtain ch where
      k: "k \<noteq> []" "k \<in> fst ` set (chans s)" "map_of (chans s) k = Some ch"
      and least: "\<And>k' ch'. map_of (chans s) k' = Some ch' \<Longrightarrow> last_seen ch \<le> last_seen ch'"
      by blast
    define s2 where "s2 = observe (\<lambda>m. m\<lparr>ChannelEvictionsTotal := Suc (ChannelEvictionsTotal m)\<rparr>)
        (set_chans (AList.delete k (chans s1)) s1)"
    have s1: "s1 = s\<lparr>rt := rt s1\<rparr>" by (rule range_map_state [OF r])
    have chans1: "chans s1 = chans s" "met s1 = met s" "max_channels (services s1) = max_channels (services s)"
      by (subst s1, simp)+
    have unfold: "evict_loop s = evict_loop s2"
      using True r o k(1) by (subst evict_loop.simps) (simp add: s2_def)
    have chans2: "chans s2 = AList.delete k (chans s)"
      "max_channels (services s2) = max_channels (services s)"
      "ChannelEvictionsTotal (met s2) = Suc (ChannelEvictionsTotal (met s))"
      by (simp_all add: s2_def chans1)
    have frame2: "reg_frame s s2"
      unfolding s2_def by (rule reg_frame_trans [OF reg_frame_range [OF r]])
        (rule reg_frame_trans [OF reg_frame_set_chans reg_frame_evict])
    have len: "Suc (length (AList.delete k (chans s))) = length (chans s)"
      by (rule length_delete_in [OF "1.prems"(1) k(2)])
    have pre: "wf_map (chans s2)" "[] \<notin> fst ` set (chans s2)" "0 < max_channels (services s2)"
      using "1.prems" dom_delete_subset [of k "chans s"] by (auto simp: chans2 gomap_wf)
    note ih = "1.IH" [OF True refl r [symmetric] refl o [symmetric] k(1) pre [unfolded s2_def],
        folded s2_def]
    let ?m' = "chans (evict_loop s2)"
    have drop: "may_drop (chans s) ?m'"
      using ih chans2(1) by (metis may_drop_trans may_drop_delete)
    have "evicts_oldest (chans s) ?m'"
      unfolding evicts_oldest_def
    proof (intro allI impI)
      fix k1 ch1 k2 ch2
      assume a: "map_of (chans s) k1 = Some ch1" "map_of ?m' k1 = None" "map_of ?m' k2 = Some ch2"
      have k2: "map_of (chans s) k2 = Some ch2"
        using drop a(3) unfolding may_drop_def by (metis option.distinct(1))
      show "last_seen ch1 \<le> last_seen ch2"
      proof (cases "k1 = k")
        case True
        with k(3) a(1) least [OF k2] show ?thesis by simp
      next
        case False
        then have "map_of (chans s2) k1 = Some ch1"
          using a(1) by (simp add: chans2)
        with ih a show ?thesis unfolding evicts_oldest_def by blast
      qed
    qed
    then show ?thesis
      using ih drop len True reg_frame_trans [OF frame2] by (auto simp: unfold chans2)
  qed
qed

lemma makeRoomLocked_spec:
  assumes wf: "wf_map (chans s)" "[] \<notin> fst ` set (chans s)"
  shows "wf_map (chans (makeRoomLocked s)) \<and> may_drop (chans s) (chans (makeRoomLocked s))
    \<and> reg_frame s (makeRoomLocked s)
    \<and> (0 < max_channels (services s) \<longrightarrow>
         int (length (chans (makeRoomLocked s))) < max_channels (services s))"
proof (cases "max_channels (services s) \<le> 0 \<or> int (length (chans s)) < max_channels (services s)")
  case True
  then have "makeRoomLocked s = s" by (simp add: makeRoomLocked_def)
  with True wf show ?thesis by auto
next
  case False
  obtain t s1 where n: "now s = (t, s1)" by fastforce
  define s2 where "s2 = set_chans (drop_expired (t - reg_ttl (services s1)) (chans s1)) s1"
  from n have s1: "chans s1 = chans s" "max_channels (services s1) = max_channels (services s)"
    "reg_frame s s1"
    by (auto simp: now_eq)
  have drop: "may_drop (chans s) (chans s2)" "wf_map (chans s2)"
    using wf by (simp_all add: s2_def s1 may_drop_expired wf_drop_expired)
  then have ne: "[] \<notin> fst ` set (chans s2)"
    using may_drop_keys wf(2) by blast
  have frame: "reg_frame s s2"
    unfolding s2_def by (rule reg_frame_trans [OF s1(3) reg_frame_set_chans])
  then have max: "max_channels (services s2) = max_channels (services s)"
    by (simp add: reg_frame_fields)
  have unfold: "makeRoomLocked s =
      (if int (length (chans s2)) < max_channels (services s) then s2 else evict_loop s2)"
    using False n by (simp add: makeRoomLocked_def s2_def s1)
  show ?thesis
  proof (cases "int (length (chans s2)) < max_channels (services s)")
    case True
    with drop frame show ?thesis by (simp add: unfold)
  next
    case full: False
    from False have pos: "0 < max_channels (services s2)" by (simp add: max)
    from evict_loop_spec [OF drop(2) ne pos] full drop(1) frame max show ?thesis
      by (auto simp: unfold intro: may_drop_trans reg_frame_trans)
  qed
qed

section \<open>The invariant\<close>

text \<open>
  Keys are distinct, no channel is filed under the empty ID, a positive cap is respected and
  the gauge shows the number of channels.
\<close>

definition reg_ok :: "('az, 'b) reg_state_scheme \<Rightarrow> bool" where
  "reg_ok s \<longleftrightarrow>
     wf_map (chans s) \<and> [] \<notin> fst ` set (chans s)
     \<and> (0 < max_channels (services s) \<longrightarrow> int (length (chans s)) \<le> max_channels (services s))
     \<and> TrackedChannels (met s) = length (chans s)"

lemma map_of_map_entry_if:
  "map_of (AList.map_entry k f m) k' = (if k' = k then map_option f (map_of m k) else map_of m k')"
  by (simp add: map_of_map_entry split: option.splits)

lemma length_map_entry [simp]: "length (AList.map_entry k f m) = length m"
  by (induction m) auto

lemma keys_map_entry [simp]: "map fst (AList.map_entry k f m) = map fst m"
  by (induction m) auto

lemma wf_map_entry [gomap_wf]: "wf_map m \<Longrightarrow> wf_map (AList.map_entry k f m)"
  by (simp add: wf_map_def)

lemma map_of_modify_channel [simp]:
  "map_of (chans (modify_channel c f s)) k =
    (if k = c then map_option f (map_of (chans s) c) else map_of (chans s) k)"
  by (simp add: modify_channel_def map_of_map_entry_if)

lemma modify_channel_fields [simp]:
  "met (modify_channel c f s) = met s" "max_channels (services (modify_channel c f s)) = max_channels (services s)"
  "length (chans (modify_channel c f s)) = length (chans s)"
  "map fst (chans (modify_channel c f s)) = map fst (chans s)"
  by (simp_all add: modify_channel_def)

lemma reg_ok_modify [simp]: "reg_ok (modify_channel c f s) = reg_ok s"
proof -
  have "fst ` set (chans (modify_channel c f s)) = fst ` set (chans s)"
    by (metis list.set_map modify_channel_fields(4))
  then show ?thesis by (simp add: reg_ok_def wf_map_def)
qed

lemma reg_ok_rt [simp]: "reg_ok (s\<lparr>rt := r\<rparr>) = reg_ok s"
  by (simp add: reg_ok_def)

lemma channelLocked_known:
  "map_of (chans s) c = Some ch \<Longrightarrow> channelLocked c s = s"
  by (simp add: channelLocked_def)

text \<open>
  The lookup-or-create step: the channel asked for is there afterwards, as it was or fresh;
  every other channel is as it was or gone; the invariant holds.
\<close>

lemma channelLocked_spec:
  assumes ok: "reg_ok s" and c: "c \<noteq> []"
  shows "reg_ok (channelLocked c s) \<and> reg_frame s (channelLocked c s)
    \<and> map_of (chans (channelLocked c s)) c
        = Some (case map_of (chans s) c of None \<Rightarrow> fresh_channel | Some ch \<Rightarrow> ch)
    \<and> (\<forall>k. k \<noteq> c \<longrightarrow> map_of (chans (channelLocked c s)) k = None
          \<or> map_of (chans (channelLocked c s)) k = map_of (chans s) k)"
proof (cases "map_of (chans s) c")
  case (Some ch)
  with ok show ?thesis by (simp add: channelLocked_known)
next
  case None
  let ?r = "makeRoomLocked s"
  from ok have wf: "wf_map (chans s)" "[] \<notin> fst ` set (chans s)" by (simp_all add: reg_ok_def)
  note room = makeRoomLocked_spec [OF wf]
  then have frame: "reg_frame s ?r" and drop: "may_drop (chans s) (chans ?r)" by auto
  have notin: "c \<notin> fst ` set (chans ?r)"
    using None drop by (metis map_of_eq_None_iff may_drop_def)
  have keys: "[] \<notin> fst ` set (chans ?r)"
    using may_drop_keys [OF drop] wf(2) by blast
  have unfold: "channelLocked c s = observe (\<lambda>m. m\<lparr>TrackedChannels := Suc (length (chans ?r))\<rparr>)
      (set_chans (AList.update c fresh_channel (chans ?r)) ?r)"
    using None notin by (simp add: channelLocked_def Let_def length_update)
  have "reg_ok (channelLocked c s)"
    using room c keys notin
    by (auto simp: unfold reg_ok_def gomap_wf dom_update length_update reg_frame_fields(3) [OF frame])
  moreover have "reg_frame s (channelLocked c s)"
    unfolding unfold
    by (rule reg_frame_trans [OF frame]) (rule reg_frame_trans [OF reg_frame_set_chans reg_frame_tracked])
  ultimately show ?thesis
    using None drop by (auto simp: unfold gomap_simps may_drop_def)
qed

section \<open>The operations on one channel\<close>

definition view :: "('az, 'b) reg_state_scheme \<Rightarrow> string \<Rightarrow> channel_services" where
  "view s c = (case map_of (chans s) c of None \<Rightarrow> fresh_channel | Some ch \<Rightarrow> ch)"

definition known :: "('az, 'b) reg_state_scheme \<Rightarrow> string \<Rightarrow> string \<Rightarrow> string option" where
  "known s c = map_of (ch_namespaces (view s c))"

definition peers :: "('az, 'b) reg_state_scheme \<Rightarrow> string \<Rightarrow> string \<Rightarrow> bool" where
  "peers s c = get_bool (ch_peers (view s c))"

definition notified :: "('az, 'b) reg_state_scheme \<Rightarrow> string \<Rightarrow> bool" where
  "notified s c = emptyScopeNotified (view s c)"

definition others_kept :: "string \<Rightarrow> ('az, 'b) reg_state_scheme \<Rightarrow> ('az, 'b) reg_state_scheme \<Rightarrow> bool" where
  "others_kept c s s' \<longleftrightarrow>
     (\<forall>k. k \<noteq> c \<longrightarrow> map_of (chans s') k = None \<or> map_of (chans s') k = map_of (chans s) k)"

lemma others_kept_refl [simp]: "others_kept c s s"
  by (simp add: others_kept_def)

lemma others_kept_trans: "others_kept c s s1 \<Longrightarrow> others_kept c s1 s2 \<Longrightarrow> others_kept c s s2"
  unfolding others_kept_def by metis

lemma fresh_channel_fields [simp]:
  "ch_namespaces fresh_channel = []" "ch_peers fresh_channel = []"
  "emptyScopeNotified fresh_channel = False"
  by (simp_all add: fresh_channel_def)

lemma others_kept_view:
  "others_kept c s s' \<Longrightarrow> k \<noteq> c \<Longrightarrow> view s' k = fresh_channel \<or> view s' k = view s k"
  by (auto simp: others_kept_def view_def)

text \<open>Entering a channel, reading the clock and updating the channel: the shape of all three writers.\<close>

lemma enter_channel:
  assumes ok: "reg_ok s" and c: "c \<noteq> []" and n: "now (channelLocked c s) = (t, s1)"
  shows "reg_ok s1 \<and> reg_frame s s1 \<and> map_of (chans s1) c = Some (view s c) \<and> others_kept c s s1"
proof -
  from n have s1: "s1 = (channelLocked c s)\<lparr>rt := rt s1\<rparr>" by (auto simp: now_eq)
  have "reg_frame s s1"
    by (rule reg_frame_trans [OF channelLocked_spec [OF ok c, THEN conjunct2, THEN conjunct1]
        reg_frame_now [OF n]])
  moreover have "chans s1 = chans (channelLocked c s)" by (subst s1) simp
  moreover have "reg_ok s1" by (subst s1) (simp add: channelLocked_spec [OF ok c])
  ultimately show ?thesis
    using channelLocked_spec [OF ok c] by (simp add: view_def others_kept_def)
qed

lemma modify_spec:
  assumes "map_of (chans s) c = Some ch"
  shows "view (modify_channel c f s) c = f ch" "map_of (chans (modify_channel c f s)) c = Some (f ch)"
    "others_kept c s (modify_channel c f s)"
  using assms by (simp_all add: view_def others_kept_def)

lemma enter_modify:
  assumes ok: "reg_ok s" and c: "c \<noteq> []" and n: "now (channelLocked c s) = (t, s1)"
  shows "reg_ok (modify_channel c f s1) \<and> reg_frame s (modify_channel c f s1)
    \<and> map_of (chans (modify_channel c f s1)) c = Some (f (view s c))
    \<and> others_kept c s (modify_channel c f s1)"
  using enter_channel [OF assms] reg_frame_trans [OF _ reg_frame_modify]
    modify_spec(2,3) [of s1 c "view s c" f] others_kept_trans [of c s s1]
  by auto

lemma Remember_spec:
  assumes "reg_ok s" and "c \<noteq> []" and "v \<noteq> []"
  shows "reg_ok (Remember c v n s) \<and> reg_frame s (Remember c v n s)
    \<and> others_kept c s (Remember c v n s)
    \<and> (\<exists>t. map_of (chans (Remember c v n s)) c = Some ((view s c)\<lparr>last_seen := t,
          ch_namespaces := AList.update v n (ch_namespaces (view s c))\<rparr>))"
proof -
  obtain t s1 where n: "now (channelLocked c s) = (t, s1)" by fastforce
  with assms have "Remember c v n s = modify_channel c (\<lambda>ch. ch\<lparr>last_seen := t,
      ch_namespaces := AList.update v n (ch_namespaces ch)\<rparr>) s1"
    by (simp add: Remember_def)
  with enter_modify [OF assms(1,2) n] show ?thesis by (auto simp del: map_of_modify_channel)
qed

lemma RememberPeer_spec:
  assumes "reg_ok s" and "c \<noteq> []" and "v \<noteq> []"
  shows "reg_ok (RememberPeer c v s) \<and> reg_frame s (RememberPeer c v s)
    \<and> others_kept c s (RememberPeer c v s)
    \<and> (\<exists>t. map_of (chans (RememberPeer c v s)) c = Some ((view s c)\<lparr>last_seen := t,
          ch_peers := set_true v (ch_peers (view s c))\<rparr>))"
proof -
  obtain t s1 where n: "now (channelLocked c s) = (t, s1)" by fastforce
  with assms have "RememberPeer c v s = modify_channel c (\<lambda>ch. ch\<lparr>last_seen := t,
      ch_peers := set_true v (ch_peers ch)\<rparr>) s1"
    by (simp add: RememberPeer_def)
  with enter_modify [OF assms(1,2) n] show ?thesis by (auto simp del: map_of_modify_channel)
qed

lemma MarkEmptyScopeNotified_spec:
  assumes ok: "reg_ok s" and c: "c \<noteq> []" and m: "MarkEmptyScopeNotified c s = (b, s')"
  shows "b \<longleftrightarrow> \<not> notified s c" "reg_ok s'" "reg_frame s s'" "others_kept c s s'"
    "\<exists>t. map_of (chans s') c = Some ((view s c)\<lparr>last_seen := t, emptyScopeNotified := True\<rparr>)"
proof -
  obtain t s1 where n: "now (channelLocked c s) = (t, s1)" by fastforce
  let ?s2 = "modify_channel c (\<lambda>ch. ch\<lparr>last_seen := t\<rparr>) s1"
  from enter_modify [OF ok c n, of "\<lambda>ch. ch\<lparr>last_seen := t\<rparr>"] have
    s2: "reg_ok ?s2" "reg_frame s ?s2" "map_of (chans ?s2) c = Some ((view s c)\<lparr>last_seen := t\<rparr>)"
      "others_kept c s ?s2"
    by auto
  have unfold: "(b, s') = (if notified s c then (False, ?s2)
      else (True, modify_channel c (\<lambda>ch. ch\<lparr>emptyScopeNotified := True\<rparr>) ?s2))"
    using m c n s2(3) by (auto simp add: MarkEmptyScopeNotified_def notified_def Let_def simp del: map_of_modify_channel)
  have flag: "(view s c)\<lparr>last_seen := t\<rparr> = (view s c)\<lparr>last_seen := t, emptyScopeNotified := True\<rparr>"
    if "notified s c"
    using that by (cases "view s c") (simp add: notified_def)
  show "b \<longleftrightarrow> \<not> notified s c" using unfold by (simp split: if_splits)
  show "reg_ok s'" using unfold s2(1) by (simp split: if_splits)
  show "reg_frame s s'"
    using unfold s2(2) reg_frame_trans [OF s2(2) reg_frame_modify] by (simp split: if_splits)
  show "others_kept c s s'"
    using unfold s2(4) others_kept_trans [OF s2(4) modify_spec(3) [OF s2(3)]] by (simp split: if_splits)
  show "\<exists>t. map_of (chans s') c = Some ((view s c)\<lparr>last_seen := t, emptyScopeNotified := True\<rparr>)"
    using unfold s2(3) flag modify_spec(2) [OF s2(3)]
    by (auto simp del: map_of_modify_channel split: if_splits)
qed

lemma Lookup_spec:
  assumes ok: "reg_ok s" and l: "Lookup c v s = (r, s')"
  shows "r = known s c v" "reg_ok s'" "reg_frame s s'" "others_kept c s s'"
    "(map_of (chans s) c = None \<and> s' = s) \<or>
     (\<exists>t. map_of (chans s) c \<noteq> None \<and> map_of (chans s') c = Some ((view s c)\<lparr>last_seen := t\<rparr>))"
proof -
  have "r = known s c v \<and> reg_ok s' \<and> reg_frame s s' \<and> others_kept c s s' \<and>
    ((map_of (chans s) c = None \<and> s' = s) \<or>
     (\<exists>t. map_of (chans s) c \<noteq> None \<and> map_of (chans s') c = Some ((view s c)\<lparr>last_seen := t\<rparr>)))"
  proof (cases "map_of (chans s) c")
    case None
    with ok l show ?thesis by (simp add: Lookup_def known_def view_def)
  next
    case (Some ch)
    obtain t s1 where n: "now s = (t, s1)" by fastforce
    then have s1: "s1 = s\<lparr>rt := rt s1\<rparr>" by (auto simp: now_eq)
    have "chans s1 = chans s" "reg_ok s1"
      using ok by (subst s1, simp)+
    with reg_frame_now [OF n] l Some n show ?thesis
      using reg_frame_trans [OF _ reg_frame_modify, of s s1]
      by (auto simp: Lookup_def known_def view_def others_kept_def)
  qed
  then show "r = known s c v" "reg_ok s'" "reg_frame s s'" "others_kept c s s'"
    "(map_of (chans s) c = None \<and> s' = s) \<or>
     (\<exists>t. map_of (chans s) c \<noteq> None \<and> map_of (chans s') c = Some ((view s c)\<lparr>last_seen := t\<rparr>))"
    by blast+
qed

lemma sweep_spec:
  assumes ok: "reg_ok s"
  shows "reg_ok (sweep s)" "reg_frame s (sweep s)" "may_drop (chans s) (chans (sweep s))"
    "map_of (chans (sweep s)) k = (case map_of (chans s) k of None \<Rightarrow> None
       | Some ch \<Rightarrow> if last_seen ch < fst (now s) - reg_ttl (services s) then None else Some ch)"
proof -
  obtain t s1 where n: "now s = (t, s1)" by fastforce
  then have s1: "s1 = s\<lparr>rt := rt s1\<rparr>" by (auto simp: now_eq)
  have same: "chans s1 = chans s" "reg_ttl (services s1) = reg_ttl (services s)"
      "max_channels (services s1) = max_channels (services s)"
    by (subst s1, simp)+
  note frame1 = reg_frame_now [OF n]
  let ?m = "drop_expired (t - reg_ttl (services s)) (chans s)"
  have unfold: "sweep s = observe (\<lambda>m. m\<lparr>TrackedChannels := length ?m\<rparr>) (set_chans ?m s1)"
    using n by (simp add: sweep_def same Let_def)
  from ok have wf: "wf_map (chans s)" by (simp add: reg_ok_def)
  have drop: "may_drop (chans s) ?m" by (rule may_drop_expired [OF wf])
  have len: "length ?m \<le> length (chans s)" by (simp add: drop_expired_def)
  show "reg_ok (sweep s)"
    using ok may_drop_keys [OF drop] len wf_drop_expired [OF wf]
    by (auto simp: unfold reg_ok_def same)
  show "reg_frame s (sweep s)"
    unfolding unfold
    by (rule reg_frame_trans [OF frame1]) (rule reg_frame_trans [OF reg_frame_set_chans reg_frame_tracked])
  show "may_drop (chans s) (chans (sweep s))" using drop by (simp add: unfold)
  show "map_of (chans (sweep s)) k = (case map_of (chans s) k of None \<Rightarrow> None
       | Some ch \<Rightarrow> if last_seen ch < fst (now s) - reg_ttl (services s) then None else Some ch)"
    using n wf by (simp add: unfold map_of_drop_expired split: option.split)
qed

section \<open>The service memory as an interface\<close>

text \<open>
  What the service-map filter relies on. \<open>knows\<close> and \<open>linked\<close> are what the memory currently
  holds for a channel; writers and readers are described by their effect on these two.
\<close>

locale service_memory =
  fixes remember :: "string \<Rightarrow> string \<Rightarrow> string \<Rightarrow> 's \<Rightarrow> 's"
    and remember_peer :: "string \<Rightarrow> string \<Rightarrow> 's \<Rightarrow> 's"
    and lookup :: "string \<Rightarrow> string \<Rightarrow> 's \<Rightarrow> string option \<times> 's"
    and is_peer :: "string \<Rightarrow> string \<Rightarrow> 's \<Rightarrow> bool"
    and knows :: "'s \<Rightarrow> string \<Rightarrow> string \<Rightarrow> string option"
    and linked :: "'s \<Rightarrow> string \<Rightarrow> string \<Rightarrow> bool"
    and ok :: "'s \<Rightarrow> bool"
  assumes remember_ok: "ok s \<Longrightarrow> ok (remember c v n s)"
    and remember_knows: "ok s \<Longrightarrow> knows (remember c v n s) c =
          (if c = [] \<or> v = [] then knows s c else (knows s c)(v \<mapsto> n))"
    and remember_linked: "ok s \<Longrightarrow> linked (remember c v n s) c = linked s c"
    and peer_ok: "ok s \<Longrightarrow> ok (remember_peer c v s)"
    and peer_knows: "ok s \<Longrightarrow> knows (remember_peer c v s) c = knows s c"
    and peer_linked: "ok s \<Longrightarrow> linked (remember_peer c v s) c =
          (if c = [] \<or> v = [] then linked s c else (linked s c)(v := True))"
    and lookup_result: "ok s \<Longrightarrow> fst (lookup c v s) = knows s c v"
    and lookup_ok: "ok s \<Longrightarrow> ok (snd (lookup c v s))"
    and lookup_knows: "ok s \<Longrightarrow> knows (snd (lookup c v s)) c = knows s c"
    and lookup_linked: "ok s \<Longrightarrow> linked (snd (lookup c v s)) c = linked s c"
    and is_peer_result: "is_peer c v s = linked s c v"
begin

text \<open>Learning a list of announcements: the last one for an ID counts.\<close>

definition learn :: "string \<Rightarrow> (string \<times> string) list \<Rightarrow> 's \<Rightarrow> 's" where
  "learn c anns s = fold (\<lambda>(v, n). remember c v n) anns s"

definition overlay :: "(string \<times> string) list \<Rightarrow> (string \<Rightarrow> string option) \<Rightarrow> string \<Rightarrow> string option"
where
  "overlay anns m = fold (\<lambda>(v, n) m. if v = [] then m else m(v \<mapsto> n)) anns m"

lemma learn_spec:
  "ok s \<Longrightarrow> ok (learn c anns s) \<and> linked (learn c anns s) c = linked s c
     \<and> knows (learn c anns s) c = (if c = [] then knows s c else overlay anns (knows s c))"
proof (induction anns arbitrary: s)
  case Nil
  then show ?case by (simp add: learn_def overlay_def)
next
  case (Cons p anns)
  obtain v n where p: "p = (v, n)" by (cases p)
  have step: "learn c (p # anns) s = learn c anns (remember c v n s)"
    by (simp add: learn_def p)
  have over: "overlay (p # anns) m = overlay anns (if v = [] then m else m(v \<mapsto> n))" for m
    by (simp add: overlay_def p)
  from Cons.IH [OF remember_ok [OF Cons.prems]] Cons.prems show ?case
    by (auto simp: step over remember_knows remember_linked)
qed

text \<open>Reading never changes what is held, so any number of lookups answer from one memory.\<close>

lemma lookups_stable:
  assumes "ok s"
  shows "fst (lookup c w (snd (lookup c v s))) = knows s c w"
  using assms by (simp add: lookup_result lookup_ok lookup_knows)

end

lemma known_others: "others_kept c s s' \<Longrightarrow> k \<noteq> c \<Longrightarrow> known s' k = Map.empty \<or> known s' k = known s k"
  by (auto simp: known_def dest: others_kept_view)

lemma view_Some: "map_of (chans s) c = Some ch \<Longrightarrow> view s c = ch"
  by (simp add: view_def)

lemma Remember_known:
  assumes "reg_ok s"
  shows "known (Remember c v n s) c = (if c = [] \<or> v = [] then known s c else (known s c)(v \<mapsto> n))"
    and "peers (Remember c v n s) c = peers s c"
    and "notified (Remember c v n s) c = notified s c"
proof -
  have "known (Remember c v n s) c = (if c = [] \<or> v = [] then known s c else (known s c)(v \<mapsto> n))
    \<and> peers (Remember c v n s) c = peers s c \<and> notified (Remember c v n s) c = notified s c"
  proof (cases "c = [] \<or> v = []")
    case True
    then show ?thesis by (auto simp: Remember_def)
  next
    case False
    with Remember_spec [OF assms, of c v n] show ?thesis
      by (auto simp: known_def peers_def notified_def view_Some update_conv' dest!: view_Some)
  qed
  then show "known (Remember c v n s) c = (if c = [] \<or> v = [] then known s c else (known s c)(v \<mapsto> n))"
    and "peers (Remember c v n s) c = peers s c" and "notified (Remember c v n s) c = notified s c"
    by auto
qed

lemma RememberPeer_known:
  assumes "reg_ok s"
  shows "known (RememberPeer c v s) c = known s c"
    and "peers (RememberPeer c v s) c = (if c = [] \<or> v = [] then peers s c else (peers s c)(v := True))"
    and "notified (RememberPeer c v s) c = notified s c"
proof -
  have "known (RememberPeer c v s) c = known s c
    \<and> peers (RememberPeer c v s) c = (if c = [] \<or> v = [] then peers s c else (peers s c)(v := True))
    \<and> notified (RememberPeer c v s) c = notified s c"
  proof (cases "c = [] \<or> v = []")
    case True
    then show ?thesis by (auto simp: RememberPeer_def)
  next
    case False
    with RememberPeer_spec [OF assms, of c v] show ?thesis
      by (auto simp: known_def peers_def notified_def view_Some get_bool_set_true fun_eq_iff
          dest!: view_Some)
  qed
  then show "known (RememberPeer c v s) c = known s c"
    and "peers (RememberPeer c v s) c = (if c = [] \<or> v = [] then peers s c else (peers s c)(v := True))"
    and "notified (RememberPeer c v s) c = notified s c"
    by auto
qed

lemma Lookup_known:
  assumes "reg_ok s"
  shows "known (snd (Lookup c v s)) c = known s c" and "peers (snd (Lookup c v s)) c = peers s c"
    and "notified (snd (Lookup c v s)) c = notified s c"
proof -
  obtain r s' where l: "Lookup c v s = (r, s')" by fastforce
  from Lookup_spec(5) [OF assms l] show "known (snd (Lookup c v s)) c = known s c"
    and "peers (snd (Lookup c v s)) c = peers s c" and "notified (snd (Lookup c v s)) c = notified s c"
    by (auto simp: l known_def peers_def notified_def dest!: view_Some)
qed

lemma ok_Remember: "reg_ok s \<Longrightarrow> reg_ok (Remember c v n s)"
  by (cases "c = [] \<or> v = []") (auto simp: Remember_spec, auto simp: Remember_def)

lemma ok_RememberPeer: "reg_ok s \<Longrightarrow> reg_ok (RememberPeer c v s)"
  by (cases "c = [] \<or> v = []") (auto simp: RememberPeer_spec, auto simp: RememberPeer_def)

lemma ok_Lookup: "reg_ok s \<Longrightarrow> reg_ok (snd (Lookup c v s))"
  by (metis Lookup_spec(2) prod.collapse)

lemma IsPeer_peers: "IsPeer c v s = peers s c v"
  by (auto simp: IsPeer_def peers_def view_def split: option.split)

interpretation mem: service_memory Remember RememberPeer Lookup IsPeer known peers reg_ok
proof (unfold_locales, goal_cases)
  case (7 s c v)
  then show ?case by (metis Lookup_spec(1) prod.collapse)
qed (simp_all add: Remember_known RememberPeer_known Lookup_known ok_Remember ok_RememberPeer
    ok_Lookup IsPeer_peers)

end
