(* ===== verification/Ui_Filter.thy ===== *)
theory Ui_Filter
  imports Ui_Messages Registry_Laws
begin

text \<open>
  \<^verbatim>\<open>internal/proxy/filter.go\<close> and \<^verbatim>\<open>internal/proxy/uifilter.go\<close>: the visibility rule, the route
  table and the two response filters. The filters thread the state because they write the
  channel registry and the event counters. A request's filter runs its registry operations
  one after the other; what other requests may do in between is covered by the properties of
  the registry, which hold for every sequence of operations.
\<close>

section \<open>The visibility rule\<close>

definition namespacePairVisible :: "string \<Rightarrow> string \<Rightarrow> bool gomap \<Rightarrow> bool \<Rightarrow> bool" where
  "namespacePairVisible src dst allowed requireBoth =
    (let srcOK = (src \<noteq> [] \<and> get_bool allowed src);
         dstOK = (dst \<noteq> [] \<and> get_bool allowed dst)
     in if requireBoth then
          let srcOKorEmpty = (src = [] \<or> get_bool allowed src);
              dstOKorEmpty = (dst = [] \<or> get_bool allowed dst)
          in srcOKorEmpty \<and> dstOKorEmpty \<and> (srcOK \<or> dstOK)
        else srcOK \<or> dstOK)"

definition flowVisible :: "flow option \<Rightarrow> bool gomap \<Rightarrow> bool \<Rightarrow> bool" where
  "flowVisible f allowed requireBoth =
    namespacePairVisible (source_namespace f) (destination_namespace f) allowed requireBoth"

section \<open>Routes\<close>

definition routeControlStream :: string where "routeControlStream = ''control-stream''"
definition routeServiceMapStre :: string where "routeServiceMapStre = ''service-map-stream''"
definition routeOther :: string where "routeOther = ''other''"

definition KnownRoutes :: "string list" where
  "KnownRoutes = [routeControlStream, routeServiceMapStre, routeOther]"

definition knownRoute :: "string \<Rightarrow> string" where
  "knownRoute s =
    (let name = trim_prefix s ''/''
     in if name = routeControlStream \<or> name = routeServiceMapStre then name else routeOther)"

section \<open>The configuration the filter reads\<close>

record proxy =
  requireBoth :: bool
  apiPrefix :: string
  px_headers :: headers
  maxResponse :: "64 word"
  notifyEmptyScope :: bool

section \<open>The control stream\<close>

definition count_event :: "string \<Rightarrow> string \<Rightarrow> 'a go_state_scheme \<Rightarrow> 'a go_state_scheme" where
  "count_event kind decision s =
    observe (\<lambda>m. m\<lparr>EventsTotal := vec_inc [kind, decision] (EventsTotal m)\<rparr>) s"

definition cmp_or :: "string \<Rightarrow> string \<Rightarrow> string" where
  "cmp_or a b = (if a \<noteq> [] then a else b)"

definition ellipsis_suffix :: string where
  "ellipsis_suffix = '', '' @ [CHR 0xE2, CHR 0x80, CHR 0xA6]"

definition noPermissionResponse :: "identity \<Rightarrow> control_response" where
  "noPermissionResponse i =
    (let who = cmp_or (id_email i) (id_user i);
         who = (if who = [] then ''your account'' else who);
         (who, ask) =
           (if id_groups i \<noteq> [] then
              let (groups, suffix) =
                    (if 8 < length (id_groups i) then (take 8 (id_groups i), ellipsis_suffix)
                     else (id_groups i, []))
              in (who @ '' (groups: '' @ join_with '', '' groups @ suffix @ '')'',
                  ''ask an administrator to grant this user or one of these groups access.'')
            else (who, ''ask an administrator to grant this user access.''))
     in \<lparr>cr_case = Some (Control_Notification (NoPermission ''namespaces''
           (''No namespaces are visible to '' @ who @ ''. '' @
            ''Hubble access is granted per namespace by hubble-authz-proxy; '' @ ask))),
         cr_rest = []\<rparr>)"

fun keep_namespaces ::
  "scope \<Rightarrow> namespace_state list \<Rightarrow> 'a go_state_scheme \<Rightarrow> namespace_state list \<times> 'a go_state_scheme"
where
  "keep_namespaces sc [] s = ([], s)"
| "keep_namespaces sc (n # ns) s =
    (if get_bool (sc_namespaces sc) (state_namespace (Some n)) then
       let (kept, s) = keep_namespaces sc ns (count_event ''namespace_state'' ''kept'' s)
       in (n # kept, s)
     else keep_namespaces sc ns (count_event ''namespace_state'' ''dropped'' s))"

definition filterControlStream ::
  "codec \<Rightarrow> proxy \<Rightarrow> string \<Rightarrow> bytes \<Rightarrow> scope \<Rightarrow> identity \<Rightarrow> ('az, 'b) reg_state_scheme
   \<Rightarrow> (go_error + bytes) \<times> ('az, 'b) reg_state_scheme" where
  "filterControlStream cd p channelID body sc i s =
    (case unmarshal_control cd body of
       Inl e \<Rightarrow> (Inl (Wrapped ''unmarshal GetControlStreamResponse'' e), s)
     | Inr resp \<Rightarrow>
         (case control_namespaces resp of
            None \<Rightarrow> (Inr body, s)
          | Some states \<Rightarrow>
              let (kept, s) = keep_namespaces sc (nss_namespaces states) s;
                  (notice, s) =
                    (if notifyEmptyScope p \<and> length (sc_namespaces sc) = 0
                     then MarkEmptyScopeNotified channelID s else (False, s))
              in if notice then
                   (marshal_control cd (noPermissionResponse i),
                    observe (\<lambda>m. m\<lparr>EmptyScopeNotifications := Suc (EmptyScopeNotifications m)\<rparr>) s)
                 else
                   (marshal_control cd (resp\<lparr>cr_case :=
                      Some (Control_Namespaces (Some (states\<lparr>nss_namespaces := kept\<rparr>)))\<rparr>), s)))"

section \<open>The service map\<close>

definition eventKind :: "ui_event \<Rightarrow> string" where
  "eventKind ev =
    (case ev_case ev of
       Some (Event_Flow _) \<Rightarrow> ''flow''
     | Some (Event_Flows _) \<Rightarrow> ''flows''
     | Some (Event_NamespaceState _) \<Rightarrow> ''namespace_state''
     | Some (Event_ServiceState _) \<Rightarrow> ''service_state''
     | Some (Event_ServiceLinkState _) \<Rightarrow> ''service_link_state''
     | Some (Event_Notification _) \<Rightarrow> ''notification''
     | _ \<Rightarrow> ''unknown'')"

text \<open>
  The decision on one event: \<open>None\<close> drops it. The trimmed batch of flows is written into the
  event, which the code does in place.
\<close>

definition eventVisible ::
  "proxy \<Rightarrow> string \<Rightarrow> ui_event \<Rightarrow> scope \<Rightarrow> ('az, 'b) reg_state_scheme
   \<Rightarrow> ui_event option \<times> ('az, 'b) reg_state_scheme" where
  "eventVisible p channelID ev sc s =
    (let allowed = sc_namespaces sc; both = requireBoth p;
         keep_if = (\<lambda>b. if b then Some ev else None)
     in case ev_case ev of
       Some (Event_Flow f) \<Rightarrow> (keep_if (flowVisible f allowed both), s)
     | Some (Event_Flows b) \<Rightarrow>
         let keep = filter (\<lambda>f. flowVisible (Some f) allowed both) (batch_flows b)
         in if keep = [] then (None, s)
            else (Some (ev\<lparr>ev_case :=
                   Some (Event_Flows (map_option (\<lambda>b. b\<lparr>fb_flows := keep\<rparr>) b))\<rparr>), s)
     | Some (Event_NamespaceState n) \<Rightarrow> (keep_if (get_bool allowed (state_namespace n)), s)
     | Some (Event_ServiceState st) \<Rightarrow>
         let svc = state_service st
         in if get_bool allowed (service_namespace svc) then (Some ev, s)
            else (keep_if (\<not> both \<and> IsPeer channelID (service_id svc) s), s)
     | Some (Event_ServiceLinkState st) \<Rightarrow>
         let link = state_link st;
             (srcNS, s) = Lookup channelID (link_source link) s;
             (dstNS, s) = Lookup channelID (link_destination link) s
         in (case (srcNS, dstNS) of
               (Some srcNS, Some dstNS) \<Rightarrow>
                 (keep_if (namespacePairVisible srcNS dstNS allowed both), s)
             | _ \<Rightarrow> (None, s))
     | Some (Event_Notification _) \<Rightarrow> (Some ev, s)
     | _ \<Rightarrow> (None, s))"

text \<open>Pass 1 records every announced service, pass 1b the peers of the services in scope.\<close>

fun learn_services ::
  "string \<Rightarrow> ui_event list \<Rightarrow> ('az, 'b) reg_state_scheme \<Rightarrow> ('az, 'b) reg_state_scheme" where
  "learn_services channelID [] s = s"
| "learn_services channelID (ev # evs) s =
    (case event_service ev of
       None \<Rightarrow> learn_services channelID evs s
     | Some svc \<Rightarrow>
         learn_services channelID evs (Remember channelID (sv_id svc) (sv_namespace svc) s))"

fun learn_peers ::
  "string \<Rightarrow> scope \<Rightarrow> ui_event list \<Rightarrow> ('az, 'b) reg_state_scheme \<Rightarrow> ('az, 'b) reg_state_scheme"
where
  "learn_peers channelID sc [] s = s"
| "learn_peers channelID sc (ev # evs) s =
    (case event_link ev of
       None \<Rightarrow> learn_peers channelID sc evs s
     | Some link \<Rightarrow>
         let (srcNS, s) = Lookup channelID (sl_source_id link) s;
             (dstNS, s) = Lookup channelID (sl_destination_id link) s
         in (case (srcNS, dstNS) of
               (Some srcNS, Some dstNS) \<Rightarrow>
                 let s = (if get_bool (sc_namespaces sc) srcNS \<and> \<not> get_bool (sc_namespaces sc) dstNS
                          then RememberPeer channelID (sl_destination_id link) s else s);
                     s = (if get_bool (sc_namespaces sc) dstNS \<and> \<not> get_bool (sc_namespaces sc) srcNS
                          then RememberPeer channelID (sl_source_id link) s else s)
                 in learn_peers channelID sc evs s
             | _ \<Rightarrow> learn_peers channelID sc evs s))"

fun keep_events ::
  "proxy \<Rightarrow> string \<Rightarrow> scope \<Rightarrow> ui_event list \<Rightarrow> ('az, 'b) reg_state_scheme
   \<Rightarrow> ui_event list \<times> ('az, 'b) reg_state_scheme" where
  "keep_events p channelID sc [] s = ([], s)"
| "keep_events p channelID sc (ev # evs) s =
    (case eventVisible p channelID ev sc s of
       (Some e, s) \<Rightarrow>
         let (kept, s) = keep_events p channelID sc evs (count_event (eventKind ev) ''kept'' s)
         in (e # kept, s)
     | (None, s) \<Rightarrow>
         keep_events p channelID sc evs (count_event (eventKind ev) ''dropped'' s))"

definition filterServiceMapStream ::
  "codec \<Rightarrow> proxy \<Rightarrow> string \<Rightarrow> bytes \<Rightarrow> scope \<Rightarrow> ('az, 'b) reg_state_scheme
   \<Rightarrow> (go_error + bytes) \<times> ('az, 'b) reg_state_scheme" where
  "filterServiceMapStream cd p channelID body sc s =
    (case unmarshal_events cd body of
       Inl e \<Rightarrow> (Inl (Wrapped ''unmarshal GetEventsResponse'' e), s)
     | Inr resp \<Rightarrow>
         let s = learn_services channelID (er_events resp) s;
             s = (if requireBoth p then s else learn_peers channelID sc (er_events resp) s);
             (kept, s) = keep_events p channelID sc (er_events resp) s
         in (marshal_events cd (resp\<lparr>er_events := kept\<rparr>), s))"

section \<open>Dispatch\<close>

definition filterBody ::
  "codec \<Rightarrow> proxy \<Rightarrow> string \<Rightarrow> string \<Rightarrow> bytes \<Rightarrow> scope \<Rightarrow> identity \<Rightarrow> ('az, 'b) reg_state_scheme
   \<Rightarrow> (go_error + bytes) \<times> ('az, 'b) reg_state_scheme" where
  "filterBody cd p route channelID body sc i s =
    (if body = [] then (Inr body, s)
     else if route = routeControlStream then filterControlStream cd p channelID body sc i s
     else if route = routeServiceMapStre then filterServiceMapStream cd p channelID body sc s
     else (Inl (Wrapped route Err_Unknown_Route), s))"

end
