(* ===== verification/Proxy_Handler.thy ===== *)
theory Proxy_Handler
  imports Ui_Filter
begin

text \<open>
  \<^verbatim>\<open>internal/proxy/proxy.go\<close>: the HTTP handler around the filters. A request is carried by its
  path and headers, a response by its status, headers and the body the backend delivers.
  \<^verbatim>\<open>httputil.ReverseProxy\<close> is modelled as far as the handler uses it: it rewrites the request,
  asks the backend, hands the response to \<open>filterResponse\<close> and every failure to the error
  handler. The backend is a parameter.
\<close>

section \<open>Requests and responses\<close>

record reqInfo =
  filtered :: bool
  ri_scope :: scope
  ri_id :: identity

record request =
  rq_path :: string
  rq_header :: http_header
  rq_rest :: bytes

record response =
  status :: nat
  rs_header :: http_header
  content_length :: int
  rs_body :: bytes

text \<open>
  A response as the backend delivers it: the bytes that arrive, and the error the connection
  ends in unless it ends properly.
\<close>

record upstream_response =
  up_response :: response
  up_broken :: "go_error option"

record upstream =
  backend_path :: string
  strip_hop_headers :: "http_header \<Rightarrow> http_header"
  round_trip :: "request \<Rightarrow> go_error + upstream_response"

text \<open>What the caller gets: a relayed response, an \<^verbatim>\<open>http.Error\<close>, or nothing at all.\<close>

datatype reply =
    Relayed response
  | Http_Error nat string
  | No_Reply

definition StatusOK :: nat where "StatusOK = 200"
definition StatusUnauthorized :: nat where "StatusUnauthorized = 401"
definition StatusInternalServerError :: nat where "StatusInternalServerError = 500"
definition StatusBadGateway :: nat where "StatusBadGateway = 502"

section \<open>Construction and rewriting\<close>

definition NewProxy :: "string \<Rightarrow> bool \<Rightarrow> string \<Rightarrow> 64 word \<Rightarrow> bool \<Rightarrow> proxy" where
  "NewProxy prefix both identityPrefix limit notify =
    \<lparr>requireBoth = both, apiPrefix = prefix, px_headers = NewHeaders identityPrefix,
     maxResponse = limit, notifyEmptyScope = notify\<rparr>"

text \<open>
  \<^verbatim>\<open>ProxyRequest.SetURL\<close> joins the two paths with a single slash. A request is carried by its decoded
  path, which is what the handler and the filters look at; the escaped form \<^verbatim>\<open>SetURL\<close> joins beside it
  reaches only the backend.
\<close>

definition join_path :: "string \<Rightarrow> string \<Rightarrow> string" where
  "join_path a b =
    (if has_suffix a ''/'' \<and> has_prefix b ''/'' then a @ drop 1 b
     else if \<not> has_suffix a ''/'' \<and> \<not> has_prefix b ''/'' then a @ ''/'' @ b
     else a @ b)"

definition Rewrite :: "upstream \<Rightarrow> request \<Rightarrow> request" where
  "Rewrite up r = r\<lparr>rq_path := join_path (backend_path up) (rq_path r),
     rq_header := header_set ''Accept-Encoding'' ''identity'' (strip_hop_headers up (rq_header r))\<rparr>"

section \<open>Failures\<close>

definition clientGone :: "go_error \<Rightarrow> bool" where
  "clientGone err \<longleftrightarrow> errors_is err Context_Canceled \<or> errors_is err Err_Abort_Handler"

definition count_request :: "string \<Rightarrow> string \<Rightarrow> 'a go_state_scheme \<Rightarrow> 'a go_state_scheme" where
  "count_request route outcome s =
    observe (\<lambda>m. m\<lparr>RequestsTotal := vec_inc [route, outcome] (RequestsTotal m)\<rparr>) s"

text \<open>The path is the one of the outgoing request, after \<open>Rewrite\<close>.\<close>

definition ErrorHandler ::
  "proxy \<Rightarrow> request \<Rightarrow> go_error \<Rightarrow> 'a go_state_scheme \<Rightarrow> reply \<times> 'a go_state_scheme" where
  "ErrorHandler p r err s =
    (let route = knownRoute (trim_prefix (rq_path r) (apiPrefix p))
     in if clientGone err then (No_Reply, count_request route OutcomeClientGone s)
        else if errors_is err Err_Response_Too_Large then
          (Http_Error StatusBadGateway ''response too large'',
           count_request route OutcomeResponseTooLarge s)
        else
          (Http_Error StatusBadGateway ''bad gateway'', count_request route OutcomeUpstreamError s))"

section \<open>Filtering a response\<close>

text \<open>\<^verbatim>\<open>strconv.Itoa\<close> on a length.\<close>

fun itoa :: "nat \<Rightarrow> string" where
  "itoa n = (if n < 10 then [char_of (48 + n)] else itoa (n div 10) @ [char_of (48 + n mod 10)])"

declare itoa.simps [simp del]

text \<open>
  \<^verbatim>\<open>io.ReadAll(io.LimitReader(body, n))\<close> with a signed 64-bit limit: a limit that is not
  positive reads nothing; the connection's error is met only if the body ends before the limit,
  since it comes from the read after the last byte that arrived.
\<close>

definition read_limited :: "64 word \<Rightarrow> upstream_response \<Rightarrow> go_error + bytes" where
  "read_limited n up =
    (let body = rs_body (up_response up)
     in if sint n \<le> 0 then Inr []
        else if int (length body) < sint n then
          (case up_broken up of Some e \<Rightarrow> Inl e | None \<Rightarrow> Inr body)
        else Inr (take (nat (sint n)) body))"

text \<open>
  \<open>Inr None\<close> leaves the response as it is, \<open>Inr (Some r)\<close> replaces it.
\<close>

definition filterResponse ::
  "codec \<Rightarrow> proxy \<Rightarrow> request \<Rightarrow> reqInfo option \<Rightarrow> upstream_response \<Rightarrow> ('az, 'b) reg_state_scheme
   \<Rightarrow> (go_error + response option) \<times> ('az, 'b) reg_state_scheme" where
  "filterResponse cd p r ctx up s =
    (case ctx of
       None \<Rightarrow> (Inl (Plain ''no reqInfo on request context''), s)
     | Some info \<Rightarrow>
         if \<not> filtered info then (Inr None, s)
         else if sc_all (ri_scope info) then (Inr None, s)
         else if status (up_response up) \<noteq> StatusOK then (Inr None, s)
         else
           let contentType = header_get (rs_header (up_response up)) ''Content-Type'';
               isJSON = has_prefix contentType ''application/json''
           in if \<not> isJSON \<and> \<not> has_prefix contentType ''application/octet-stream'' then
                (Inl (Plain (''unexpected content-type from backend: '' @ contentType)), s)
              else
                (case read_limited (maxResponse p + 1) up of
                   Inl e \<Rightarrow> (Inl e, s)
                 | Inr raw \<Rightarrow>
                     if sint (maxResponse p) < int (length raw) then
                       (Inl (Wrapped (rq_path r) Err_Response_Too_Large), s)
                     else
                       (case decodeEnvelope cd raw isJSON of
                          Inl e \<Rightarrow> (Inl e, s)
                        | Inr msg \<Rightarrow>
                            (case filterBody cd p (message_route msg) (message_channel msg)
                                    (message_content msg) (ri_scope info) (ri_id info) s of
                               (Inl e, s) \<Rightarrow> (Inl e, s)
                             | (Inr body, s) \<Rightarrow>
                                 let msg = msg\<lparr>msg_body :=
                                       map_option (\<lambda>b. b\<lparr>content := body\<rparr>) (msg_body msg)\<rparr>
                                 in (case encodeEnvelope cd msg isJSON of
                                       Inl e \<Rightarrow> (Inl e, s)
                                     | Inr out \<Rightarrow>
                                         (Inr (Some ((up_response up)\<lparr>rs_body := out,
                                            content_length := int (length out),
                                            rs_header := header_set ''Content-Length'' (itoa (length out))
                                              (rs_header (up_response up))\<rparr>)), s))))))"

text \<open>
  \<^verbatim>\<open>ReverseProxy.ServeHTTP\<close> around it. \<open>ctx\<close> is the value stored in the request's context,
  which the outgoing request inherits.
\<close>

definition rp_ServeHTTP ::
  "codec \<Rightarrow> proxy \<Rightarrow> upstream \<Rightarrow> reqInfo option \<Rightarrow> request \<Rightarrow> ('az, 'b) reg_state_scheme
   \<Rightarrow> reply \<times> ('az, 'b) reg_state_scheme" where
  "rp_ServeHTTP cd p up ctx r s =
    (let out = Rewrite up r
     in case round_trip up out of
          Inl e \<Rightarrow> ErrorHandler p out e s
        | Inr resp \<Rightarrow>
            (case filterResponse cd p out ctx resp s of
               (Inl e, s) \<Rightarrow> ErrorHandler p out e s
             | (Inr None, s) \<Rightarrow> (Relayed (up_response resp), s)
             | (Inr (Some resp'), s) \<Rightarrow> (Relayed resp', s)))"

section \<open>The handler\<close>

definition observe_duration :: "string \<Rightarrow> 'a go_state_scheme \<Rightarrow> 'a go_state_scheme" where
  "observe_duration route s =
    observe (\<lambda>m. m\<lparr>RequestDuration := vec_inc [route] (RequestDuration m)\<rparr>) s"

definition ServeHTTP ::
  "(identity \<Rightarrow> ('az, 'b) reg_state_scheme \<Rightarrow> (go_error + scope) \<times> ('az, 'b) reg_state_scheme)
   \<Rightarrow> codec \<Rightarrow> proxy \<Rightarrow> upstream \<Rightarrow> request \<Rightarrow> ('az, 'b) reg_state_scheme
   \<Rightarrow> reply \<times> ('az, 'b) reg_state_scheme" where
  "ServeHTTP allowed cd p up r s =
    (if \<not> has_prefix (rq_path r) (apiPrefix p) then
       rp_ServeHTTP cd p up
         (Some \<lparr>filtered = False, ri_scope = empty_scope,
                ri_id = \<lparr>id_user = [], id_email = [], id_groups = []\<rparr>\<rparr>) r
         (count_request RouteNone OutcomePassthrough s)
     else
       let route = knownRoute (trim_prefix (rq_path r) (apiPrefix p));
           s = observe (\<lambda>m. m\<lparr>RequestDuration := with_label_values [route] (RequestDuration m)\<rparr>) s;
           (reply, s) =
             (case From (px_headers p) (rq_header r) of
                Inl e \<Rightarrow>
                  (Http_Error StatusUnauthorized ''unauthenticated'',
                   count_request route OutcomeUnauthenticated s)
              | Inr i \<Rightarrow>
                  (case allowed i s of
                     (Inl e, s) \<Rightarrow>
                       let s = count_request route OutcomeAuthzError s
                       in if clientGone e then (No_Reply, s)
                          else (Http_Error StatusInternalServerError
                                  ''authorization backend unavailable'', s)
                   | (Inr sc, s) \<Rightarrow>
                       rp_ServeHTTP cd p up
                         (Some \<lparr>filtered = True, ri_scope = sc, ri_id = i\<rparr>) r
                         (count_request route OutcomeFiltered s)))
       in (reply, observe_duration route s))"

end
