(* ===== verification/Filter_Steps.thy ===== *)
theory Filter_Steps
  imports Proxy_Handler
begin

text \<open>
  The response filter cut at its calls into the registry. \<^verbatim>\<open>filterResponse\<close> (\<^verbatim>\<open>internal/proxy/proxy.go\<close>)
  and the two filters of \<^verbatim>\<open>internal/proxy/uifilter.go\<close> take the registry's mutex once per
  \<^verbatim>\<open>Remember\<close>, \<^verbatim>\<open>Lookup\<close>, \<^verbatim>\<open>RememberPeer\<close>, \<^verbatim>\<open>IsPeer\<close> and \<^verbatim>\<open>MarkEmptyScopeNotified\<close>; between two of these
  calls other requests run. A step here is at most one such call, with the pure code up to the next
  one. That the steps in a row are the filter is proved at the end.
\<close>

section \<open>Where a filter is\<close>

text \<open>
  The control stream: about to pick the namespaces, about to ask whether a notice is due. The
  service map: the events still to learn from, the events still to look for peers in (before the
  first and before the second lookup of a link, and before recording a peer), and the events still
  to judge with those kept so far.
\<close>

datatype stage =
    Picking control_response namespace_states
  | Noticing control_response namespace_states "namespace_state list"
  | Learning events_response "ui_event list"
  | Pairing events_response "ui_event list"
  | Pairing_Destination events_response "ui_event list" service_link "string option"
  | Peering events_response "ui_event list" service_link string string
  | Keeping events_response "ui_event list" "ui_event list"
  | Keeping_Destination events_response "ui_event list" "ui_event list" ui_event "string option"
  | Filtered "go_error + bytes"

definition open_body :: "codec \<Rightarrow> string \<Rightarrow> bytes \<Rightarrow> stage" where
  "open_body cd route body =
    (if body = [] then Filtered (Inr body)
     else if route = routeControlStream then
       (case unmarshal_control cd body of
          Inl e \<Rightarrow> Filtered (Inl (Wrapped ''unmarshal GetControlStreamResponse'' e))
        | Inr resp \<Rightarrow>
            (case control_namespaces resp of
               None \<Rightarrow> Filtered (Inr body) | Some states \<Rightarrow> Picking resp states))
     else if route = routeServiceMapStre then
       (case unmarshal_events cd body of
          Inl e \<Rightarrow> Filtered (Inl (Wrapped ''unmarshal GetEventsResponse'' e))
        | Inr resp \<Rightarrow> Learning resp (er_events resp))
     else Filtered (Inl (Wrapped route Err_Unknown_Route)))"

text \<open>The decision on an event is counted and the event kept or dropped.\<close>

definition decide ::
  "events_response \<Rightarrow> ui_event list \<Rightarrow> ui_event list \<Rightarrow> ui_event \<Rightarrow> ui_event option
   \<Rightarrow> 'a go_state_scheme \<Rightarrow> stage \<times> 'a go_state_scheme" where
  "decide resp evs kept ev decision s =
    (case decision of
       Some e \<Rightarrow> (Keeping resp evs (kept @ [e]), count_event (eventKind ev) ''kept'' s)
     | None \<Rightarrow> (Keeping resp evs kept, count_event (eventKind ev) ''dropped'' s))"

fun work ::
  "codec \<Rightarrow> proxy \<Rightarrow> string \<Rightarrow> scope \<Rightarrow> identity \<Rightarrow> stage \<Rightarrow> ('az, 'b) reg_state_scheme
   \<Rightarrow> stage \<times> ('az, 'b) reg_state_scheme" where
  "work cd p c sc i (Picking resp states) s =
    (let (kept, s) = keep_namespaces sc (nss_namespaces states) s
     in if notifyEmptyScope p \<and> length (sc_namespaces sc) = 0 then (Noticing resp states kept, s)
        else (Filtered (marshal_control cd (resp\<lparr>cr_case :=
                Some (Control_Namespaces (Some (states\<lparr>nss_namespaces := kept\<rparr>)))\<rparr>)), s))"
| "work cd p c sc i (Noticing resp states kept) s =
    (let (notice, s) = MarkEmptyScopeNotified c s
     in if notice then
          (Filtered (marshal_control cd (noPermissionResponse i)),
           observe (\<lambda>m. m\<lparr>EmptyScopeNotifications := Suc (EmptyScopeNotifications m)\<rparr>) s)
        else
          (Filtered (marshal_control cd (resp\<lparr>cr_case :=
             Some (Control_Namespaces (Some (states\<lparr>nss_namespaces := kept\<rparr>)))\<rparr>)), s))"
| "work cd p c sc i (Learning resp (ev # evs)) s =
    (Learning resp evs,
     (case event_service ev of None \<Rightarrow> s | Some svc \<Rightarrow> Remember c (sv_id svc) (sv_namespace svc) s))"
| "work cd p c sc i (Learning resp []) s =
    (if requireBoth p then Keeping resp (er_events resp) [] else Pairing resp (er_events resp), s)"
| "work cd p c sc i (Pairing resp (ev # evs)) s =
    (case event_link ev of
       None \<Rightarrow> (Pairing resp evs, s)
     | Some link \<Rightarrow>
         let (srcNS, s) = Lookup c (sl_source_id link) s
         in (Pairing_Destination resp evs link srcNS, s))"
| "work cd p c sc i (Pairing resp []) s = (Keeping resp (er_events resp) [], s)"
| "work cd p c sc i (Pairing_Destination resp evs link srcNS) s =
    (let (dstNS, s) = Lookup c (sl_destination_id link) s
     in case (srcNS, dstNS) of
          (Some srcNS, Some dstNS) \<Rightarrow> (Peering resp evs link srcNS dstNS, s)
        | _ \<Rightarrow> (Pairing resp evs, s))"
| "work cd p c sc i (Peering resp evs link srcNS dstNS) s =
    (Pairing resp evs,
     if get_bool (sc_namespaces sc) srcNS \<and> \<not> get_bool (sc_namespaces sc) dstNS
     then RememberPeer c (sl_destination_id link) s
     else if get_bool (sc_namespaces sc) dstNS \<and> \<not> get_bool (sc_namespaces sc) srcNS
     then RememberPeer c (sl_source_id link) s
     else s)"
| "work cd p c sc i (Keeping resp (ev # evs) kept) s =
    (case ev_case ev of
       Some (Event_ServiceLinkState st) \<Rightarrow>
         let (srcNS, s) = Lookup c (link_source (state_link st)) s
         in (Keeping_Destination resp evs kept ev srcNS, s)
     | _ \<Rightarrow> let (decision, s) = eventVisible p c ev sc s in decide resp evs kept ev decision s)"
| "work cd p c sc i (Keeping resp [] kept) s =
    (Filtered (marshal_events cd (resp\<lparr>er_events := kept\<rparr>)), s)"
| "work cd p c sc i (Keeping_Destination resp evs kept ev srcNS) s =
    (let link = (case ev_case ev of Some (Event_ServiceLinkState st) \<Rightarrow> state_link st | _ \<Rightarrow> None);
         (dstNS, s) = Lookup c (link_destination link) s
     in decide resp evs kept ev
          (case (srcNS, dstNS) of
             (Some srcNS, Some dstNS) \<Rightarrow>
               if namespacePairVisible srcNS dstNS (sc_namespaces sc) (requireBoth p) then Some ev else None
           | _ \<Rightarrow> None) s)"
| "work cd p c sc i (Filtered r) s = (Filtered r, s)"

section \<open>The response around it\<close>

datatype handling =
    Handling message stage
  | Handled "go_error + response option"

text \<open>Everything \<^verbatim>\<open>filterResponse\<close> does before it looks at the body, none of which changes state.\<close>

definition open_response ::
  "codec \<Rightarrow> proxy \<Rightarrow> request \<Rightarrow> reqInfo option \<Rightarrow> upstream_response \<Rightarrow> handling" where
  "open_response cd p r ctx up =
    (case ctx of
       None \<Rightarrow> Handled (Inl (Plain ''no reqInfo on request context''))
     | Some info \<Rightarrow>
         if \<not> filtered info then Handled (Inr None)
         else if sc_all (ri_scope info) then Handled (Inr None)
         else if status (up_response up) \<noteq> StatusOK then Handled (Inr None)
         else
           let contentType = header_get (rs_header (up_response up)) ''Content-Type'';
               isJSON = has_prefix contentType ''application/json''
           in if \<not> isJSON \<and> \<not> has_prefix contentType ''application/octet-stream'' then
                Handled (Inl (Plain (''unexpected content-type from backend: '' @ contentType)))
              else
                (case read_limited (maxResponse p + 1) up of
                   Inl e \<Rightarrow> Handled (Inl e)
                 | Inr raw \<Rightarrow>
                     if sint (maxResponse p) < int (length raw) then
                       Handled (Inl (Wrapped (rq_path r) Err_Response_Too_Large))
                     else
                       (case decodeEnvelope cd raw isJSON of
                          Inl e \<Rightarrow> Handled (Inl e)
                        | Inr msg \<Rightarrow>
                            Handling msg (open_body cd (message_route msg) (message_content msg)))))"

text \<open>What it does with the filtered body.\<close>

definition close_response ::
  "codec \<Rightarrow> upstream_response \<Rightarrow> message \<Rightarrow> go_error + bytes \<Rightarrow> go_error + response option" where
  "close_response cd up msg r =
    (case r of
       Inl e \<Rightarrow> Inl e
     | Inr body \<Rightarrow>
         let isJSON = has_prefix (header_get (rs_header (up_response up)) ''Content-Type'') ''application/json'';
             msg = msg\<lparr>msg_body := map_option (\<lambda>b. b\<lparr>content := body\<rparr>) (msg_body msg)\<rparr>
         in (case encodeEnvelope cd msg isJSON of
               Inl e \<Rightarrow> Inl e
             | Inr out \<Rightarrow>
                 Inr (Some ((up_response up)\<lparr>rs_body := out, content_length := int (length out),
                   rs_header := header_set ''Content-Length'' (itoa (length out))
                     (rs_header (up_response up))\<rparr>))))"

fun handle_step ::
  "codec \<Rightarrow> proxy \<Rightarrow> reqInfo \<Rightarrow> upstream_response \<Rightarrow> handling \<Rightarrow> ('az, 'b) reg_state_scheme
   \<Rightarrow> handling \<times> ('az, 'b) reg_state_scheme" where
  "handle_step cd p info up (Handling msg (Filtered r)) s = (Handled (close_response cd up msg r), s)"
| "handle_step cd p info up (Handling msg st) s =
    (let (st, s) = work cd p (message_channel msg) (ri_scope info) (ri_id info) st s
     in (Handling msg st, s))"
| "handle_step cd p info up (Handled res) s = (Handled res, s)"

section \<open>A filter run to its end\<close>

fun steps_to_go :: "stage \<Rightarrow> nat" where
  "steps_to_go (Picking resp states) = 2"
| "steps_to_go (Noticing resp states kept) = 1"
| "steps_to_go (Learning resp evs) = length evs + 5 * length (er_events resp) + 3"
| "steps_to_go (Pairing resp evs) = 3 * length evs + 2 * length (er_events resp) + 2"
| "steps_to_go (Pairing_Destination resp evs link a) = 3 * length evs + 2 * length (er_events resp) + 4"
| "steps_to_go (Peering resp evs link a b) = 3 * length evs + 2 * length (er_events resp) + 3"
| "steps_to_go (Keeping resp evs kept) = 2 * length evs + 1"
| "steps_to_go (Keeping_Destination resp evs kept ev a) = 2 * length evs + 2"
| "steps_to_go (Filtered r) = 0"

lemma steps_to_go_decide: "steps_to_go (fst (decide resp evs kept ev d s)) = 2 * length evs + 1"
  by (simp add: decide_def split: option.split)

lemma steps_to_go_0: "steps_to_go st = 0 \<longleftrightarrow> (\<exists>r. st = Filtered r)"
  by (cases st) auto

lemma work_progress:
  "steps_to_go st \<noteq> 0 \<Longrightarrow> steps_to_go (fst (work cd p c sc i st s)) < steps_to_go st"
  by (induction cd p c sc i st s rule: work.induct)
    (auto simp: Let_def steps_to_go_decide split: prod.split option.split event_case.split)

function conclude ::
  "codec \<Rightarrow> proxy \<Rightarrow> string \<Rightarrow> scope \<Rightarrow> identity \<Rightarrow> stage \<Rightarrow> ('az, 'b) reg_state_scheme
   \<Rightarrow> (go_error + bytes) \<times> ('az, 'b) reg_state_scheme" where
  "conclude cd p c sc i st s =
    (case st of
       Filtered r \<Rightarrow> (r, s)
     | _ \<Rightarrow> let x = work cd p c sc i st s in conclude cd p c sc i (fst x) (snd x))"
  by pat_completeness auto
termination
  apply (relation "measure (\<lambda>(cd, p, c, sc, i, st, s). steps_to_go st)")
  apply simp
  apply (simp only: in_measure case_prod_conv, hypsubst, rule work_progress, simp)+
  done

declare conclude.simps [simp del]

lemma conclude_Filtered [simp]: "conclude cd p c sc i (Filtered r) s = (r, s)"
  by (simp add: conclude.simps)

lemma conclude_eq:
  "steps_to_go st \<noteq> 0 \<Longrightarrow> conclude cd p c sc i st s =
    conclude cd p c sc i (fst (work cd p c sc i st s)) (snd (work cd p c sc i st s))"
  by (subst conclude.simps) (cases st; simp add: Let_def del: work.simps)

end
