(* ===== verification/Ui_Filter_Laws.thy ===== *)
theory Ui_Filter_Laws
  imports Ui_Filter
begin

text \<open>
  What the filters of \<open>Ui_Filter\<close> compute, stated without the registry: the memory a batch is
  judged with, the events admitted by that memory, and the simulation between the two. The
  registry enters through the interface \<open>service_memory\<close> only.
\<close>

section \<open>The rule as sets\<close>

definition scope_set :: "scope \<Rightarrow> string set" where
  "scope_set sc = {n. in_scope sc n}"

definition pair_admitted :: "bool \<Rightarrow> string set \<Rightarrow> string \<Rightarrow> string \<Rightarrow> bool" where
  "pair_admitted both S a b \<longleftrightarrow>
     S \<inter> ({a, b} - {[]}) \<noteq> {} \<and> (both \<longrightarrow> {a, b} \<subseteq> insert [] S)"

lemma namespacePairVisible_admitted:
  "namespacePairVisible a b (sc_namespaces sc) both \<longleftrightarrow> pair_admitted both (scope_set sc) a b"
  by (auto simp: namespacePairVisible_def pair_admitted_def scope_set_def Let_def)

lemma flowVisible_admitted:
  "flowVisible f (sc_namespaces sc) both
     \<longleftrightarrow> pair_admitted both (scope_set sc) (source_namespace f) (destination_namespace f)"
  by (simp add: flowVisible_def namespacePairVisible_admitted)

section \<open>The memory a batch is judged with\<close>

definition announcements :: "ui_event list \<Rightarrow> (string \<times> string) list" where
  "announcements evs = map (\<lambda>v. (sv_id v, sv_namespace v)) (List.map_filter event_service evs)"

definition makes_peer ::
  "(string \<Rightarrow> string option) \<Rightarrow> string set \<Rightarrow> service_link \<Rightarrow> string \<Rightarrow> bool" where
  "makes_peer K S link v \<longleftrightarrow>
     (\<exists>a b. K (sl_source_id link) = Some a \<and> K (sl_destination_id link) = Some b
        \<and> (a \<in> S \<and> b \<notin> S \<and> v = sl_destination_id link \<or> b \<in> S \<and> a \<notin> S \<and> v = sl_source_id link))"

definition linked_peer ::
  "(string \<Rightarrow> string option) \<Rightarrow> string set \<Rightarrow> ui_event list \<Rightarrow> string \<Rightarrow> bool" where
  "linked_peer K S evs v \<longleftrightarrow> (\<exists>link \<in> set (List.map_filter event_link evs). makes_peer K S link v)"

section \<open>What the filter leaves alone\<close>

text \<open>
  \<open>same_memory c\<close> relates two states whose registries answer alike on channel \<open>c\<close>, whose other
  channels are untouched or dropped, and which agree on everything a request filter has no
  business with.
\<close>

definition filter_frame :: "('az, 'b) reg_state_scheme \<Rightarrow> ('az, 'b) reg_state_scheme \<Rightarrow> bool" where
  "filter_frame s s' \<longleftrightarrow>
     auth s' = auth s \<and> reg_state.more s' = reg_state.more s
     \<and> reg_ttl (services s') = reg_ttl (services s)
     \<and> max_channels (services s') = max_channels (services s)
     \<and> RequestsTotal (met s') = RequestsTotal (met s)
     \<and> RequestDuration (met s') = RequestDuration (met s)
     \<and> now_at (rt s') = now_at (rt s) \<and> ticks (rt s) \<le> ticks (rt s')"

definition on_channel :: "string \<Rightarrow> ('az, 'b) reg_state_scheme \<Rightarrow> ('az, 'b) reg_state_scheme \<Rightarrow> bool" where
  "on_channel c s s' \<longleftrightarrow> reg_ok s' \<and> others_kept c s s' \<and> filter_frame s s'"

definition same_memory :: "string \<Rightarrow> ('az, 'b) reg_state_scheme \<Rightarrow> ('az, 'b) reg_state_scheme \<Rightarrow> bool" where
  "same_memory c s s' \<longleftrightarrow> on_channel c s s' \<and> known s' c = known s c \<and> peers s' c = peers s c"

lemma filter_frame_refl [simp]: "filter_frame s s"
  by (simp add: filter_frame_def)

lemma filter_frame_trans: "filter_frame s s1 \<Longrightarrow> filter_frame s1 s2 \<Longrightarrow> filter_frame s s2"
  by (simp add: filter_frame_def)

lemma reg_frame_filter: "reg_frame s s' \<Longrightarrow> filter_frame s s'"
  using reg_frame_fields [of s s'] by (simp add: filter_frame_def)

lemma on_channel_refl [simp]: "on_channel c s s \<longleftrightarrow> reg_ok s"
  by (simp add: on_channel_def)

lemma on_channel_trans: "on_channel c s s1 \<Longrightarrow> on_channel c s1 s2 \<Longrightarrow> on_channel c s s2"
  unfolding on_channel_def using others_kept_trans filter_frame_trans by metis

lemma same_memory_refl [simp]: "same_memory c s s \<longleftrightarrow> reg_ok s"
  by (simp add: same_memory_def)

lemma same_memory_trans: "same_memory c s s1 \<Longrightarrow> same_memory c s1 s2 \<Longrightarrow> same_memory c s s2"
  unfolding same_memory_def using on_channel_trans by metis

lemma view_observe [simp]: "view (observe f s) = view s"
  by (simp add: fun_eq_iff view_def)

lemma known_observe [simp]: "known (observe f s) = known s"
  and peers_observe [simp]: "peers (observe f s) = peers s"
  by (simp_all add: fun_eq_iff known_def peers_def)

lemma same_memory_count [simp]:
  "same_memory c s (count_event k d s') \<longleftrightarrow> same_memory c s s'"
  by (auto simp: same_memory_def on_channel_def count_event_def reg_ok_def others_kept_def
      filter_frame_def)

lemma Lookup_same:
  assumes "reg_ok s" and "Lookup c v s = (a, s')"
  shows "a = known s c v" and "same_memory c s s'" and "EventsTotal (met s') = EventsTotal (met s)"
  using Lookup_spec [OF assms] Lookup_known [OF assms(1), of c v] assms(2) reg_frame_fields(5)
  by (auto simp: same_memory_def on_channel_def reg_frame_filter)

lemma Lookup_twice:
  assumes "reg_ok s" and "Lookup c v s = (a, s1)" and "Lookup c w s1 = (b, s2)"
  shows "a = known s c v" and "b = known s c w" and "same_memory c s s2"
    and "EventsTotal (met s2) = EventsTotal (met s)"
proof -
  note first = Lookup_same [OF assms(1,2)]
  then have ok: "reg_ok s1" by (simp add: same_memory_def on_channel_def)
  note second = Lookup_same [OF ok assms(3)]
  show "a = known s c v" by (rule first(1))
  show "b = known s c w" using first(2) second(1) by (simp add: same_memory_def)
  show "same_memory c s s2" using first(2) second(2) by (rule same_memory_trans)
  show "EventsTotal (met s2) = EventsTotal (met s)" using first(3) second(3) by simp
qed


section \<open>Learning peers, against the interface\<close>

definition peer_of :: "(string \<Rightarrow> string option) \<Rightarrow> (string \<Rightarrow> bool) \<Rightarrow> string \<times> string \<Rightarrow> string \<Rightarrow> bool"
where
  "peer_of K inside link v \<longleftrightarrow>
     (\<exists>a b. K (fst link) = Some a \<and> K (snd link) = Some b
        \<and> (inside a \<and> \<not> inside b \<and> v = snd link \<or> inside b \<and> \<not> inside a \<and> v = fst link))"

context service_memory begin

definition note_link :: "(string \<Rightarrow> bool) \<Rightarrow> string \<Rightarrow> string \<times> string \<Rightarrow> 's \<Rightarrow> 's" where
  "note_link inside c link s =
    (let (a, s) = lookup c (fst link) s; (b, s) = lookup c (snd link) s
     in case (a, b) of
          (Some a, Some b) \<Rightarrow>
            let s = (if inside a \<and> \<not> inside b then remember_peer c (snd link) s else s)
            in if inside b \<and> \<not> inside a then remember_peer c (fst link) s else s
        | _ \<Rightarrow> s)"

lemma note_link_spec:
  assumes "ok s"
  shows "ok (note_link inside c link s) \<and> knows (note_link inside c link s) c = knows s c
    \<and> linked (note_link inside c link s) c = (\<lambda>v. linked s c v
        \<or> c \<noteq> [] \<and> v \<noteq> [] \<and> peer_of (knows s c) inside link v)"
proof -
  obtain a s1 where l1: "lookup c (fst link) s = (a, s1)" by fastforce
  obtain b s2 where l2: "lookup c (snd link) s1 = (b, s2)" by fastforce
  from assms l1 have s1: "a = knows s c (fst link)" "ok s1" "knows s1 c = knows s c"
      "linked s1 c = linked s c"
    using lookup_result lookup_ok lookup_knows lookup_linked by (metis fst_conv snd_conv)+
  from s1(2) l2 have s2: "b = knows s1 c (snd link)" "ok s2" "knows s2 c = knows s1 c"
      "linked s2 c = linked s1 c"
    using lookup_result lookup_ok lookup_knows lookup_linked by (metis fst_conv snd_conv)+
  show ?thesis
  proof (cases "a = None \<or> b = None")
    case True
    with l1 l2 have "note_link inside c link s = s2"
      by (auto simp: note_link_def split: option.split)
    with True s1 s2 show ?thesis by (auto simp: peer_of_def)
  next
    case False
    then obtain x y where xy: "a = Some x" "b = Some y" by auto
    with l1 l2 have unfold: "note_link inside c link s =
        (let s = (if inside x \<and> \<not> inside y then remember_peer c (snd link) s2 else s2)
         in if inside y \<and> \<not> inside x then remember_peer c (fst link) s else s)"
      by (simp add: note_link_def)
    have "peer_of (knows s c) inside link v \<longleftrightarrow>
        inside x \<and> \<not> inside y \<and> v = snd link \<or> inside y \<and> \<not> inside x \<and> v = fst link" for v
      using xy s1 s2 by (auto simp: peer_of_def)
    with s1 s2 show ?thesis
      unfolding unfold by (auto simp: peer_ok peer_knows peer_linked fun_eq_iff)
  qed
qed

lemma note_links_spec:
  "ok s \<Longrightarrow> ok (fold (note_link inside c) links s)
     \<and> knows (fold (note_link inside c) links s) c = knows s c
     \<and> linked (fold (note_link inside c) links s) c = (\<lambda>v. linked s c v
         \<or> c \<noteq> [] \<and> v \<noteq> [] \<and> (\<exists>l \<in> set links. peer_of (knows s c) inside l v))"
proof (induction links arbitrary: s)
  case (Cons l links)
  from note_link_spec [OF Cons.prems, of inside c l] Cons.IH [of "note_link inside c l s"]
  show ?case by (auto simp: fun_eq_iff)
qed simp

end

section \<open>The two learning passes\<close>

definition link_ids :: "service_link \<Rightarrow> string \<times> string" where
  "link_ids link = (sl_source_id link, sl_destination_id link)"

definition batch_links :: "ui_event list \<Rightarrow> (string \<times> string) list" where
  "batch_links evs = map link_ids (List.map_filter event_link evs)"

lemma linked_peer_links:
  "linked_peer K S evs v \<longleftrightarrow> (\<exists>l \<in> set (batch_links evs). peer_of K (\<lambda>n. n \<in> S) l v)"
  by (simp add: linked_peer_def batch_links_def makes_peer_def peer_of_def link_ids_def)

lemma learn_services_learn: "learn_services c evs s = mem.learn c (announcements evs) s"
  by (induction c evs s rule: learn_services.induct)
    (auto simp: mem.learn_def announcements_def List.map_filter_def split: option.split)

lemma learn_peers_note:
  "learn_peers c sc evs s = fold (mem.note_link (in_scope sc) c) (batch_links evs) s"
  by (induction c sc evs s rule: learn_peers.induct)
    (auto simp: batch_links_def link_ids_def List.map_filter_def mem.note_link_def Let_def
      split: option.split prod.split)


lemma on_channel_Remember: "reg_ok s \<Longrightarrow> on_channel c s (Remember c v n s)"
  by (cases "c = [] \<or> v = []")
    (auto simp: Remember_spec on_channel_def reg_frame_filter, auto simp: Remember_def)

lemma on_channel_RememberPeer: "reg_ok s \<Longrightarrow> on_channel c s (RememberPeer c v s)"
  by (cases "c = [] \<or> v = []")
    (auto simp: RememberPeer_spec on_channel_def reg_frame_filter, auto simp: RememberPeer_def)

lemma learn_services_on_channel: "reg_ok s \<Longrightarrow> on_channel c s (learn_services c evs s)"
proof (induction c evs s rule: learn_services.induct)
  case (2 c ev evs s)
  then show ?case
    using on_channel_trans [OF on_channel_Remember [OF "2.prems"]] ok_Remember [OF "2.prems"]
    by (auto split: option.split)
qed simp

lemma learn_peers_on_channel: "reg_ok s \<Longrightarrow> on_channel c s (learn_peers c sc evs s)"
proof (induction evs arbitrary: s)
  case (Cons ev evs)
  show ?case
  proof (cases "event_link ev")
    case None
    with Cons show ?thesis by simp
  next
    case (Some link)
    obtain a s1 where l1: "Lookup c (sl_source_id link) s = (a, s1)" by fastforce
    obtain b s2 where l2: "Lookup c (sl_destination_id link) s1 = (b, s2)" by fastforce
    from Lookup_twice(3) [OF Cons.prems l1 l2] have s2: "on_channel c s s2" "reg_ok s2"
      by (simp_all add: same_memory_def on_channel_def)
    note step = on_channel_trans [OF s2(1)]
    have peer: "on_channel c s s3 \<Longrightarrow> reg_ok s3 \<Longrightarrow>
        on_channel c s (RememberPeer c v s3) \<and> reg_ok (RememberPeer c v s3)" for s3 v
      using on_channel_RememberPeer on_channel_trans ok_RememberPeer by metis
    have tail: "on_channel c s s3 \<Longrightarrow> reg_ok s3 \<Longrightarrow> on_channel c s (learn_peers c sc evs s3)" for s3
      using Cons.IH on_channel_trans by metis
    show ?thesis
      using Some l1 l2 s2 by (auto simp: Let_def intro!: tail peer [THEN conjunct1] peer [THEN conjunct2]
          split: option.split)
  qed
qed simp

text \<open>
  After the two passes the channel holds the announcements of the batch over what it held, and
  the peers of the services in scope.
\<close>

definition batch_known ::
  "string \<Rightarrow> ui_event list \<Rightarrow> (string \<Rightarrow> string option) \<Rightarrow> string \<Rightarrow> string option" where
  "batch_known c evs K = (if c = [] then K else mem.overlay (announcements evs) K)"

definition batch_peers ::
  "proxy \<Rightarrow> string \<Rightarrow> string set \<Rightarrow> ui_event list \<Rightarrow> (string \<Rightarrow> string option)
   \<Rightarrow> (string \<Rightarrow> bool) \<Rightarrow> string \<Rightarrow> bool" where
  "batch_peers p c S evs K P v \<longleftrightarrow>
     P v \<or> \<not> requireBoth p \<and> c \<noteq> [] \<and> v \<noteq> [] \<and> linked_peer K S evs v"

definition learned ::
  "proxy \<Rightarrow> string \<Rightarrow> scope \<Rightarrow> ui_event list \<Rightarrow> ('az, 'b) reg_state_scheme \<Rightarrow> ('az, 'b) reg_state_scheme"
where
  "learned p c sc evs s =
    (let s = learn_services c evs s in if requireBoth p then s else learn_peers c sc evs s)"

lemma learned_spec:
  assumes "reg_ok s"
  shows "on_channel c s (learned p c sc evs s)"
    and "known (learned p c sc evs s) c = batch_known c evs (known s c)"
    and "peers (learned p c sc evs s) c =
      batch_peers p c (scope_set sc) evs (batch_known c evs (known s c)) (peers s c)"
proof -
  let ?s1 = "learn_services c evs s"
  from mem.learn_spec [OF assms, of c "announcements evs"]
  have s1: "reg_ok ?s1" "peers ?s1 c = peers s c" "known ?s1 c = batch_known c evs (known s c)"
    by (simp_all add: learn_services_learn batch_known_def)
  note frame1 = learn_services_on_channel [OF assms, of c evs]
  have inside: "in_scope sc = (\<lambda>n. n \<in> scope_set sc)"
    by (simp add: scope_set_def)
  note linked = mem.note_links_spec [OF s1(1), of "in_scope sc" c "batch_links evs",
      folded learn_peers_note, unfolded inside]
  show "on_channel c s (learned p c sc evs s)"
    using on_channel_trans [OF frame1 learn_peers_on_channel [OF s1(1), of c sc evs]] frame1
    by (simp add: learned_def Let_def)
  show "known (learned p c sc evs s) c = batch_known c evs (known s c)"
    using linked s1 by (simp add: learned_def Let_def)
  show "peers (learned p c sc evs s) c =
      batch_peers p c (scope_set sc) evs (batch_known c evs (known s c)) (peers s c)"
    using linked s1
    by (auto simp: learned_def Let_def batch_peers_def fun_eq_iff linked_peer_links)
qed

section \<open>The events admitted\<close>

definition trimmed :: "flow_batch option \<Rightarrow> flow list \<Rightarrow> ui_event \<Rightarrow> ui_event" where
  "trimmed b fs ev = ev\<lparr>ev_case := Some (Event_Flows (map_option (\<lambda>b. b\<lparr>fb_flows := fs\<rparr>) b))\<rparr>"

definition admit ::
  "proxy \<Rightarrow> string set \<Rightarrow> (string \<Rightarrow> string option) \<Rightarrow> (string \<Rightarrow> bool) \<Rightarrow> ui_event \<Rightarrow> ui_event option"
where
  "admit p S K P ev =
    (let seen = pair_admitted (requireBoth p) S;
         ok = (case ev_case ev of
             Some (Event_Flow f) \<Rightarrow> seen (source_namespace f) (destination_namespace f)
           | Some (Event_Flows b) \<Rightarrow>
               (\<exists>f \<in> set (batch_flows b). seen (source_namespace (Some f)) (destination_namespace (Some f)))
           | Some (Event_NamespaceState n) \<Rightarrow> state_namespace n \<in> S
           | Some (Event_ServiceState st) \<Rightarrow>
               service_namespace (state_service st) \<in> S
               \<or> \<not> requireBoth p \<and> P (service_id (state_service st))
           | Some (Event_ServiceLinkState st) \<Rightarrow>
               (\<exists>a b. K (link_source (state_link st)) = Some a
                  \<and> K (link_destination (state_link st)) = Some b \<and> seen a b)
           | Some (Event_Notification _) \<Rightarrow> True
           | _ \<Rightarrow> False)
     in if \<not> ok then None
        else case ev_case ev of
            Some (Event_Flows b) \<Rightarrow>
              Some (trimmed b (filter (\<lambda>f. seen (source_namespace (Some f))
                (destination_namespace (Some f))) (batch_flows b)) ev)
          | _ \<Rightarrow> Some ev)"

lemma eventVisible_admit:
  assumes ok: "reg_ok s" and v: "eventVisible p c ev sc s = (r, s')"
  shows "r = admit p (scope_set sc) (known s c) (peers s c) ev" and "same_memory c s s'"
    and "EventsTotal (met s') = EventsTotal (met s)"
proof -
  have "r = admit p (scope_set sc) (known s c) (peers s c) ev \<and> same_memory c s s'
      \<and> EventsTotal (met s') = EventsTotal (met s)"
  proof (cases "ev_case ev")
    case None
    with v ok show ?thesis by (simp add: eventVisible_def admit_def Let_def)
  next
    case (Some k)
    show ?thesis
    proof (cases k)
      case (Event_Flows b)
      with Some v ok show ?thesis
        by (auto simp: eventVisible_def admit_def Let_def flowVisible_admitted trimmed_def
            filter_empty_conv split: if_splits)
    next
      case (Event_ServiceLinkState st)
      obtain a s1 where l1: "Lookup c (link_source (state_link st)) s = (a, s1)" by fastforce
      obtain b s2 where l2: "Lookup c (link_destination (state_link st)) s1 = (b, s2)" by fastforce
      note l = Lookup_twice [OF ok l1 l2]
      with Some Event_ServiceLinkState v l1 l2 show ?thesis
        by (auto simp: eventVisible_def admit_def Let_def namespacePairVisible_admitted
            split: option.splits)
    qed (use Some v ok in \<open>auto simp: eventVisible_def admit_def Let_def flowVisible_admitted
          scope_set_def IsPeer_peers split: if_splits\<close>)
  qed
  then show "r = admit p (scope_set sc) (known s c) (peers s c) ev" and "same_memory c s s'"
    and "EventsTotal (met s') = EventsTotal (met s)" by blast+
qed

lemma keep_events_admit:
  assumes "reg_ok s" and "keep_events p c sc evs s = (kept, s')"
  shows "kept = List.map_filter (admit p (scope_set sc) (known s c) (peers s c)) evs
    \<and> same_memory c s s'"
  using assms
proof (induction evs arbitrary: s kept)
  case (Cons ev evs)
  obtain r s1 where v: "eventVisible p c ev sc s = (r, s1)" by fastforce
  note step = eventVisible_admit [OF Cons.prems(1) v]
  let ?s2 = "\<lambda>d. count_event (eventKind ev) d s1"
  have s2: "same_memory c s (?s2 d)" for d using step(2) by simp
  then have ok2: "reg_ok (?s2 d)" and k2: "known (?s2 d) c = known s c" "peers (?s2 d) c = peers s c" for d
    by (simp_all add: same_memory_def on_channel_def)
  show ?case
  proof (cases r)
    case None
    with Cons.prems v have "keep_events p c sc evs (?s2 ''dropped'') = (kept, s')" by simp
    from Cons.IH [OF ok2 this] show ?thesis
      using None step(1) same_memory_trans [OF s2] by (auto simp: k2 List.map_filter_def)
  next
    case (Some e)
    obtain kept1 where k: "keep_events p c sc evs (?s2 ''kept'') = (kept1, s')" "kept = e # kept1"
      using Cons.prems v Some by (auto split: prod.splits)
    from Cons.IH [OF ok2 k(1)] show ?thesis
      using Some step(1) same_memory_trans [OF s2] k(2) by (auto simp: k2 List.map_filter_def)
  qed
qed (simp add: List.map_filter_def)

end
