(* ===== verification/Registry_Properties.thy ===== *)
theory Registry_Properties
  imports Registry_Laws
begin

text \<open>
  The registry's properties over arbitrary executions. A concurrent execution is the sequence
  in which the operations took the mutex; the abstract specification is a memory that never
  forgets an announcement, which the registry refines by forgetting whole channels only.
\<close>

section \<open>Executions\<close>

datatype reg_op =
    Op_Remember string string string
  | Op_RememberPeer string string
  | Op_Mark string
  | Op_IsPeer string string
  | Op_Lookup string string
  | Op_Sweep

fun reg_exec :: "reg_op \<Rightarrow> ('az, 'b) reg_state_scheme \<Rightarrow> ('az, 'b) reg_state_scheme" where
  "reg_exec (Op_Remember c v n) s = Remember c v n s"
| "reg_exec (Op_RememberPeer c v) s = RememberPeer c v s"
| "reg_exec (Op_Mark c) s = snd (MarkEmptyScopeNotified c s)"
| "reg_exec (Op_IsPeer c v) s = (let _ = IsPeer c v s in s)"
| "reg_exec (Op_Lookup c v) s = snd (Lookup c v s)"
| "reg_exec Op_Sweep s = sweep s"

definition reg_run :: "reg_op list \<Rightarrow> ('az, 'b) reg_state_scheme \<Rightarrow> ('az, 'b) reg_state_scheme" where
  "reg_run ops s = fold reg_exec ops s"

fun op_channel :: "reg_op \<Rightarrow> string option" where
  "op_channel (Op_Remember c v n) = (if c = [] \<or> v = [] then None else Some c)"
| "op_channel (Op_RememberPeer c v) = (if c = [] \<or> v = [] then None else Some c)"
| "op_channel (Op_Mark c) = (if c = [] then None else Some c)"
| "op_channel (Op_IsPeer c v) = None"
| "op_channel (Op_Lookup c v) = None"
| "op_channel Op_Sweep = None"

lemma reg_run_Nil [simp]: "reg_run [] s = s"
  and reg_run_Cons [simp]: "reg_run (op # ops) s = reg_run ops (reg_exec op s)"
  by (simp_all add: reg_run_def)

lemma MarkEmpty_Nil [simp]: "MarkEmptyScopeNotified [] s = (False, s)"
  by (simp add: MarkEmptyScopeNotified_def)

lemma Remember_ignored: "c = [] \<or> v = [] \<Longrightarrow> Remember c v n s = s"
  by (auto simp: Remember_def)

lemma RememberPeer_ignored: "c = [] \<or> v = [] \<Longrightarrow> RememberPeer c v s = s"
  by (auto simp: RememberPeer_def)

text \<open>What one operation does, whichever it is.\<close>

lemma reg_exec_step:
  assumes "reg_ok s"
  shows "reg_ok (reg_exec op s) \<and> reg_frame s (reg_exec op s)"
proof (cases op)
  case (Op_Remember c v n)
  with assms show ?thesis
    using Remember_spec [OF assms, of c v n] Remember_ignored [of c v n s]
    by (cases "c = [] \<or> v = []") auto
next
  case (Op_RememberPeer c v)
  with assms show ?thesis
    using RememberPeer_spec [OF assms, of c v] RememberPeer_ignored [of c v s]
    by (cases "c = [] \<or> v = []") auto
next
  case (Op_Mark c)
  with assms show ?thesis
    using MarkEmptyScopeNotified_spec(2,3) [OF assms, of c]
    by (cases "c = []"; cases "MarkEmptyScopeNotified c s") auto
next
  case (Op_Lookup c v)
  with assms show ?thesis
    using Lookup_spec(2,3) [OF assms, of c v] by (cases "Lookup c v s") auto
next
  case Op_Sweep
  with assms show ?thesis by (simp add: sweep_spec)
qed (simp add: assms)

lemma reg_run_ok: "reg_ok s \<Longrightarrow> reg_ok (reg_run ops s)"
  by (induction ops arbitrary: s) (simp_all add: reg_exec_step)

lemma reg_run_frame: "reg_ok s \<Longrightarrow> reg_frame s (reg_run ops s)"
proof (induction ops arbitrary: s)
  case (Cons op ops)
  then show ?case
    using reg_exec_step [of s op] reg_frame_trans by fastforce
qed simp

lemma new_registry_ok:
  "services s = new_registry ttl cap \<Longrightarrow> TrackedChannels (met s) = 0 \<Longrightarrow> reg_ok s"
  by (simp add: reg_ok_def new_registry_def)

definition example_reg :: "int \<Rightarrow> (nat \<Rightarrow> int) \<Rightarrow> unit reg_state" where
  "example_reg cap clock = \<lparr>rt = \<lparr>now_at = clock, rank_at = (\<lambda>_ _. 0), ticks = 0\<rparr>,
     met = fresh_metrics, auth = (), services = new_registry 60 cap\<rparr>"

lemma example_reg_init:
  "services (example_reg cap clock) = new_registry 60 cap"
  "TrackedChannels (met (example_reg cap clock)) = 0"
  by (simp_all add: example_reg_def fresh_metrics_def)

text \<open>
  C31. Memory is bounded: whatever the clients do and in whatever order, the number of tracked
  channels never exceeds a positive \<^verbatim>\<open>--max-channels\<close>, and the tracked-channels gauge shows
  exactly that number.
\<close>

theorem registry_capacity:
  assumes "services s = new_registry ttl cap" and "TrackedChannels (met s) = 0"
  shows "TrackedChannels (met (reg_run ops s)) = length (chans (reg_run ops s))
    \<and> (int (length (chans (reg_run ops s))) \<le> cap \<or> cap \<le> 0)"
proof -
  note ok = new_registry_ok [OF assms]
  have "max_channels (services (reg_run ops s)) = cap"
    using reg_frame_fields(3) [OF reg_run_frame [OF ok, of ops]] assms(1)
    by (simp add: new_registry_def)
  with reg_run_ok [OF ok, of ops] show ?thesis
    by (auto simp: reg_ok_def)
qed

theorem registry_capacity_witness:
  "TrackedChannels (met (reg_run [Op_Remember ''a'' ''s'' ''n'', Op_Mark ''b''] (example_reg 1 int)))
    = length (chans (reg_run [Op_Remember ''a'' ''s'' ''n'', Op_Mark ''b''] (example_reg 1 int)))
   \<and> (int (length (chans (reg_run [Op_Remember ''a'' ''s'' ''n'', Op_Mark ''b'']
        (example_reg 1 int)))) \<le> 1 \<or> (1::int) \<le> 0)"
  by (rule registry_capacity [OF example_reg_init])

section \<open>Eviction policy\<close>

text \<open>
  C37. Making room prefers expired channels and then the least recently seen: if a channel that
  has not expired is dropped, then nothing expired survives, every survivor was seen at least
  as recently, and exactly enough channels were dropped to admit one more.
\<close>

theorem makeRoom_evicts_least_recently_seen:
  assumes ok: "reg_ok s" and live: "map_of (chans s) k = Some ch"
    and fresh: "fst (now s) - reg_ttl (services s) \<le> last_seen ch"
    and dropped: "map_of (chans (makeRoomLocked s)) k = None"
  shows "int (length (chans (makeRoomLocked s))) = max_channels (services s) - 1
    \<and> (\<nexists>k' ch'. map_of (chans (makeRoomLocked s)) k' = Some ch'
          \<and> (last_seen ch' < last_seen ch \<or> last_seen ch' < fst (now s) - reg_ttl (services s)))"
proof -
  from ok have wf: "wf_map (chans s)" "[] \<notin> fst ` set (chans s)" by (simp_all add: reg_ok_def)
  obtain t s1 where n: "now s = (t, s1)" by fastforce
  define m where "m = drop_expired (t - reg_ttl (services s1)) (chans s1)"
  define s2 where "s2 = set_chans m s1"
  from n have s1: "chans s1 = chans s" "services s1 = services s"
    by (auto simp: now_eq)
  have room: "\<not> (max_channels (services s) \<le> 0 \<or> int (length (chans s)) < max_channels (services s))"
    using live dropped by (auto simp: makeRoomLocked_def)
  then have unfold: "makeRoomLocked s =
      (if int (length (chans s2)) < max_channels (services s) then s2 else evict_loop s2)"
    using n by (simp add: makeRoomLocked_def s2_def s1 m_def)
  have m: "map_of m k' = (case map_of (chans s) k' of None \<Rightarrow> None
      | Some ch \<Rightarrow> if last_seen ch < fst (now s) - reg_ttl (services s) then None else Some ch)" for k'
    using wf(1) n by (simp add: m_def s1 map_of_drop_expired split: option.split)
  have kept: "map_of (chans s2) k = Some ch"
    using live fresh by (simp add: s2_def m)
  with dropped unfold have full: "\<not> int (length (chans s2)) < max_channels (services s)"
    and loop: "makeRoomLocked s = evict_loop s2"
    by (auto split: if_splits)
  have wf2: "wf_map (chans s2)" "[] \<notin> fst ` set (chans s2)" "0 < max_channels (services s2)"
    using wf may_drop_keys [OF may_drop_expired [OF wf(1)]] room
    by (auto simp: s2_def m_def s1 wf_drop_expired)
  note ev = evict_loop_spec [OF wf2]
  have len: "int (length (chans (makeRoomLocked s))) = max_channels (services s) - 1"
    using ev full by (simp add: loop s2_def s1)
  have "\<not> (last_seen ch' < last_seen ch \<or> last_seen ch' < fst (now s) - reg_ttl (services s))"
    if a: "map_of (chans (evict_loop s2)) k' = Some ch'" for k' ch'
  proof -
    from ev a have "map_of m k' = Some ch'"
      unfolding may_drop_def by (metis option.distinct(1) s2_def set_chans_fields(1))
    then have "\<not> last_seen ch' < fst (now s) - reg_ttl (services s)"
      by (simp add: m split: option.splits if_splits)
    moreover have "last_seen ch \<le> last_seen ch'"
      using ev kept dropped a unfolding evicts_oldest_def loop by blast
    ultimately show ?thesis by simp
  qed
  with len show ?thesis by (auto simp: loop)
qed

definition example_full :: "unit reg_state" where
  "example_full = \<lparr>rt = \<lparr>now_at = (\<lambda>_. 10), rank_at = (\<lambda>_ _. 0), ticks = 0\<rparr>,
     met = fresh_metrics\<lparr>TrackedChannels := 2\<rparr>, auth = (),
     services = \<lparr>reg_ttl = 60, max_channels = 2,
       channels = [(''a'', fresh_channel\<lparr>last_seen := 1\<rparr>), (''b'', fresh_channel\<lparr>last_seen := 5\<rparr>)]\<rparr>\<rparr>"

theorem makeRoom_evicts_least_recently_seen_witness:
  "int (length (chans (makeRoomLocked example_full))) = max_channels (services example_full) - 1
    \<and> (\<nexists>k' ch'. map_of (chans (makeRoomLocked example_full)) k' = Some ch'
          \<and> (last_seen ch' < last_seen (fresh_channel\<lparr>last_seen := 1\<rparr>)
             \<or> last_seen ch' < fst (now example_full) - reg_ttl (services example_full)))"
proof (rule makeRoom_evicts_least_recently_seen)
  show "reg_ok example_full"
    by (simp add: reg_ok_def wf_map_def example_full_def)
  show "map_of (chans example_full) ''a'' = Some (fresh_channel\<lparr>last_seen := 1\<rparr>)"
    by (simp add: example_full_def)
  show "fst (now example_full) - reg_ttl (services example_full)
      \<le> last_seen (fresh_channel\<lparr>last_seen := 1\<rparr>)"
    by (simp add: example_full_def now_eq)
  show "map_of (chans (makeRoomLocked example_full)) ''a'' = None"
    by code_simp
qed

section \<open>Isolation\<close>

lemma reg_exec_others:
  assumes "reg_ok s" and "op_channel op \<noteq> Some c"
  shows "known (reg_exec op s) c \<in> {Map.empty, known s c}
    \<and> peers (reg_exec op s) c \<in> {\<lambda>_. False, peers s c}"
proof -
  have drop: ?thesis if "map_of (chans (reg_exec op s)) c = None
      \<or> map_of (chans (reg_exec op s)) c = map_of (chans s) c"
    using that by (auto simp: known_def peers_def view_def fun_eq_iff)
  show ?thesis
  proof (cases op)
    case (Op_Remember c' v n)
    show ?thesis
    proof (cases "c' = [] \<or> v = []")
      case True
      then show ?thesis by (simp add: Op_Remember Remember_ignored)
    next
      case False
      with assms Op_Remember Remember_spec [OF assms(1), of c' v n] show ?thesis
        by (intro drop) (auto simp: others_kept_def)
    qed
  next
    case (Op_RememberPeer c' v)
    show ?thesis
    proof (cases "c' = [] \<or> v = []")
      case True
      then show ?thesis by (simp add: Op_RememberPeer RememberPeer_ignored)
    next
      case False
      with assms Op_RememberPeer RememberPeer_spec [OF assms(1), of c' v] show ?thesis
        by (intro drop) (auto simp: others_kept_def)
    qed
  next
    case (Op_Mark c')
    show ?thesis
    proof (cases "c' = []")
      case True
      then show ?thesis by (simp add: Op_Mark)
    next
      case False
      obtain b s' where m: "MarkEmptyScopeNotified c' s = (b, s')" by fastforce
      from MarkEmptyScopeNotified_spec(4) [OF assms(1) False m] assms(2) False Op_Mark m
      show ?thesis by (intro drop) (auto simp: others_kept_def)
    qed
  next
    case (Op_Lookup c' v)
    obtain r s' where l: "Lookup c' v s = (r, s')" by fastforce
    show ?thesis
    proof (cases "c' = c")
      case True
      then show ?thesis using Lookup_known [OF assms(1), of c v] by (simp add: Op_Lookup)
    next
      case False
      with Lookup_spec(4) [OF assms(1) l] l Op_Lookup show ?thesis
        by (intro drop) (auto simp: others_kept_def)
    qed
  next
    case Op_Sweep
    with sweep_spec(3) [OF assms(1)] show ?thesis
      by (intro drop) (auto simp: may_drop_def)
  qed simp
qed



section \<open>Refinement of the memory that never forgets\<close>

text \<open>
  The specification state: for every channel the last namespace announced for every service,
  and the set of services ever recorded as peers.
\<close>

record memory =
  announced :: "string \<Rightarrow> string \<Rightarrow> string option"
  recorded :: "string \<Rightarrow> string \<Rightarrow> bool"

definition empty_memory :: memory where
  "empty_memory = \<lparr>announced = (\<lambda>_. Map.empty), recorded = (\<lambda>_ _. False)\<rparr>"

fun mem_exec :: "reg_op \<Rightarrow> memory \<Rightarrow> memory" where
  "mem_exec (Op_Remember c v n) m =
    (if c = [] \<or> v = [] then m
     else m\<lparr>announced := (announced m)(c := (announced m c)(v \<mapsto> n))\<rparr>)"
| "mem_exec (Op_RememberPeer c v) m =
    (if c = [] \<or> v = [] then m
     else m\<lparr>recorded := (recorded m)(c := (recorded m c)(v := True))\<rparr>)"
| "mem_exec _ m = m"

definition mem_run :: "reg_op list \<Rightarrow> memory \<Rightarrow> memory" where
  "mem_run ops m = fold mem_exec ops m"

lemma mem_run_Cons [simp]: "mem_run (op # ops) m = mem_run ops (mem_exec op m)"
  and mem_run_Nil [simp]: "mem_run [] m = m"
  by (simp_all add: mem_run_def)

definition remembers :: "memory \<Rightarrow> ('az, 'b) reg_state_scheme \<Rightarrow> bool" where
  "remembers m s \<longleftrightarrow> (\<forall>c. known s c \<subseteq>\<^sub>m announced m c) \<and> (\<forall>c v. peers s c v \<longrightarrow> recorded m c v)"

lemma remembers_step:
  assumes ok: "reg_ok s" and sim: "remembers m s"
  shows "remembers (mem_exec op m) (reg_exec op s)"
proof -
  have other: "known (reg_exec op s) c \<subseteq>\<^sub>m announced (mem_exec op m) c
      \<and> (\<forall>v. peers (reg_exec op s) c v \<longrightarrow> recorded (mem_exec op m) c v)"
    if "op_channel op \<noteq> Some c" for c
  proof -
    have "announced (mem_exec op m) c = announced m c" "recorded (mem_exec op m) c = recorded m c"
      using that by (cases op; auto)+
    with reg_exec_others [OF ok that] sim show ?thesis
      by (auto simp: remembers_def)
  qed
  have own: "known (reg_exec op s) c \<subseteq>\<^sub>m announced (mem_exec op m) c
      \<and> (\<forall>v. peers (reg_exec op s) c v \<longrightarrow> recorded (mem_exec op m) c v)"
    if "op_channel op = Some c" for c
  proof -
    have le: "known s c \<subseteq>\<^sub>m announced m c" "\<forall>v. peers s c v \<longrightarrow> recorded m c v"
      using sim by (auto simp: remembers_def)
    show ?thesis
    proof (cases op)
      case (Op_Mark c')
      with that have c: "c' = c" "c \<noteq> []" by (auto split: if_splits)
      obtain b s' where mk: "MarkEmptyScopeNotified c s = (b, s')" by fastforce
      from MarkEmptyScopeNotified_spec(5) [OF ok c(2) mk]
      have "known s' c = known s c" "peers s' c = peers s c"
        by (auto simp: known_def peers_def dest!: view_Some)
      with le Op_Mark c mk show ?thesis by simp
    qed (use that le in \<open>auto simp: Remember_known [OF ok] RememberPeer_known [OF ok] map_le_def
          split: if_splits\<close>)
  qed
  show ?thesis
    unfolding remembers_def using other own by metis
qed

text \<open>
  C13. The registry is sound for the memory that never forgets: in every execution, what a
  lookup returns is the namespace last announced for that service on that very channel, and a
  service is a peer only if it was recorded as one on that channel.
\<close>

theorem registry_refines_memory:
  assumes "services s = new_registry ttl cap" and "TrackedChannels (met s) = 0"
  shows "fst (Lookup c v (reg_run ops s)) \<in> {None, announced (mem_run ops empty_memory) c v}
    \<and> (IsPeer c v (reg_run ops s) \<longrightarrow> recorded (mem_run ops empty_memory) c v)"
proof -
  have "remembers (mem_run ops m) (reg_run ops s1)"
    if "reg_ok s1" "remembers m s1" for m and s1 :: "('a, 'b) reg_state_scheme"
    using that by (induction ops arbitrary: s1 m) (simp_all add: remembers_step reg_exec_step)
  moreover have "remembers empty_memory s"
    using assms(1)
    by (auto simp: remembers_def known_def peers_def view_def new_registry_def)
  ultimately have sim: "remembers (mem_run ops empty_memory) (reg_run ops s)"
    using new_registry_ok [OF assms] by blast
  have "fst (Lookup c v (reg_run ops s)) = known (reg_run ops s) c v"
    by (rule mem.lookup_result [OF reg_run_ok [OF new_registry_ok [OF assms]]])
  moreover have "known (reg_run ops s) c v \<in> {None, announced (mem_run ops empty_memory) c v}"
  proof (cases "known (reg_run ops s) c v")
    case (Some n)
    moreover have "known (reg_run ops s) c \<subseteq>\<^sub>m announced (mem_run ops empty_memory) c"
      using sim by (simp add: remembers_def)
    ultimately show ?thesis unfolding map_le_def by (metis domI insertCI)
  qed simp
  ultimately show ?thesis
    using sim by (simp add: remembers_def IsPeer_peers)
qed

theorem registry_refines_memory_witness:
  "fst (Lookup ''a'' ''s'' (reg_run [Op_Remember ''a'' ''s'' ''n''] (example_reg 8 int)))
     \<in> {None, announced (mem_run [Op_Remember ''a'' ''s'' ''n''] empty_memory) ''a'' ''s''}"
  using registry_refines_memory [OF example_reg_init] by blast

text \<open>Within the cap and without sweeps nothing is forgotten.\<close>

lemma channelLocked_no_eviction:
  assumes "max_channels (services s) \<le> 0 \<or> int (length (chans s)) < max_channels (services s)"
    and "map_of (chans s) c = None"
  shows "chans (channelLocked c s) = AList.update c fresh_channel (chans s)"
  using assms by (simp add: channelLocked_def makeRoomLocked_def Let_def)

definition exact_memory :: "memory \<Rightarrow> ('az, 'b) reg_state_scheme \<Rightarrow> bool" where
  "exact_memory m s \<longleftrightarrow> (\<forall>c. known s c = announced m c) \<and> (\<forall>c. peers s c = recorded m c)"

lemma enter_no_eviction:
  assumes ok: "reg_ok s"
    and room: "map_of (chans s) c = None \<longrightarrow>
      max_channels (services s) \<le> 0 \<or> int (length (chans s)) < max_channels (services s)"
    and k: "k \<noteq> c"
  shows "map_of (chans (modify_channel c f (snd (now (channelLocked c s))))) k = map_of (chans s) k"
proof -
  have "map_of (chans (channelLocked c s)) k = map_of (chans s) k"
    using room k channelLocked_no_eviction [of s c] channelLocked_known [of s c]
    by (cases "map_of (chans s) c") (auto simp: gomap_simps)
  with k show ?thesis by (simp add: now_eq)
qed

lemma view_cong: "map_of (chans s') k = map_of (chans s) k \<Longrightarrow> view s' k = view s k"
  by (simp add: view_def)

lemma reg_exec_no_eviction:
  assumes ok: "reg_ok s" and op: "op \<noteq> Op_Sweep" and k: "op_channel op \<noteq> Some k"
    and room: "\<And>c. op_channel op = Some c \<Longrightarrow> map_of (chans s) c = None \<Longrightarrow>
      max_channels (services s) \<le> 0 \<or> int (length (chans s)) < max_channels (services s)"
  shows "known (reg_exec op s) k = known s k \<and> peers (reg_exec op s) k = peers s k"
proof (cases op)
  case (Op_Remember c v n)
  show ?thesis
  proof (cases "c = [] \<or> v = []")
    case True
    then show ?thesis by (simp add: Op_Remember Remember_ignored)
  next
    case False
    with k Op_Remember have "k \<noteq> c" by simp
    with enter_no_eviction [OF ok _ this] room False Op_Remember
    have "view (reg_exec op s) k = view s k"
      by (intro view_cong) (simp add: Remember_def Let_def split_def del: map_of_modify_channel)
    then show ?thesis by (simp add: known_def peers_def)
  qed
next
  case (Op_RememberPeer c v)
  show ?thesis
  proof (cases "c = [] \<or> v = []")
    case True
    then show ?thesis by (simp add: Op_RememberPeer RememberPeer_ignored)
  next
    case False
    with k Op_RememberPeer have "k \<noteq> c" by simp
    with enter_no_eviction [OF ok _ this] room False Op_RememberPeer
    have "view (reg_exec op s) k = view s k"
      by (intro view_cong) (simp add: RememberPeer_def Let_def split_def del: map_of_modify_channel)
    then show ?thesis by (simp add: known_def peers_def)
  qed
next
  case (Op_Mark c)
  show ?thesis
  proof (cases "c = []")
    case True
    then show ?thesis by (simp add: Op_Mark)
  next
    case False
    with k Op_Mark have kc: "k \<noteq> c" by simp
    have "map_of (chans (reg_exec op s)) k = map_of (chans s) k"
      using enter_no_eviction [OF ok _ kc] room False Op_Mark kc
      by (auto simp: MarkEmptyScopeNotified_def Let_def split_def split: option.split)
    then have "view (reg_exec op s) k = view s k" by (rule view_cong)
    then show ?thesis by (simp add: known_def peers_def)
  qed
next
  case (Op_Lookup c v)
  show ?thesis
  proof (cases "k = c")
    case True
    then show ?thesis using Lookup_known [OF ok, of c v] by (simp add: Op_Lookup)
  next
    case False
    then have "view (reg_exec op s) k = view s k"
      by (intro view_cong) (simp add: Op_Lookup Lookup_def Let_def now_eq split: option.split)
    then show ?thesis by (simp add: known_def peers_def)
  qed
qed (use op in simp_all)

lemma exact_step:
  assumes ok: "reg_ok s" and op: "op \<noteq> Op_Sweep" and exact: "exact_memory m s"
    and room: "\<And>c. op_channel op = Some c \<Longrightarrow> map_of (chans s) c = None \<Longrightarrow>
      max_channels (services s) \<le> 0 \<or> int (length (chans s)) < max_channels (services s)"
  shows "exact_memory (mem_exec op m) (reg_exec op s)"
proof -
  have other: "known (reg_exec op s) k = announced (mem_exec op m) k
      \<and> peers (reg_exec op s) k = recorded (mem_exec op m) k" if "op_channel op \<noteq> Some k" for k
  proof -
    have "announced (mem_exec op m) k = announced m k" "recorded (mem_exec op m) k = recorded m k"
      using that by (cases op; auto)+
    with reg_exec_no_eviction [OF ok op that room] exact show ?thesis
      by (simp add: exact_memory_def)
  qed
  have own: "known (reg_exec op s) k = announced (mem_exec op m) k
      \<and> peers (reg_exec op s) k = recorded (mem_exec op m) k" if "op_channel op = Some k" for k
  proof (cases op)
    case (Op_Mark c')
    with that have c: "c' = k" "k \<noteq> []" by (auto split: if_splits)
    obtain b s' where mk: "MarkEmptyScopeNotified k s = (b, s')" by fastforce
    from MarkEmptyScopeNotified_spec(5) [OF ok c(2) mk]
    have "known s' k = known s k" "peers s' k = peers s k"
      by (auto simp: known_def peers_def dest!: view_Some)
    with exact Op_Mark c mk show ?thesis by (simp add: exact_memory_def)
  qed (use that exact in \<open>auto simp: Remember_known [OF ok] RememberPeer_known [OF ok]
        exact_memory_def split: if_splits\<close>)
  show ?thesis unfolding exact_memory_def using other own by metis
qed

lemma reg_exec_keys:
  assumes "reg_ok s"
  shows "fst ` set (chans (reg_exec op s)) \<subseteq> fst ` set (chans s) \<union> {c. op_channel op = Some c}"
proof -
  have keys: ?thesis if "others_kept c s (reg_exec op s)" "op_channel op = Some c" for c
    using that unfolding others_kept_def
    by (smt (verit, best) UnCI UnI1 map_of_eq_None_iff mem_Collect_eq subsetI)
  have id: ?thesis if "reg_exec op s = s" using that by auto
  have same: ?thesis if "may_drop (chans s) (chans (reg_exec op s))"
    using may_drop_keys [OF that] by blast
  show ?thesis
  proof (cases op)
    case (Op_Remember c v n)
    show ?thesis
    proof (cases "c = [] \<or> v = []")
      case True
      then show ?thesis by (intro id) (simp add: Op_Remember Remember_ignored)
    next
      case False
      then show ?thesis
        using Remember_spec [OF assms, of c v n] by (intro keys [of c]) (auto simp: Op_Remember)
    qed
  next
    case (Op_RememberPeer c v)
    show ?thesis
    proof (cases "c = [] \<or> v = []")
      case True
      then show ?thesis by (intro id) (simp add: Op_RememberPeer RememberPeer_ignored)
    next
      case False
      then show ?thesis
        using RememberPeer_spec [OF assms, of c v] by (intro keys [of c]) (auto simp: Op_RememberPeer)
    qed
  next
    case (Op_Mark c)
    obtain b s' where m: "MarkEmptyScopeNotified c s = (b, s')" by fastforce
    show ?thesis
    proof (cases "c = []")
      case True
      then show ?thesis by (intro id) (simp add: Op_Mark)
    next
      case False
      from MarkEmptyScopeNotified_spec(4) [OF assms False m] m False show ?thesis
        by (intro keys [of c]) (auto simp: Op_Mark)
    qed
  next
    case (Op_Lookup c v)
    have "map fst (chans (reg_exec op s)) = map fst (chans s)"
      by (simp add: Op_Lookup Lookup_def now_eq split: option.split)
    then show ?thesis by (metis Un_upper1 list.set_map)
  next
    case Op_Sweep
    then show ?thesis using sweep_spec(3) [OF assms] by (intro same) simp
  qed simp
qed

text \<open>
  C29. Nothing is forgotten without need: as long as no sweep runs and the channels written to
  fit the cap (or the cap is disabled), every lookup returns exactly the namespace last
  announced, and the peers are exactly the services recorded.
\<close>

theorem registry_exact_within_cap:
  assumes init: "services s = new_registry ttl cap" "TrackedChannels (met s) = 0"
    and sweep: "Op_Sweep \<notin> set ops"
    and cap: "cap \<le> 0 \<or> int (card (Option.these (op_channel ` set ops))) \<le> cap"
  shows "fst (Lookup c v (reg_run ops s)) = announced (mem_run ops empty_memory) c v
    \<and> IsPeer c v (reg_run ops s) = recorded (mem_run ops empty_memory) c v"
proof -
  define U where "U = Option.these (op_channel ` set ops)"
  have fin: "finite U" by (simp add: U_def Option.these_def)
  have run: "exact_memory (mem_run ops' m) (reg_run ops' s1)"
    if "reg_ok s1" "exact_memory m s1" "max_channels (services s1) = cap"
      "fst ` set (chans s1) \<subseteq> U" "set ops' \<subseteq> set ops"
    for ops' m and s1 :: "('a, 'b) reg_state_scheme"
    using that
  proof (induction ops' arbitrary: s1 m)
    case (Cons op ops')
    have inU: "c \<in> U" if "op_channel op = Some c" for c
      using that Cons.prems(5) by (force simp: U_def Option.these_def image_iff)
    have room: "cap \<le> 0 \<or> int (length (chans s1)) < cap"
      if "op_channel op = Some c" "map_of (chans s1) c = None" for c
    proof -
      have "c \<notin> fst ` set (chans s1)" using that(2) by (simp add: map_of_eq_None_iff)
      then have "fst ` set (chans s1) \<subset> U" using Cons.prems(4) inU [OF that(1)] by blast
      then have "card (fst ` set (chans s1)) < card U" by (rule psubset_card_mono [OF fin])
      moreover have "card (fst ` set (chans s1)) = length (chans s1)"
        using Cons.prems(1) by (metis reg_ok_def wf_map_def distinct_card length_map list.set_map)
      ultimately show ?thesis using cap by (auto simp: U_def)
    qed
    have "op \<noteq> Op_Sweep" using sweep Cons.prems(5) by auto
    from exact_step [OF Cons.prems(1) this Cons.prems(2)] room Cons.prems(3)
    have "exact_memory (mem_exec op m) (reg_exec op s1)" by blast
    moreover have "max_channels (services (reg_exec op s1)) = cap"
      using reg_frame_fields(3) [OF conjunct2 [OF reg_exec_step [OF Cons.prems(1)]]] Cons.prems(3)
      by simp
    moreover have "fst ` set (chans (reg_exec op s1)) \<subseteq> U"
      using reg_exec_keys [OF Cons.prems(1), of op] Cons.prems(4) inU by blast
    ultimately show ?case
      using Cons.IH [of "reg_exec op s1" "mem_exec op m"] reg_exec_step [OF Cons.prems(1), of op]
        Cons.prems(5) by simp
  qed simp
  note ok = new_registry_ok [OF init]
  have "exact_memory empty_memory s"
    using init(1)
    by (auto simp: exact_memory_def empty_memory_def known_def peers_def view_def new_registry_def
        fun_eq_iff)
  with run [OF ok] init(1) have "exact_memory (mem_run ops empty_memory) (reg_run ops s)"
    by (simp add: new_registry_def)
  then show ?thesis
    using mem.lookup_result [OF reg_run_ok [OF ok, of ops], of c v]
    by (simp add: exact_memory_def IsPeer_peers)
qed

theorem registry_exact_within_cap_witness:
  "fst (Lookup ''a'' ''s'' (reg_run [Op_Remember ''a'' ''s'' ''n'', Op_Mark ''b''] (example_reg 2 int)))
     = announced (mem_run [Op_Remember ''a'' ''s'' ''n'', Op_Mark ''b''] empty_memory) ''a'' ''s''
   \<and> IsPeer ''a'' ''s'' (reg_run [Op_Remember ''a'' ''s'' ''n'', Op_Mark ''b''] (example_reg 2 int))
     = recorded (mem_run [Op_Remember ''a'' ''s'' ''n'', Op_Mark ''b''] empty_memory) ''a'' ''s''"
proof (rule registry_exact_within_cap [OF example_reg_init])
  have "Option.these (op_channel ` set [Op_Remember ''a'' ''s'' ''n'', Op_Mark ''b'']) = {''a'', ''b''}"
    by (auto simp: in_these_eq image_iff)
  then show "(2::int) \<le> 0 \<or> int (card (Option.these (op_channel `
      set [Op_Remember ''a'' ''s'' ''n'', Op_Mark ''b'']))) \<le> 2"
    by simp
qed simp

section \<open>The empty-scope notice\<close>

fun retained :: "string \<Rightarrow> reg_op list \<Rightarrow> ('az, 'b) reg_state_scheme \<Rightarrow> bool" where
  "retained c [] s \<longleftrightarrow> map_of (chans s) c \<noteq> None"
| "retained c (op # ops) s \<longleftrightarrow> map_of (chans s) c \<noteq> None \<and> retained c ops (reg_exec op s)"

text \<open>
  Only the question itself marks a channel as told: a channel that is there after an operation is
  told exactly if it was told before, or the operation was the question.
\<close>

lemma reg_exec_notified:
  assumes ok: "reg_ok s" and c: "c \<noteq> []"
  shows "map_of (chans (reg_exec op s)) c = None
    \<or> notified (reg_exec op s) c = (notified s c \<or> op = Op_Mark c)"
proof -
  have other: ?thesis if "op \<noteq> Op_Mark c" and "map_of (chans (reg_exec op s)) c = None
      \<or> map_of (chans (reg_exec op s)) c = map_of (chans s) c"
    using that by (auto simp: notified_def view_def)
  show ?thesis
  proof (cases op)
    case (Op_Remember c' v m)
    show ?thesis
    proof (cases "c' = [] \<or> v = [] \<or> c' = c")
      case True
      then show ?thesis using Remember_known(3) [OF ok, of c v m] by (auto simp: Op_Remember Remember_ignored)
    next
      case False
      with Remember_spec [OF ok, of c' v m] show ?thesis
        by (intro other) (auto simp: Op_Remember others_kept_def)
    qed
  next
    case (Op_RememberPeer c' v)
    show ?thesis
    proof (cases "c' = [] \<or> v = [] \<or> c' = c")
      case True
      then show ?thesis
        using RememberPeer_known(3) [OF ok, of c v] by (auto simp: Op_RememberPeer RememberPeer_ignored)
    next
      case False
      with RememberPeer_spec [OF ok, of c' v] show ?thesis
        by (intro other) (auto simp: Op_RememberPeer others_kept_def)
    qed
  next
    case (Op_Mark c')
    obtain b s' where m: "MarkEmptyScopeNotified c' s = (b, s')" by fastforce
    show ?thesis
    proof (cases "c' = [] \<or> c' = c")
      case True
      with m MarkEmptyScopeNotified_spec(5) [OF ok c] c show ?thesis
        by (cases "c' = []") (fastforce simp: Op_Mark notified_def view_def)+
    next
      case False
      with MarkEmptyScopeNotified_spec(4) [OF ok _ m] m show ?thesis
        by (intro other) (auto simp: Op_Mark others_kept_def)
    qed
  next
    case (Op_Lookup c' v)
    show ?thesis
    proof (cases "c' = c")
      case True
      then show ?thesis using Lookup_known(3) [OF ok, of c v] by (simp add: Op_Lookup)
    next
      case False
      then show ?thesis
        by (intro other) (simp_all add: Op_Lookup Lookup_def now_eq split: option.split)
    qed
  next
    case Op_Sweep
    with sweep_spec(3) [OF ok] show ?thesis by (intro other) (auto simp: may_drop_def)
  qed simp
qed

text \<open>How often \<open>MarkEmptyScopeNotified\<close> answers yes on a channel.\<close>

fun notices :: "string \<Rightarrow> reg_op list \<Rightarrow> ('az, 'b) reg_state_scheme \<Rightarrow> nat" where
  "notices c [] s = 0"
| "notices c (op # ops) s =
    (if op = Op_Mark c \<and> fst (MarkEmptyScopeNotified c s) then 1 else 0) + notices c ops (reg_exec op s)"

lemma notices_retained:
  assumes "reg_ok s" and c: "c \<noteq> []" and "retained c ops s"
  shows "notices c ops s = (if \<not> notified s c \<and> Op_Mark c \<in> set ops then 1 else 0)"
  using assms(1,3)
proof (induction ops arbitrary: s)
  case (Cons op ops)
  have "map_of (chans (reg_exec op s)) c \<noteq> None" using Cons.prems(2) by (cases ops) auto
  with reg_exec_notified [OF Cons.prems(1) c, of op]
  have now: "notified (reg_exec op s) c = (notified s c \<or> op = Op_Mark c)" by blast
  have due: "fst (MarkEmptyScopeNotified c s) \<longleftrightarrow> \<not> notified s c"
    using MarkEmptyScopeNotified_spec(1) [OF Cons.prems(1) c] by (cases "MarkEmptyScopeNotified c s") simp
  from Cons.IH [of "reg_exec op s"] Cons.prems reg_exec_step [OF Cons.prems(1), of op] now due
  show ?case by auto
qed simp

text \<open>
  C40. A channel's caller is told exactly once that they see nothing. Take the life of a channel in
  any execution, from the operation that creates it, whichever that is, as long as it is retained:
  \<^verbatim>\<open>MarkEmptyScopeNotified\<close> has answered yes exactly once if it was asked at all. Since this holds at
  every moment of that life, it is the first question that is answered yes; what else is remembered
  of the channel meanwhile, and what is done with other channels, plays no part.
\<close>

theorem empty_scope_notice_once:
  assumes init: "services s = new_registry ttl cap" "TrackedChannels (met s) = 0" and c: "c \<noteq> []"
    and absent: "map_of (chans (reg_run before s)) c = None"
    and life: "retained c during (reg_exec first (reg_run before s))"
  shows "notices c (first # during) (reg_run before s) = (if Op_Mark c \<in> set (first # during) then 1 else 0)"
proof -
  let ?s = "reg_run before s"
  have ok: "reg_ok ?s" by (rule reg_run_ok [OF new_registry_ok [OF init]])
  have new: "\<not> notified ?s c" using absent by (simp add: notified_def view_def)
  have "map_of (chans (reg_exec first ?s)) c \<noteq> None" using life by (cases during) auto
  with reg_exec_notified [OF ok c, of first] new
  have "notified (reg_exec first ?s) c \<longleftrightarrow> first = Op_Mark c" by blast
  moreover have "fst (MarkEmptyScopeNotified c ?s)"
    using MarkEmptyScopeNotified_spec(1) [OF ok c] new by (cases "MarkEmptyScopeNotified c ?s") simp
  ultimately show ?thesis
    using notices_retained [OF _ c life] reg_exec_step [OF ok, of first] by auto
qed

theorem empty_scope_notice_once_witness:
  "notices ''a'' [Op_Remember ''a'' ''s'' ''n'', Op_Mark ''b'', Op_Mark ''a'', Op_Sweep, Op_Mark ''a'']
     (reg_run [Op_Mark ''b''] (example_reg 2 int)) = 1"
proof -
  have absent: "map_of (chans (reg_run [Op_Mark ''b''] (example_reg 2 int))) ''a'' = None"
    by code_simp
  have life: "retained ''a'' [Op_Mark ''b'', Op_Mark ''a'', Op_Sweep, Op_Mark ''a'']
      (reg_exec (Op_Remember ''a'' ''s'' ''n'') (reg_run [Op_Mark ''b''] (example_reg 2 int)))"
    by code_simp
  from empty_scope_notice_once [OF example_reg_init _ absent life] show ?thesis by simp
qed

section \<open>Sweeping\<close>

text \<open>
  A sweep drops exactly the channels idle for longer than the TTL and touches nothing of
  the others; a channel seen exactly one TTL ago is kept. The sweeper panics, and with it the
  process, when the TTL is not positive.
\<close>

theorem sweep_exact:
  assumes "reg_ok s"
  shows "map_of (chans (sweep s)) c = (case map_of (chans s) c of None \<Rightarrow> None
     | Some ch \<Rightarrow> if fst (now s) - last_seen ch \<le> reg_ttl (services s) then Some ch else None)
   \<and> (RunSweeper evs s = Panics \<longleftrightarrow> reg_ttl (services s) \<le> 0)"
proof -
  have "(last_seen ch < fst (now s) - reg_ttl (services s)) =
      (\<not> fst (now s) - last_seen ch \<le> reg_ttl (services s))" for ch
    by linarith
  then show ?thesis
    using sweep_spec(4) [OF assms, of c] by (auto simp: RunSweeper_def split: option.split)
qed

theorem sweep_exact_witness:
  "map_of (chans (sweep example_full)) ''a'' = (case map_of (chans example_full) ''a'' of None \<Rightarrow> None
     | Some ch \<Rightarrow> if fst (now example_full) - last_seen ch \<le> reg_ttl (services example_full)
                 then Some ch else None)
   \<and> (RunSweeper [] example_full = Panics \<longleftrightarrow> reg_ttl (services example_full) \<le> 0)"
  by (rule sweep_exact) (simp add: reg_ok_def wf_map_def example_full_def)

end
