(* ===== verification/Ui_Filter_Properties.thy ===== *)
theory Ui_Filter_Properties
  imports Ui_Filter_Laws Registry_Properties
begin

text \<open>
  The properties of the response filters: the exact result of both filters, what a client can
  read out of a filtered response, independence of the order of events, isolation from the
  rest of the process, and the accounting of what was kept and dropped.
\<close>

section \<open>The visibility rule\<close>

text \<open>
  The rule for a pair of namespaces: leniently, one end that is named and in scope is
  enough; strictly, nothing outside the scope may be named as well. Neither depends on the
  direction, and a pair without any namespace is never visible.
\<close>

theorem namespacePairVisible_rule:
  "(namespacePairVisible a b m False \<longleftrightarrow> {a, b} \<inter> {n. n \<noteq> [] \<and> get_bool m n} \<noteq> {})
   \<and> (namespacePairVisible a b m True \<longleftrightarrow>
        namespacePairVisible a b m False \<and> {a, b} - {[]} \<subseteq> {n. get_bool m n})
   \<and> namespacePairVisible a b m both = namespacePairVisible b a m both
   \<and> \<not> namespacePairVisible [] [] m both"
  by (auto simp: namespacePairVisible_def Let_def)

text \<open>A larger scope never hides a pair that a smaller one shows.\<close>

theorem namespacePairVisible_monotone:
  assumes "namespacePairVisible a b m both" and "{n. get_bool m n} \<subseteq> {n. get_bool m' n}"
  shows "namespacePairVisible a b m' both"
  using assms by (auto simp: namespacePairVisible_def Let_def split: if_splits)

theorem namespacePairVisible_monotone_witness:
  "namespacePairVisible ''pay'' ''shop'' [(''shop'', True), (''pay'', True)] False"
  by (rule namespacePairVisible_monotone [where m = "[(''pay'', True)]"])
    (auto simp: namespacePairVisible_def get_bool_def)

section \<open>The service map\<close>

lemma filterServiceMapStream_learned:
  assumes "unmarshal_events cd body = Inr resp"
  shows "filterServiceMapStream cd p c body sc s =
    (let (kept, s) = keep_events p c sc (er_events resp) (learned p c sc (er_events resp) s)
     in (marshal_events cd (resp\<lparr>er_events := kept\<rparr>), s))"
  using assms by (simp add: filterServiceMapStream_def learned_def Let_def)

text \<open>What a batch is judged with on channel \<open>c\<close> in state \<open>s\<close>, and what is served of it.\<close>

definition judged_known :: "string \<Rightarrow> ui_event list \<Rightarrow> ('az, 'b) reg_state_scheme
    \<Rightarrow> string \<Rightarrow> string option" where
  "judged_known c evs s = batch_known c evs (known s c)"

definition judged_peers :: "proxy \<Rightarrow> string \<Rightarrow> scope \<Rightarrow> ui_event list \<Rightarrow> ('az, 'b) reg_state_scheme
    \<Rightarrow> string \<Rightarrow> bool" where
  "judged_peers p c sc evs s = batch_peers p c (scope_set sc) evs (judged_known c evs s) (peers s c)"

definition served_events ::
  "proxy \<Rightarrow> string \<Rightarrow> scope \<Rightarrow> ('az, 'b) reg_state_scheme \<Rightarrow> ui_event list \<Rightarrow> ui_event list" where
  "served_events p c sc s evs =
    List.map_filter (admit p (scope_set sc) (judged_known c evs s) (judged_peers p c sc evs s)) evs"

lemma filterServiceMapStream_spec:
  assumes ok: "reg_ok s" and resp: "unmarshal_events cd body = Inr resp"
  shows "\<exists>s'. filterServiceMapStream cd p c body sc s =
      (marshal_events cd (resp\<lparr>er_events := served_events p c sc s (er_events resp)\<rparr>), s')
    \<and> known s' c = judged_known c (er_events resp) s
    \<and> peers s' c = judged_peers p c sc (er_events resp) s
    \<and> on_channel c s s'"
proof -
  let ?s1 = "learned p c sc (er_events resp) s"
  obtain kept s' where k: "keep_events p c sc (er_events resp) ?s1 = (kept, s')" by fastforce
  note l = learned_spec [OF ok, where p = p and c = c and sc = sc and evs = "er_events resp"]
  have "reg_ok ?s1" using l(1) by (simp add: on_channel_def)
  from keep_events_admit [OF this k] l show ?thesis
    by (auto simp: filterServiceMapStream_learned [where p = p, OF resp] k served_events_def
        judged_known_def judged_peers_def same_memory_def intro: on_channel_trans)
qed


text \<open>
  C7. The service-map filter refines its specification: the response is the given one with
  exactly the admitted events, in order, judged with the announcements of the whole batch over
  what the channel knew; afterwards the channel remembers exactly that.
\<close>

theorem filterServiceMapStream_exact:
  assumes ok: "reg_ok s" and resp: "unmarshal_events cd body = Inr resp"
  shows "\<exists>s'. filterServiceMapStream cd p c body sc s =
      (marshal_events cd (resp\<lparr>er_events := served_events p c sc s (er_events resp)\<rparr>), s')
    \<and> known s' c = judged_known c (er_events resp) s
    \<and> peers s' c = judged_peers p c sc (er_events resp) s
    \<and> on_channel c s s'"
  by (rule filterServiceMapStream_spec [OF assms])

lemma filterServiceMapStream_ok:
  "reg_ok s \<Longrightarrow> unmarshal_events cd body = Inr resp \<Longrightarrow>
     reg_ok (snd (filterServiceMapStream cd p c body sc s))"
  using filterServiceMapStream_spec [of s cd body resp p c sc] by (auto simp: on_channel_def)

text \<open>
  A closed instance: a service \<open>a\<close> of namespace \<open>pay\<close> talks to \<open>b\<close> of \<open>db\<close>, and the link comes
  before the services in the batch.
\<close>

definition example_proxy :: "bool \<Rightarrow> proxy" where
  "example_proxy both = \<lparr>requireBoth = both, apiPrefix = ''/api'',
     px_headers = NewHeaders AuthRequestPrefix, maxResponse = 1024, notifyEmptyScope = True\<rparr>"

definition example_scope :: scope where
  "example_scope = \<lparr>sc_all = False, sc_namespaces = [(''pay'', True)]\<rparr>"

definition service_event :: "string \<Rightarrow> string \<Rightarrow> ui_event" where
  "service_event v n = \<lparr>ev_case = Some (Event_ServiceState (Some \<lparr>ss_service = Some
     \<lparr>sv_id = v, sv_namespace = n, sv_rest = []\<rparr>, ss_rest = []\<rparr>)), ev_rest = []\<rparr>"

definition link_event :: "string \<Rightarrow> string \<Rightarrow> ui_event" where
  "link_event v w = \<lparr>ev_case = Some (Event_ServiceLinkState (Some \<lparr>sls_link = Some
     \<lparr>sl_source_id = v, sl_destination_id = w, sl_rest = []\<rparr>, sls_rest = []\<rparr>)), ev_rest = []\<rparr>"

definition example_events :: "ui_event list" where
  "example_events = [link_event ''a'' ''b'', service_event ''a'' ''pay'', service_event ''b'' ''db'']"

definition example_batch :: events_response where
  "example_batch = \<lparr>er_events = example_events, er_rest = []\<rparr>"

definition example_strict_batch :: events_response where
  "example_strict_batch = \<lparr>er_events = [service_event ''a'' ''pay''], er_rest = []\<rparr>"

definition example_codec :: codec where
  "example_codec = table_codec [] [(example_batch, [1]), (example_strict_batch, [2])] []"

definition order_codec :: codec where
  "order_codec = table_codec [] [(example_batch, [1]),
     (example_batch\<lparr>er_events := rotate1 example_events\<rparr>, [2])] []"

lemmas example_event_defs =
  example_events_def example_batch_def example_strict_batch_def service_event_def link_event_def

lemma example_proxy_both: "requireBoth (example_proxy both) = both"
  by (simp add: example_proxy_def)

lemma example_codec_reads: "unmarshal_events example_codec [1] = Inr example_batch"
  by (simp add: example_codec_def table_codec_def table_decode_def)

lemma example_codec_reads_back: "codec_reads_back example_codec"
  by (simp add: example_codec_def table_codec_reads_back)

lemma example_reg_ok: "reg_ok (example_reg cap clock)"
  by (rule new_registry_ok [OF example_reg_init])

lemma example_filtered:
  "fst (filterServiceMapStream example_codec (example_proxy True) ''ch'' [1] example_scope
     (example_reg 4 int)) = Inr [2]"
  "fst (filterServiceMapStream example_codec (example_proxy False) ''ch'' [1] example_scope
     (example_reg 4 int)) = Inr [1]"
  by code_simp+

theorem filterServiceMapStream_exact_witness:
  "\<exists>s'. filterServiceMapStream example_codec (example_proxy False) ''ch'' [1] example_scope
        (example_reg 4 int)
      = (marshal_events example_codec (example_batch\<lparr>er_events := served_events (example_proxy False)
           ''ch'' example_scope (example_reg 4 int) (er_events example_batch)\<rparr>), s')
    \<and> known s' ''ch'' = judged_known ''ch'' (er_events example_batch) (example_reg 4 int)
    \<and> peers s' ''ch'' = judged_peers (example_proxy False) ''ch'' example_scope
        (er_events example_batch) (example_reg 4 int)
    \<and> on_channel ''ch'' (example_reg 4 int) s'"
  by (rule filterServiceMapStream_exact [OF example_reg_ok example_codec_reads])

section \<open>What a client learns\<close>

text \<open>
  The namespaces an event tells its reader about, one set for each item that names them; the
  ends of a link are named through the services announced before.
\<close>

definition disclosed :: "(string \<Rightarrow> string option) \<Rightarrow> ui_event \<Rightarrow> string set set" where
  "disclosed K ev =
    (case ev_case ev of
       Some (Event_Flow f) \<Rightarrow> {{source_namespace f, destination_namespace f}}
     | Some (Event_Flows b) \<Rightarrow>
         (\<lambda>f. {source_namespace (Some f), destination_namespace (Some f)}) ` set (batch_flows b)
     | Some (Event_NamespaceState n) \<Rightarrow> {{state_namespace n}}
     | Some (Event_ServiceState st) \<Rightarrow> {{service_namespace (state_service st)}}
     | Some (Event_ServiceLinkState st) \<Rightarrow>
         {{n. K (link_source (state_link st)) = Some n \<or> K (link_destination (state_link st)) = Some n}}
     | _ \<Rightarrow> {})"

lemma admit_disclosed_strict:
  assumes "admit p S K P ev = Some ev'" and "requireBoth p"
  shows "disclosed K ev' \<subseteq> Pow (insert [] S)"
  using assms
  by (auto simp: admit_def disclosed_def Let_def pair_admitted_def trimmed_def batch_flows_def
      split: if_splits option.splits event_case.splits)

definition peer_event :: "(string \<Rightarrow> bool) \<Rightarrow> ui_event \<Rightarrow> bool" where
  "peer_event P ev =
    (case ev_case ev of
       Some (Event_ServiceState st) \<Rightarrow> P (service_id (state_service st)) | _ \<Rightarrow> False)"

lemma admit_disclosed_lenient:
  assumes "admit p S K P ev = Some ev'"
  shows "disclosed K ev' \<subseteq> {u. u \<inter> S \<noteq> {}} \<or> \<not> requireBoth p \<and> peer_event P ev'"
proof (cases "ev_case ev")
  case (Some k)
  show ?thesis
  proof (cases k)
    case (Event_Flows b)
    with Some assms show ?thesis
      by (cases b) (auto simp: admit_def disclosed_def trimmed_def batch_flows_def Let_def
          pair_admitted_def split: if_splits)
  next
    case (Event_ServiceLinkState st)
    with Some assms show ?thesis
      by (auto simp: admit_def disclosed_def Let_def pair_admitted_def split: if_splits)
  next
    case (Event_ServiceState st)
    with Some assms show ?thesis
      by (auto simp: admit_def disclosed_def Let_def peer_event_def split: if_splits)
  qed (use Some assms in \<open>auto simp: admit_def disclosed_def Let_def pair_admitted_def
        split: if_splits\<close>)
qed (use assms in \<open>simp add: admit_def\<close>)

lemma filterServiceMapStream_read_back:
  assumes "reg_ok s" and "codec_reads_back cd"
    and "filterServiceMapStream cd p c body sc s = (Inr out, s')"
  obtains resp where "unmarshal_events cd body = Inr resp"
    and "unmarshal_events cd out = Inr (resp\<lparr>er_events := served_events p c sc s (er_events resp)\<rparr>)"
    and "known s' c = judged_known c (er_events resp) s"
    and "peers s' c = judged_peers p c sc (er_events resp) s"
proof (cases "unmarshal_events cd body")
  case (Inl e)
  with assms(3) show ?thesis by (simp add: filterServiceMapStream_def)
next
  case (Inr resp)
  from filterServiceMapStream_spec [OF assms(1) Inr, where p = p and c = c and sc = sc] assms(3)
  have "marshal_events cd (resp\<lparr>er_events := served_events p c sc s (er_events resp)\<rparr>) = Inr out"
    and "known s' c = judged_known c (er_events resp) s"
    and "peers s' c = judged_peers p c sc (er_events resp) s"
    by auto
  with that [OF Inr] assms(2) show ?thesis by (simp add: codec_reads_back_def)
qed

lemma map_filter_obtain:
  assumes "y \<in> set (List.map_filter f xs)"
  obtains x where "x \<in> set xs" and "f x = Some y"
  using assms by (auto simp: List.map_filter_def)

lemma service_map_strict:
  assumes "reg_ok s" and "codec_reads_back cd" and strict: "requireBoth p"
    and "filterServiceMapStream cd p c body sc s = (Inr out, s')"
  shows "\<exists>resp. unmarshal_events cd out = Inr resp
    \<and> (\<Union>ev \<in> set (er_events resp). \<Union>(disclosed (known s' c) ev)) \<subseteq> insert [] (scope_set sc)"
proof (rule filterServiceMapStream_read_back [OF assms(1,2,4)])
  fix resp
  assume r: "unmarshal_events cd out
        = Inr (resp\<lparr>er_events := served_events p c sc s (er_events resp)\<rparr>)"
    and k: "known s' c = judged_known c (er_events resp) s"
  have "\<Union>(disclosed (known s' c) ev) \<subseteq> insert [] (scope_set sc)"
    if "ev \<in> set (served_events p c sc s (er_events resp))" for ev
    using that admit_disclosed_strict [OF _ strict] unfolding served_events_def k
    by (fast elim: map_filter_obtain)
  with r show ?thesis by auto
qed

text \<open>
  Strict mode confines: whatever the backend sent, no item of the response the client
  decodes names a namespace outside the caller's scope.
\<close>

theorem strict_mode_confines:
  assumes "reg_ok s" and "codec_reads_back cd" and strict: "requireBoth p"
    and "filterServiceMapStream cd p c body sc s = (Inr out, s')"
  shows "\<exists>resp. unmarshal_events cd out = Inr resp
    \<and> (\<Union>ev \<in> set (er_events resp). \<Union>(disclosed (known s' c) ev)) \<subseteq> insert [] (scope_set sc)"
  by (rule service_map_strict [OF assms])

theorem strict_mode_confines_witness:
  "\<exists>resp. unmarshal_events example_codec [2] = Inr resp
    \<and> (\<Union>ev \<in> set (er_events resp). \<Union>(disclosed (known (snd (filterServiceMapStream example_codec
         (example_proxy True) ''ch'' [1] example_scope (example_reg 4 int))) ''ch'') ev))
      \<subseteq> insert [] (scope_set example_scope)"
  by (rule strict_mode_confines [OF example_reg_ok _ _ prod_eqI, where p = "example_proxy True"])
    (simp_all add: example_filtered example_codec_reads_back example_proxy_both)

text \<open>
  C8. Lenient mode touches the scope: every item the client decodes names a namespace of the
  caller's scope, except for the services recorded as peers, and a service becomes a peer only
  through a link of the batch whose other end is in the scope.
\<close>

theorem lenient_mode_touches_scope:
  assumes "reg_ok s" and "codec_reads_back cd"
    and "filterServiceMapStream cd p c body sc s = (Inr out, s')"
  shows "\<exists>resp resp'. unmarshal_events cd body = Inr resp \<and> unmarshal_events cd out = Inr resp'
    \<and> set (er_events resp') \<subseteq> {ev. disclosed (known s' c) ev \<subseteq> {u. u \<inter> scope_set sc \<noteq> {}}
          \<or> peer_event (peers s' c) ev}
    \<and> {v. peers s' c v} \<subseteq> {v. peers s c v \<or> linked_peer (known s' c) (scope_set sc) (er_events resp) v}"
proof (rule filterServiceMapStream_read_back [OF assms])
  fix resp
  assume b: "unmarshal_events cd body = Inr resp"
    and r: "unmarshal_events cd out
        = Inr (resp\<lparr>er_events := served_events p c sc s (er_events resp)\<rparr>)"
    and k: "known s' c = judged_known c (er_events resp) s"
      "peers s' c = judged_peers p c sc (er_events resp) s"
  have "set (served_events p c sc s (er_events resp)) \<subseteq>
      {ev. disclosed (known s' c) ev \<subseteq> {u. u \<inter> scope_set sc \<noteq> {}} \<or> peer_event (peers s' c) ev}"
    using admit_disclosed_lenient unfolding served_events_def k by (fast elim: map_filter_obtain)
  moreover have "{v. peers s' c v}
      \<subseteq> {v. peers s c v \<or> linked_peer (known s' c) (scope_set sc) (er_events resp) v}"
    by (auto simp: k judged_peers_def batch_peers_def)
  ultimately show ?thesis using b r by auto
qed

theorem lenient_mode_touches_scope_witness:
  "\<exists>resp resp'. unmarshal_events example_codec [1] = Inr resp
    \<and> unmarshal_events example_codec [1] = Inr resp'
    \<and> set (er_events resp') \<subseteq> {ev. disclosed (known (snd (filterServiceMapStream example_codec
          (example_proxy False) ''ch'' [1] example_scope (example_reg 4 int))) ''ch'') ev
            \<subseteq> {u. u \<inter> scope_set example_scope \<noteq> {}}
          \<or> peer_event (peers (snd (filterServiceMapStream example_codec (example_proxy False)
              ''ch'' [1] example_scope (example_reg 4 int))) ''ch'') ev}
    \<and> {v. peers (snd (filterServiceMapStream example_codec (example_proxy False) ''ch'' [1]
            example_scope (example_reg 4 int))) ''ch'' v}
      \<subseteq> {v. peers (example_reg 4 int) ''ch'' v \<or> linked_peer (known (snd (filterServiceMapStream
            example_codec (example_proxy False) ''ch'' [1] example_scope (example_reg 4 int))) ''ch'')
            (scope_set example_scope) (er_events resp) v}"
  by (rule lenient_mode_touches_scope [OF example_reg_ok _ prod_eqI])
    (simp_all add: example_filtered example_codec_reads_back)

section \<open>The order of a batch\<close>

text \<open>
  The order in which links and services arrive in a batch does not matter: two batches with
  the same events and the same sequence of announcements are judged by the same decision, event
  by event. In particular a link may precede the services it refers to.
\<close>

theorem batch_order_irrelevant:
  assumes "reg_ok s" and "unmarshal_events cd b1 = Inr (r\<lparr>er_events := evs1\<rparr>)"
    and "unmarshal_events cd b2 = Inr (r\<lparr>er_events := evs2\<rparr>)"
    and "set evs1 = set evs2" and "announcements evs1 = announcements evs2"
  shows "\<exists>decide. fst (filterServiceMapStream cd p c b1 sc s)
        = marshal_events cd (r\<lparr>er_events := List.map_filter decide evs1\<rparr>)
    \<and> fst (filterServiceMapStream cd p c b2 sc s)
        = marshal_events cd (r\<lparr>er_events := List.map_filter decide evs2\<rparr>)"
proof -
  have K: "judged_known c evs1 s = judged_known c evs2 s"
    using assms(5) by (simp add: judged_known_def batch_known_def)
  have "set (List.map_filter event_link evs1) = set (List.map_filter event_link evs2)"
    using assms(4) by (auto simp: List.map_filter_def)
  then have P: "judged_peers p c sc evs1 s = judged_peers p c sc evs2 s"
    by (simp add: judged_peers_def batch_peers_def linked_peer_def K fun_eq_iff)
  show ?thesis
    using filterServiceMapStream_spec [OF assms(1,2), of p c sc]
      filterServiceMapStream_spec [OF assms(1,3), of p c sc]
    by (intro exI [of _ "admit p (scope_set sc) (judged_known c evs1 s) (judged_peers p c sc evs1 s)"])
      (auto simp: served_events_def K P)
qed

theorem batch_order_irrelevant_witness:
  "\<exists>decide. fst (filterServiceMapStream order_codec (example_proxy False) ''ch'' [1] example_scope
        (example_reg 4 int))
      = marshal_events order_codec (example_batch\<lparr>er_events := List.map_filter decide example_events\<rparr>)
    \<and> fst (filterServiceMapStream order_codec (example_proxy False) ''ch'' [2] example_scope
        (example_reg 4 int))
      = marshal_events order_codec (example_batch\<lparr>er_events := List.map_filter decide
          (rotate1 example_events)\<rparr>)"
  by (rule batch_order_irrelevant [OF example_reg_ok])
    (auto simp: order_codec_def table_codec_def table_decode_def example_event_defs announcements_def
      List.map_filter_def event_service_def state_service_def)


section \<open>The control stream\<close>

definition visible_namespaces :: "scope \<Rightarrow> namespace_state list \<Rightarrow> namespace_state list" where
  "visible_namespaces sc ns = filter (\<lambda>n. state_namespace (Some n) \<in> scope_set sc) ns"

lemma keep_namespaces_spec:
  "reg_ok s \<Longrightarrow> keep_namespaces sc ns s = (kept, s') \<Longrightarrow>
     kept = visible_namespaces sc ns \<and> same_memory c s s' \<and> notified s' c = notified s c
     \<and> EmptyScopeNotifications (met s') = EmptyScopeNotifications (met s)"
proof (induction ns arbitrary: s kept)
  case (Cons n ns)
  let ?s1 = "\<lambda>d. count_event ''namespace_state'' d s"
  have s1: "reg_ok (?s1 d)" "same_memory c s (?s1 d)" "notified (?s1 d) c = notified s c"
      "EmptyScopeNotifications (met (?s1 d)) = EmptyScopeNotifications (met s)" for d
    using Cons.prems(1) same_memory_count [of c s _ _ s]
    by (simp_all add: same_memory_def on_channel_def, simp_all add: notified_def count_event_def)
  show ?case
  proof (cases "in_scope sc (state_namespace (Some n))")
    case True
    with Cons.prems obtain kept1 where k: "keep_namespaces sc ns (?s1 ''kept'') = (kept1, s')"
        "kept = n # kept1"
      by (auto split: prod.splits)
    from Cons.IH [OF s1(1) k(1)] s1(3,4) True k(2) same_memory_trans [OF s1(2)] show ?thesis
      by (auto simp: visible_namespaces_def scope_set_def)
  next
    case False
    with Cons.prems have k: "keep_namespaces sc ns (?s1 ''dropped'') = (kept, s')" by simp
    from Cons.IH [OF s1(1) k] s1(3,4) False same_memory_trans [OF s1(2)] show ?thesis
      by (auto simp: visible_namespaces_def scope_set_def)
  qed
qed (simp add: visible_namespaces_def)

lemma on_channel_mark:
  assumes "reg_ok s" and "MarkEmptyScopeNotified c s = (b, s')"
  shows "on_channel c s s'" and "b \<longleftrightarrow> c \<noteq> [] \<and> \<not> notified s c"
    and "EmptyScopeNotifications (met s') = EmptyScopeNotifications (met s)"
proof -
  have "on_channel c s s' \<and> (b \<longleftrightarrow> c \<noteq> [] \<and> \<not> notified s c)
      \<and> EmptyScopeNotifications (met s') = EmptyScopeNotifications (met s)"
  proof (cases "c = []")
    case True
    with assms show ?thesis by simp
  next
    case False
    note spec = MarkEmptyScopeNotified_spec [OF assms(1) False assms(2)]
    from spec(1-4) False show ?thesis
      by (simp add: on_channel_def reg_frame_filter reg_frame_fields(7))
  qed
  then show "on_channel c s s'" and "b \<longleftrightarrow> c \<noteq> [] \<and> \<not> notified s c"
    and "EmptyScopeNotifications (met s') = EmptyScopeNotifications (met s)" by blast+
qed

text \<open>When the notice replaces the list, and what is sent then.\<close>

definition notice_due :: "proxy \<Rightarrow> string \<Rightarrow> scope \<Rightarrow> ('az, 'b) reg_state_scheme \<Rightarrow> bool" where
  "notice_due p c sc s \<longleftrightarrow>
     notifyEmptyScope p \<and> sc_namespaces sc = [] \<and> c \<noteq> [] \<and> \<not> notified s c"

lemma filterControlStream_spec:
  assumes ok: "reg_ok s" and resp: "unmarshal_control cd body = Inr resp"
    and states: "control_namespaces resp = Some states"
    and run: "filterControlStream cd p c body sc i s = (res, s')"
  shows "res = marshal_control cd (if notice_due p c sc s then noPermissionResponse i
        else resp\<lparr>cr_case := Some (Control_Namespaces (Some (states\<lparr>nss_namespaces :=
               visible_namespaces sc (nss_namespaces states)\<rparr>)))\<rparr>)
    \<and> on_channel c s s'
    \<and> EmptyScopeNotifications (met s') = EmptyScopeNotifications (met s) + (if notice_due p c sc s then 1 else 0)"
proof -
  obtain kept s1 where k: "keep_namespaces sc (nss_namespaces states) s = (kept, s1)" by fastforce
  from keep_namespaces_spec [OF ok k, of c] have
    kept: "kept = visible_namespaces sc (nss_namespaces states)" and s1: "on_channel c s s1" "reg_ok s1"
      "notified s1 c = notified s c" "EmptyScopeNotifications (met s1) = EmptyScopeNotifications (met s)"
    by (auto simp: same_memory_def on_channel_def)
  show ?thesis
  proof (cases "notifyEmptyScope p \<and> sc_namespaces sc = []")
    case False
    with resp states run k kept s1 show ?thesis
      by (auto simp: filterControlStream_def notice_due_def)
  next
    case True
    obtain b s2 where m: "MarkEmptyScopeNotified c s1 = (b, s2)" by fastforce
    note mark = on_channel_mark [OF s1(2) m]
    have s2: "on_channel c s s2" by (rule on_channel_trans [OF s1(1) mark(1)])
    have "b \<longleftrightarrow> notice_due p c sc s" using True mark(2) s1(3) by (simp add: notice_due_def)
    moreover have "on_channel c s (observe (\<lambda>m. m\<lparr>EmptyScopeNotifications := f m\<rparr>) s2)" for f
      using s2 by (auto simp: on_channel_def reg_ok_def others_kept_def filter_frame_def)
    ultimately show ?thesis
      using resp states run k kept m True s1(4) mark(3) s2
      by (auto simp: filterControlStream_def split: if_splits)
  qed
qed

text \<open>
  C33. The control stream: the namespace picker holds exactly the namespaces in scope, in order;
  a caller without any namespace gets the notice instead, once per channel and only where the
  list would have been empty; other messages pass through unchanged.
\<close>

theorem filterControlStream_exact:
  assumes ok: "reg_ok s" and resp: "unmarshal_control cd body = Inr resp"
  shows "fst (filterControlStream cd p c body sc i s) =
    (case control_namespaces resp of
       None \<Rightarrow> Inr body
     | Some states \<Rightarrow>
         if notice_due p c sc s then marshal_control cd (noPermissionResponse i)
         else marshal_control cd (resp\<lparr>cr_case := Some (Control_Namespaces (Some (states\<lparr>nss_namespaces :=
                visible_namespaces sc (nss_namespaces states)\<rparr>)))\<rparr>))
    \<and> (notice_due p c sc s \<longrightarrow> visible_namespaces sc ns = [])"
proof -
  obtain res s' where run: "filterControlStream cd p c body sc i s = (res, s')" by fastforce
  have "notice_due p c sc s \<longrightarrow> visible_namespaces sc ns = []"
    by (simp add: notice_due_def visible_namespaces_def scope_set_def)
  with resp run filterControlStream_spec [OF ok resp _ run] show ?thesis
    by (cases "control_namespaces resp") (auto simp: filterControlStream_def)
qed

definition example_control :: control_response where
  "example_control = \<lparr>cr_case = Some (Control_Namespaces (Some \<lparr>nss_namespaces =
      map (\<lambda>n. \<lparr>nst_namespace = Some \<lparr>nd_name = n, nd_rest = []\<rparr>, nst_rest = []\<rparr>) [''db'', ''pay''],
      nss_rest = []\<rparr>)), cr_rest = []\<rparr>"

definition example_identity :: identity where
  "example_identity = \<lparr>id_user = ''bob'', id_email = ''bob@example.com'', id_groups = [''team'']\<rparr>"

theorem filterControlStream_exact_witness:
  "fst (filterControlStream (table_codec [(example_control, [1])] [] []) (example_proxy True) ''ch'' [1]
      example_scope example_identity (example_reg 4 int)) =
    marshal_control (table_codec [(example_control, [1])] [] [])
      (example_control\<lparr>cr_case := Some (Control_Namespaces (Some \<lparr>nss_namespaces =
         [\<lparr>nst_namespace = Some \<lparr>nd_name = ''pay'', nd_rest = []\<rparr>, nst_rest = []\<rparr>], nss_rest = []\<rparr>))\<rparr>)"
proof -
  have "unmarshal_control (table_codec [(example_control, [1])] [] []) [1] = Inr example_control"
    by (simp add: table_codec_def table_decode_def)
  from filterControlStream_exact [OF example_reg_ok this, of "example_proxy True" "''ch''" example_scope
      example_identity] show ?thesis
    by (simp add: control_namespaces_def example_control_def notice_due_def example_scope_def
        visible_namespaces_def state_namespace_def scope_set_def get_bool_def)
qed

definition notice_text :: "identity \<Rightarrow> string" where
  "notice_text i =
    (case cr_case (noPermissionResponse i) of
       Some (Control_Notification (NoPermission _ e)) \<Rightarrow> e | _ \<Rightarrow> [])"

lemma length_join_with:
  "length (join_with sep gs) \<le> sum_list (map length gs) + length gs * length sep"
  by (induction sep gs rule: join_with.induct) auto

lemma length_joined_groups:
  "length (join_with '', '' (take 8 gs)) \<le> sum_list (map length (take 8 gs)) + 16"
  using length_join_with [of "'', ''" "take 8 gs"] by simp

text \<open>
  The notice is bounded: however many groups a caller presents, its text is made of a fixed
  part, the caller's name and at most eight groups.
\<close>

theorem notice_bounded:
  "length (notice_text i) \<le> 240 + length (cmp_or (id_email i) (id_user i))
     + sum_list (map length (take 8 (id_groups i)))
   \<and> notice_text i = notice_text (i\<lparr>id_groups := take 9 (id_groups i)\<rparr>)"
proof
  show "length (notice_text i) \<le> 240 + length (cmp_or (id_email i) (id_user i))
     + sum_list (map length (take 8 (id_groups i)))"
    using length_joined_groups [of "id_groups i"]
    by (auto simp: notice_text_def noPermissionResponse_def Let_def ellipsis_suffix_def)
  show "notice_text i = notice_text (i\<lparr>id_groups := take 9 (id_groups i)\<rparr>)"
    by (simp add: notice_text_def noPermissionResponse_def Let_def min_def)
qed

section \<open>Isolation and accounting\<close>

lemma filterBody_on_channel:
  assumes ok: "reg_ok s" and run: "filterBody cd p route c body sc i s = (res, s')"
  shows "on_channel c s s'"
proof -
  have control: "on_channel c s s'" if "filterControlStream cd p c body sc i s = (res, s')"
  proof (cases "unmarshal_control cd body")
    case (Inl e)
    with that ok show ?thesis by (simp add: filterControlStream_def)
  next
    case (Inr resp)
    with that ok filterControlStream_spec [OF ok Inr _ that] show ?thesis
      by (cases "control_namespaces resp") (auto simp: filterControlStream_def)
  qed
  have map: "on_channel c s s'" if "filterServiceMapStream cd p c body sc s = (res, s')"
  proof (cases "unmarshal_events cd body")
    case (Inl e)
    with that ok show ?thesis by (simp add: filterServiceMapStream_def)
  next
    case (Inr resp)
    from filterServiceMapStream_spec [OF ok Inr, of p c sc] that show ?thesis by auto
  qed
  from run ok control map show ?thesis by (auto simp: filterBody_def split: if_splits)
qed

text \<open>
  Filtering one client's response touches nothing of the others: every other channel keeps
  its memory or is dropped whole, the registry's configuration, the authorizer's state and the
  request counters stay as they are, and the registry's invariant is kept.
\<close>

theorem filterBody_isolated:
  assumes "reg_ok s" and "filterBody cd p route c body sc i s = (res, s')" and "k \<noteq> c"
  shows "view s' k \<in> {view s k, fresh_channel} \<and> reg_ok s' \<and> auth s' = auth s
    \<and> max_channels (services s') = max_channels (services s)
    \<and> RequestsTotal (met s') = RequestsTotal (met s)"
  using filterBody_on_channel [OF assms(1,2)] others_kept_view [OF _ assms(3), of s s']
  by (auto simp: on_channel_def filter_frame_def)

theorem filterBody_isolated_witness:
  "view (snd (filterBody example_codec (example_proxy False) routeServiceMapStre ''ch'' [1] example_scope
      example_identity (example_reg 4 int))) ''other''
     \<in> {view (example_reg 4 int) ''other'', fresh_channel}"
  using filterBody_isolated [OF example_reg_ok prod.collapse [symmetric], of "''other''" "''ch''"]
  by blast

text \<open>The counters a batch moves: its events by kind, split by the decision.\<close>

lemma admit_kind: "admit p S K P ev = Some e \<Longrightarrow> eventKind e = eventKind ev"
  by (cases "ev_case ev")
    (auto simp: admit_def Let_def trimmed_def eventKind_def split: if_splits event_case.splits)

lemma eventKind_known: "eventKind ev \<in> set eventKinds"
  by (auto simp: eventKind_def eventKinds_def split: option.split event_case.split)

definition of_kind :: "string \<Rightarrow> ui_event list \<Rightarrow> nat" where
  "of_kind k evs = length (filter (\<lambda>e. eventKind e = k) evs)"

definition counted :: "metrics \<Rightarrow> string \<Rightarrow> string \<Rightarrow> nat" where
  "counted m k d = vec_value (EventsTotal m) [k, d]"

lemma counted_count_event [simp]:
  "counted (met (count_event k d s)) k' d' = counted (met s) k' d' + (if k' = k \<and> d' = d then 1 else 0)"
  "series (EventsTotal (met (count_event k d s))) = insert [k, d] (series (EventsTotal (met s)))"
  by (auto simp: counted_def count_event_def vec_value_inc)

lemma keep_events_counts:
  assumes "reg_ok s" and "keep_events p c sc evs s = (kept, s')"
  shows "counted (met s') k ''kept'' = counted (met s) k ''kept'' + of_kind k kept
    \<and> counted (met s') k ''kept'' + counted (met s') k ''dropped'' =
        counted (met s) k ''kept'' + counted (met s) k ''dropped'' + of_kind k evs
    \<and> series (EventsTotal (met s')) \<subseteq> series (EventsTotal (met s)) \<union> event_labels"
  using assms
proof (induction evs arbitrary: s kept)
  case (Cons ev evs)
  obtain r s1 where v: "eventVisible p c ev sc s = (r, s1)" by fastforce
  note step = eventVisible_admit [OF Cons.prems(1) v]
  let ?s2 = "\<lambda>d. count_event (eventKind ev) d s1"
  have ok2: "reg_ok (?s2 d)" for d
    using step(2) by (simp add: same_memory_def on_channel_def count_event_def reg_ok_def)
  have lab: "[eventKind ev, ''kept''] \<in> event_labels" "[eventKind ev, ''dropped''] \<in> event_labels"
    using eventKind_known [of ev] by (simp_all add: event_labels_def)
  have same: "counted (met s1) k d = counted (met s) k d" for d using step(3) by (simp add: counted_def)
  show ?case
  proof (cases r)
    case None
    with Cons.prems v have "keep_events p c sc evs (?s2 ''dropped'') = (kept, s')" by simp
    from Cons.IH [OF ok2 this] lab step(3) show ?thesis
      by (auto simp: same of_kind_def split: if_splits)
  next
    case (Some e)
    obtain kept1 where k: "keep_events p c sc evs (?s2 ''kept'') = (kept1, s')" "kept = e # kept1"
      using Cons.prems v Some by (auto split: prod.splits)
    from step(1) Some admit_kind have "eventKind e = eventKind ev" by metis
    with Cons.IH [OF ok2 k(1)] lab step(3) show ?thesis
      by (auto simp: same of_kind_def k(2) split: if_splits)
  qed
qed (simp add: of_kind_def)

lemma learn_services_events: "reg_ok s \<Longrightarrow> EventsTotal (met (learn_services c evs s)) = EventsTotal (met s)"
proof (induction c evs s rule: learn_services.induct)
  case (2 c ev evs s)
  have "EventsTotal (met (Remember c v n s)) = EventsTotal (met s)" for v n
    using Remember_spec [OF "2.prems", of c v n] reg_frame_fields(5)
    by (cases "c = [] \<or> v = []") (auto simp: Remember_ignored)
  with "2.IH" "2.prems" ok_Remember [OF "2.prems"] show ?case by (auto split: option.split)
qed simp

lemma RememberPeer_events: "reg_ok s \<Longrightarrow> EventsTotal (met (RememberPeer c v s)) = EventsTotal (met s)"
  using RememberPeer_spec [of s c v] reg_frame_fields(5)
  by (cases "c = [] \<or> v = []") (auto simp: RememberPeer_ignored)

lemma learn_peers_events: "reg_ok s \<Longrightarrow> EventsTotal (met (learn_peers c sc evs s)) = EventsTotal (met s)"
proof (induction evs arbitrary: s)
  case (Cons ev evs)
  show ?case
  proof (cases "event_link ev")
    case None
    with Cons show ?thesis by simp
  next
    case (Some link)
    obtain a s1 where l1: "Lookup c (sl_source_id link) s = (a, s1)" by fastforce
    obtain b s2 where l2: "Lookup c (sl_destination_id link) s1 = (b, s2)" by fastforce
    from Lookup_twice(3,4) [OF Cons.prems l1 l2] have s2: "reg_ok s2" "EventsTotal (met s2) = EventsTotal (met s)"
      by (simp_all add: same_memory_def on_channel_def)
    with Some l1 l2 show ?thesis
      by (simp add: Let_def Cons.IH RememberPeer_events ok_RememberPeer split: option.split)
  qed
qed simp

text \<open>
  Every event of a service-map response is counted once, under its kind and the decision
  actually taken, and no series is ever reported that was not exported at start-up.
\<close>

theorem service_map_accounting:
  assumes ok: "reg_ok s" and resp: "unmarshal_events cd body = Inr resp"
    and labels: "series (EventsTotal (met s)) \<subseteq> event_labels"
    and run: "filterServiceMapStream cd p c body sc s = (res, s')"
  shows "counted (met s') k ''kept'' = counted (met s) k ''kept'' + of_kind k (served_events p c sc s (er_events resp))
    \<and> counted (met s') k ''kept'' + counted (met s') k ''dropped'' =
        counted (met s) k ''kept'' + counted (met s) k ''dropped'' + of_kind k (er_events resp)
    \<and> series (EventsTotal (met s')) \<subseteq> event_labels"
proof -
  let ?s1 = "learned p c sc (er_events resp) s"
  obtain kept s2 where k: "keep_events p c sc (er_events resp) ?s1 = (kept, s2)" by fastforce
  have s2: "s2 = s'" using run by (simp add: filterServiceMapStream_learned [where p = p, OF resp] k)
  note l = learned_spec [OF ok, where p = p and c = c and sc = sc and evs = "er_events resp"]
  have ok1: "reg_ok ?s1" using l(1) by (simp add: on_channel_def)
  have ok': "reg_ok (learn_services c (er_events resp) s)"
    using learn_services_on_channel [OF ok] by (simp add: on_channel_def)
  have "EventsTotal (met ?s1) = EventsTotal (met s)"
    by (simp add: learned_def Let_def learn_services_events [OF ok] learn_peers_events [OF ok'])
  moreover have "kept = served_events p c sc s (er_events resp)"
    using keep_events_admit [OF ok1 k] l by (simp add: served_events_def judged_known_def judged_peers_def)
  ultimately show ?thesis
    using keep_events_counts [OF ok1 k, of k] labels by (auto simp: s2 counted_def)
qed


theorem service_map_accounting_witness:
  "counted (met (snd (filterServiceMapStream example_codec (example_proxy True) ''ch'' [1] example_scope
      (example_reg 4 int)))) ''service_state'' ''kept'' = 1"
proof -
  have "served_events (example_proxy True) ''ch'' example_scope (example_reg 4 int) (er_events example_batch)
      = [service_event ''a'' ''pay'']"
    by (simp add: served_events_def judged_known_def judged_peers_def batch_known_def batch_peers_def
        List.map_filter_def admit_def example_event_defs announcements_def mem.overlay_def scope_set_def
        example_scope_def get_bool_def event_service_def state_service_def state_link_def link_source_def
        link_destination_def service_namespace_def example_proxy_def pair_admitted_def)
  moreover have "series (EventsTotal (met (example_reg 4 int))) \<subseteq> event_labels"
    "counted (met (example_reg 4 int)) ''service_state'' ''kept'' = 0"
    by (simp_all add: example_reg_def fresh_metrics_def series_def counted_def vec_value_def)
  ultimately show ?thesis
    using service_map_accounting [OF example_reg_ok example_codec_reads _ prod.collapse [symmetric],
        of 4 int "example_proxy True" "''ch''" example_scope "''service_state''"]
    by (simp add: of_kind_def service_event_def eventKind_def)
qed

section \<open>Two consequences worth knowing\<close>

text \<open>
  A peer outlives the scope that made it one: once a service is recorded as a peer on a
  channel, lenient mode serves its announcement there to a caller of any scope, also one whose
  access to the other end of the link has been revoked in the meantime.
\<close>

theorem peer_outlives_scope:
  assumes "reg_ok s" and "\<not> requireBoth p" and "IsPeer c v s" and "event_service ev = Some svc"
    and "sv_id svc = v"
  shows "fst (eventVisible p c ev sc s) = Some ev"
proof -
  from assms(4) obtain st where st: "ev_case ev = Some (Event_ServiceState st)" "state_service st = Some svc"
    by (auto simp: event_service_def split: option.splits event_case.splits)
  with assms(2,3,5) show ?thesis
    by (simp add: eventVisible_def Let_def service_id_def)
qed

theorem peer_outlives_scope_witness:
  "fst (eventVisible (example_proxy False) ''ch'' (service_event ''b'' ''db'') empty_scope
     (snd (filterServiceMapStream example_codec (example_proxy False) ''ch'' [1] example_scope
        (example_reg 4 int)))) = Some (service_event ''b'' ''db'')"
proof (rule peer_outlives_scope [where svc = "\<lparr>sv_id = ''b'', sv_namespace = ''db'', sv_rest = []\<rparr>"])
  show "reg_ok (snd (filterServiceMapStream example_codec (example_proxy False) ''ch'' [1] example_scope
        (example_reg 4 int)))"
    by (rule filterServiceMapStream_ok [OF example_reg_ok example_codec_reads])
  show "IsPeer ''ch'' ''b'' (snd (filterServiceMapStream example_codec (example_proxy False) ''ch'' [1]
      example_scope (example_reg 4 int)))"
    by code_simp
qed (simp_all add: example_proxy_def service_event_def event_service_def state_service_def)

text \<open>
  In strict mode the two directions of traffic to the outside are treated differently: a
  flow between a namespace in scope and an endpoint without a namespace is served, while the
  service without a namespace that a link to it ends in is dropped, for every scope that does
  not list the empty name.
\<close>

theorem strict_mode_drops_world_service:
  assumes "requireBoth p" and "n \<noteq> []" and "in_scope sc n" and "\<not> in_scope sc []"
    and "source_namespace (Some f) = n" and "destination_namespace (Some f) = []"
  shows "fst (eventVisible p c \<lparr>ev_case = Some (Event_Flow (Some f)), ev_rest = r\<rparr> sc s)
      = Some \<lparr>ev_case = Some (Event_Flow (Some f)), ev_rest = r\<rparr>
    \<and> fst (eventVisible p c (service_event v []) sc s) = None"
  using assms
  by (simp add: eventVisible_def Let_def flowVisible_def namespacePairVisible_def service_event_def
      state_service_def service_namespace_def)

theorem strict_mode_drops_world_service_witness:
  "fst (eventVisible (example_proxy True) ''ch'' \<lparr>ev_case = Some (Event_Flow (Some
        \<lparr>fl_source = Some \<lparr>ep_namespace = ''pay'', ep_rest = []\<rparr>, fl_destination = None, fl_rest = []\<rparr>)),
        ev_rest = []\<rparr> example_scope (example_reg 4 int)) =
     Some \<lparr>ev_case = Some (Event_Flow (Some
        \<lparr>fl_source = Some \<lparr>ep_namespace = ''pay'', ep_rest = []\<rparr>, fl_destination = None, fl_rest = []\<rparr>)),
        ev_rest = []\<rparr>
   \<and> fst (eventVisible (example_proxy True) ''ch'' (service_event ''world'' []) example_scope
       (example_reg 4 int)) = None"
  by (rule strict_mode_drops_world_service [where n = "''pay''"])
    (simp_all add: example_proxy_def example_scope_def get_bool_def source_namespace_def
      destination_namespace_def)

end
