(* ===== verification/Filter_Steps_Laws.thy ===== *)
theory Filter_Steps_Laws
  imports Filter_Steps Ui_Filter_Properties
begin

text \<open>
  The steps of \<open>Filter_Steps\<close> taken in a row are the filters of \<open>Ui_Filter\<close> and \<open>Proxy_Handler\<close>, and
  each of them keeps what a filter keeps.
\<close>

section \<open>The steps in a row\<close>

lemma conclude_work: "work cd p c sc i st s = (st', s') \<Longrightarrow> conclude cd p c sc i st s = conclude cd p c sc i st' s'"
  using conclude_eq [of st cd p c sc i s]
  by (cases "steps_to_go st = 0") (auto simp: steps_to_go_0 simp del: work.simps(1-11))

lemma conclude_decide:
  "conclude cd p c sc i (Keeping resp (ev # evs) kept) s =
    (let (d, s1) = eventVisible p c ev sc s; (st, s2) = decide resp evs kept ev d s1
     in conclude cd p c sc i st s2)"
proof (cases "\<exists>st. ev_case ev = Some (Event_ServiceLinkState st)")
  case True
  then obtain st where st: "ev_case ev = Some (Event_ServiceLinkState st)" ..
  then show ?thesis
    by (simp add: conclude_eq [of "Keeping resp (ev # evs) kept"] conclude_eq [of "Keeping_Destination _ _ _ _ _"]
        eventVisible_def Let_def split: prod.split option.split)
next
  case False
  then show ?thesis
    by (simp add: conclude_eq [of "Keeping resp (ev # evs) kept"] Let_def
        split: prod.split option.split event_case.split)
qed

lemma conclude_Keeping:
  "conclude cd p c sc i (Keeping resp evs kept) s =
    (let (more, s) = keep_events p c sc evs s in (marshal_events cd (resp\<lparr>er_events := kept @ more\<rparr>), s))"
proof (induction evs arbitrary: kept s)
  case Nil
  show ?case by (simp add: conclude_eq)
next
  case (Cons ev evs)
  show ?case by (auto simp: conclude_decide decide_def Cons.IH split: prod.split option.split)
qed

lemma conclude_Pairing:
  "conclude cd p c sc i (Pairing resp evs) s =
    conclude cd p c sc i (Keeping resp (er_events resp) []) (learn_peers c sc evs s)"
proof (induction evs arbitrary: s)
  case Nil
  show ?case by (simp add: conclude_eq [of "Pairing resp []"])
next
  case (Cons ev evs)
  show ?case
  proof (cases "event_link ev")
    case None
    with Cons show ?thesis by (simp add: conclude_eq [of "Pairing resp (ev # evs)"])
  next
    case (Some link)
    obtain a s1 where a: "Lookup c (sl_source_id link) s = (a, s1)" by fastforce
    obtain b s2 where b: "Lookup c (sl_destination_id link) s1 = (b, s2)" by fastforce
    have "conclude cd p c sc i (Pairing resp (ev # evs)) s
        = conclude cd p c sc i (Pairing_Destination resp evs link a) s1"
      by (rule conclude_work) (simp add: Some a)
    also have "\<dots> = (case (a, b) of
        (Some x, Some y) \<Rightarrow> conclude cd p c sc i (Peering resp evs link x y) s2
      | _ \<Rightarrow> conclude cd p c sc i (Pairing resp evs) s2)"
      using b by (subst conclude_eq) (simp_all split: option.split)
    also have "\<dots> = conclude cd p c sc i (Keeping resp (er_events resp) []) (learn_peers c sc (ev # evs) s)"
      using Some a b Cons.IH by (simp add: conclude_eq [of "Peering _ _ _ _ _"] Let_def split: option.split)
    finally show ?thesis .
  qed
qed

lemma conclude_Learning:
  "conclude cd p c sc i (Learning resp evs) s =
    conclude cd p c sc i (if requireBoth p then Keeping resp (er_events resp) [] else Pairing resp (er_events resp))
      (learn_services c evs s)"
proof (induction evs arbitrary: s)
  case Nil
  show ?case by (simp add: conclude_eq [of "Learning resp []"])
next
  case (Cons ev evs)
  then show ?case by (simp add: conclude_eq [of "Learning resp (ev # evs)"] split: option.split)
qed

lemma conclude_Picking:
  "unmarshal_control cd body = Inr resp \<Longrightarrow> control_namespaces resp = Some states \<Longrightarrow>
    conclude cd p c sc i (Picking resp states) s = filterControlStream cd p c body sc i s"
  by (simp add: conclude_eq [of "Picking resp states"] conclude_eq [of "Noticing _ _ _"]
      filterControlStream_def Let_def split: prod.split)

lemma conclude_body:
  "conclude cd p c sc i (open_body cd route body) s = filterBody cd p route c body sc i s"
proof -
  have map: "conclude cd p c sc i (Learning resp (er_events resp)) s = filterServiceMapStream cd p c body sc s"
    if "unmarshal_events cd body = Inr resp" for resp
    using that by (simp add: conclude_Learning conclude_Pairing conclude_Keeping filterServiceMapStream_def Let_def)
  show ?thesis
    using map conclude_Picking [of cd body _ _ p c sc i s]
    by (auto simp: open_body_def filterBody_def filterControlStream_def filterServiceMapStream_def
        split: sum.split option.split)
qed

lemma filterResponse_steps:
  "filterResponse cd p r (Some info) up s =
    (case open_response cd p r (Some info) up of
       Handled res \<Rightarrow> (res, s)
     | Handling msg st \<Rightarrow>
         let (body, s) = conclude cd p (message_channel msg) (ri_scope info) (ri_id info) st s
         in (close_response cd up msg body, s))"
  by (simp add: filterResponse_def open_response_def close_response_def conclude_body Let_def
      split: sum.split prod.split)

text \<open>How many steps of its own a request still has before it.\<close>

fun handle_left :: "handling \<Rightarrow> nat" where
  "handle_left (Handling msg st) = Suc (steps_to_go st)"
| "handle_left (Handled res) = 0"

lemma handle_run:
  "handle_left (Handling msg st) \<le> n \<Longrightarrow>
    ((\<lambda>(h, s). handle_step cd p info up h s) ^^ n) (Handling msg st, s) =
      (let (body, s) = conclude cd p (message_channel msg) (ri_scope info) (ri_id info) st s
       in (Handled (close_response cd up msg body), s))"
proof (induction n arbitrary: st s)
  case (Suc n)
  let ?step = "\<lambda>(h, s). handle_step cd p info up h s"
  show ?case
  proof (cases "steps_to_go st = 0")
    case True
    then obtain r where st: "st = Filtered r" by (auto simp: steps_to_go_0)
    have stays: "(?step ^^ m) (Handled res, t) = (Handled res, t)" for m res t
      by (induction m) simp_all
    show ?thesis unfolding st funpow_Suc_right comp_apply by (simp add: stays)
  next
    case False
    obtain st' s' where w: "work cd p (message_channel msg) (ri_scope info) (ri_id info) st s = (st', s')"
      by fastforce
    from work_progress [OF False, of cd p "message_channel msg" "ri_scope info" "ri_id info" s] w Suc.prems
    have "handle_left (Handling msg st') \<le> n" by simp
    note rest = Suc.IH [OF this, of s']
    have "?step (Handling msg st, s) = (Handling msg st', s')"
      using False w by (cases st) (simp_all del: work.simps)
    then show ?thesis
      unfolding funpow_Suc_right comp_apply by (simp only: rest conclude_work [OF w])
  qed
qed simp

section \<open>What a step keeps\<close>

lemma same_on_channel: "same_memory c s s' \<Longrightarrow> on_channel c s s' \<and> known s' c = known s c \<and> peers s' c = peers s c"
  by (simp add: same_memory_def)

lemma same_memory_decide: "decide resp evs kept ev d s1 = (st, s') \<Longrightarrow> same_memory c s s1 \<Longrightarrow> same_memory c s s'"
  by (auto simp: decide_def split: option.splits)

text \<open>Which service a step announces, and which peer it records.\<close>

fun step_announces :: "stage \<Rightarrow> (string \<times> string) set" where
  "step_announces (Learning resp (ev # evs)) =
    (case event_service ev of None \<Rightarrow> {} | Some svc \<Rightarrow> {(sv_id svc, sv_namespace svc)})"
| "step_announces _ = {}"

fun step_pairs :: "string set \<Rightarrow> stage \<Rightarrow> string set" where
  "step_pairs S (Peering resp evs link a b) =
    (if a \<in> S \<and> b \<notin> S then {sl_destination_id link}
     else if b \<in> S \<and> a \<notin> S then {sl_source_id link} else {})"
| "step_pairs S _ = {}"

lemma mark_same:
  assumes "reg_ok s" and m: "MarkEmptyScopeNotified c s = (b, s')"
  shows "same_memory c s s'"
proof (cases "c = []")
  case True
  with assms show ?thesis by (simp add: MarkEmptyScopeNotified_def)
next
  case False
  from MarkEmptyScopeNotified_spec [OF assms(1) False m] show ?thesis
    by (auto simp: same_memory_def on_channel_def reg_frame_filter known_def peers_def dest!: view_Some)
qed

lemma work_keeps:
  assumes ok: "reg_ok s" and w: "work cd p c sc i st s = (st', s')"
  shows "on_channel c s s'
    \<and> {(v, n). known s' c v = Some n} \<subseteq> {(v, n). known s c v = Some n} \<union> step_announces st
    \<and> {v. peers s' c v} \<subseteq> {v. peers s c v} \<union> step_pairs (scope_set sc) st"
proof -
  have same: ?thesis if "same_memory c s s'"
    using same_on_channel [OF that] by auto
  show ?thesis
  proof (cases st)
    case (Picking resp states)
    obtain kept s1 where k: "keep_namespaces sc (nss_namespaces states) s = (kept, s1)" by fastforce
    from keep_namespaces_spec [OF ok k] w Picking k show ?thesis
      by (intro same) (auto split: if_splits)
  next
    case (Noticing resp states kept)
    obtain b s1 where m: "MarkEmptyScopeNotified c s = (b, s1)" by fastforce
    from mark_same [OF ok m] have "same_memory c s (observe f s1)
        = same_memory c s s1" if "\<And>m. RequestsTotal (f m) = RequestsTotal m \<and> RequestDuration (f m) = RequestDuration m
        \<and> TrackedChannels (f m) = TrackedChannels m" for f
      using that by (auto simp: same_memory_def on_channel_def reg_ok_def others_kept_def filter_frame_def)
    with mark_same [OF ok m] w Noticing m show ?thesis
      by (intro same) (auto split: if_splits)
  next
    case (Learning resp evs)
    show ?thesis
    proof (cases "\<exists>ev rest svc. evs = ev # rest \<and> event_service ev = Some svc")
      case True
      then obtain ev rest svc where e: "evs = ev # rest" "event_service ev = Some svc" by blast
      with w Learning have s': "s' = Remember c (sv_id svc) (sv_namespace svc) s" by auto
      from on_channel_Remember [OF ok] Remember_known [OF ok] Learning e show ?thesis
        unfolding s' by (auto split: if_splits)
    next
      case False
      with w Learning have "s' = s" by (cases evs) (auto split: option.splits)
      with ok show ?thesis by (intro same) simp
    qed
  next
    case (Pairing resp evs)
    show ?thesis
    proof (cases "\<exists>ev rest link. evs = ev # rest \<and> event_link ev = Some link")
      case True
      then obtain ev rest link where e: "evs = ev # rest" "event_link ev = Some link" by blast
      obtain a s1 where l: "Lookup c (sl_source_id link) s = (a, s1)" by fastforce
      from Lookup_same(2) [OF ok l] w Pairing e l show ?thesis by (intro same) simp
    next
      case False
      with w Pairing have "s' = s" by (cases evs) (auto split: option.splits)
      with ok show ?thesis by (intro same) simp
    qed
  next
    case (Pairing_Destination resp evs link a)
    obtain b s1 where l: "Lookup c (sl_destination_id link) s = (b, s1)" by fastforce
    from Lookup_same(2) [OF ok l] w Pairing_Destination l show ?thesis
      by (intro same) (auto split: option.splits)
  next
    case (Peering resp evs link a b)
    have S: "get_bool (sc_namespaces sc) n \<longleftrightarrow> n \<in> scope_set sc" for n by (simp add: scope_set_def)
    from w Peering on_channel_RememberPeer [OF ok] RememberPeer_known [OF ok] ok show ?thesis
      by (auto simp: S split: if_splits)
  next
    case (Keeping resp evs kept)
    show ?thesis
    proof (cases evs)
      case Nil
      with w Keeping ok show ?thesis by (intro same) simp
    next
      case (Cons ev rest)
      show ?thesis
      proof (cases "\<exists>l. ev_case ev = Some (Event_ServiceLinkState l)")
        case True
        then obtain l where l: "ev_case ev = Some (Event_ServiceLinkState l)" ..
        obtain a s1 where lk: "Lookup c (link_source (state_link l)) s = (a, s1)" by fastforce
        from Lookup_same(2) [OF ok lk] w Keeping Cons l lk show ?thesis by (intro same) simp
      next
        case False
        obtain d s1 where v: "eventVisible p c ev sc s = (d, s1)" by fastforce
        from False w Keeping Cons v have "decide resp rest kept ev d s1 = (st', s')"
          by (auto split: option.splits event_case.splits)
        from same_memory_decide [OF this eventVisible_admit(2) [OF ok v]] show ?thesis by (rule same)
      qed
    qed
  next
    case (Keeping_Destination resp evs kept ev a)
    let ?link = "case ev_case ev of Some (Event_ServiceLinkState st) \<Rightarrow> state_link st | _ \<Rightarrow> None"
    obtain b s1 where l: "Lookup c (link_destination ?link) s = (b, s1)" by fastforce
    with w Keeping_Destination obtain d where "decide resp evs kept ev d s1 = (st', s')"
      by (auto simp: Let_def)
    from same_memory_decide [OF this Lookup_same(2) [OF ok l]] show ?thesis by (rule same)
  next
    case (Filtered r)
    with w ok show ?thesis by (intro same) simp
  qed
qed

end
