(* ===== verification/Static_Authorizer.thy ===== *)
theory Static_Authorizer
  imports Authorizer
begin

text \<open>
  The file-backed authorizer of \<^verbatim>\<open>internal/authz/authz.go\<close>: the mapping, its reload guarded by
  a content digest, the reload loop as a run over the events it selects on, and the
  resolution of a caller. \<^verbatim>\<open>sha256.Sum256\<close> and \<^verbatim>\<open>yaml.Unmarshal\<close> are parameters; what is assumed
  of them is written in the statements that need it.
\<close>

record authz_mapping =
  m_admins :: "string list"
  m_group_to_ns :: "string list gomap"
  m_user_to_ns :: "string list gomap"

record static_authorizer =
  sa_path :: string
  sa_m :: authz_mapping
  sa_sum :: bytes

definition zero_mapping :: authz_mapping where
  "zero_mapping = \<lparr>m_admins = [], m_group_to_ns = [], m_user_to_ns = []\<rparr>"

definition contains :: "string list \<Rightarrow> string \<Rightarrow> bool" where
  "contains list s = (if s = [] then False else list_ex (\<lambda>x. x = s) list)"

section \<open>Loading\<close>

definition reload ::
  "(bytes \<Rightarrow> bytes) \<Rightarrow> (bytes \<Rightarrow> go_error + authz_mapping) \<Rightarrow> go_error + bytes
   \<Rightarrow> (static_authorizer, 'b) auth_state_scheme
   \<Rightarrow> (go_error + bool) \<times> (static_authorizer, 'b) auth_state_scheme" where
  "reload sha256 unmarshal content s =
    (case content of
       Inl e \<Rightarrow> (Inl e, s)
     | Inr b \<Rightarrow>
         let sum = sha256 b in
         if sum = sa_sum (auth s) then (Inr False, s)
         else case unmarshal b of
             Inl e \<Rightarrow> (Inl (Wrapped (''parse '' @ sa_path (auth s)) e), s)
           | Inr m \<Rightarrow> (Inr True, s\<lparr>auth := (auth s)\<lparr>sa_m := m, sa_sum := sum\<rparr>\<rparr>))"

definition NewStaticAuthorizer ::
  "(bytes \<Rightarrow> bytes) \<Rightarrow> (bytes \<Rightarrow> go_error + authz_mapping) \<Rightarrow> string \<Rightarrow> go_error + bytes
   \<Rightarrow> (static_authorizer, 'b) auth_state_scheme
   \<Rightarrow> go_error + (static_authorizer, 'b) auth_state_scheme" where
  "NewStaticAuthorizer sha256 unmarshal path content s =
    (let s = s\<lparr>auth := \<lparr>sa_path = path, sa_m = zero_mapping, sa_sum = replicate 32 0\<rparr>\<rparr>
     in case reload sha256 unmarshal content s of
          (Inl e, _) \<Rightarrow> Inl e
        | (Inr _, s) \<Rightarrow> Inr s)"

text \<open>
  The loop selects between the cancelled context and the ticker; a tick carries what reading
  the file gives at that moment. An empty list of events is the loop blocked in its select.
\<close>

datatype reload_event = Ctx_Done | File_Tick "go_error + bytes"

definition set_last_reload :: "'a go_state_scheme \<Rightarrow> 'a go_state_scheme" where
  "set_last_reload s = (let (t, s) = now s in observe (\<lambda>m. m\<lparr>MappingLastReload := t\<rparr>) s)"

definition count_reload :: "string \<Rightarrow> 'a go_state_scheme \<Rightarrow> 'a go_state_scheme" where
  "count_reload r s = observe (\<lambda>m. m\<lparr>MappingReloads := vec_inc [r] (MappingReloads m)\<rparr>) s"

fun reload_loop ::
  "(bytes \<Rightarrow> bytes) \<Rightarrow> (bytes \<Rightarrow> go_error + authz_mapping) \<Rightarrow> reload_event list
   \<Rightarrow> (static_authorizer, 'b) auth_state_scheme \<Rightarrow> (static_authorizer, 'b) auth_state_scheme" where
  "reload_loop sha256 unmarshal [] s = s"
| "reload_loop sha256 unmarshal (Ctx_Done # evs) s = s"
| "reload_loop sha256 unmarshal (File_Tick content # evs) s =
    (case reload sha256 unmarshal content s of
       (Inl e, s) \<Rightarrow> reload_loop sha256 unmarshal evs (count_reload ReloadError s)
     | (Inr False, s) \<Rightarrow>
         reload_loop sha256 unmarshal evs (set_last_reload (count_reload ReloadUnchanged s))
     | (Inr True, s) \<Rightarrow>
         reload_loop sha256 unmarshal evs (set_last_reload (count_reload ReloadChanged s)))"

definition RunReloader ::
  "(bytes \<Rightarrow> bytes) \<Rightarrow> (bytes \<Rightarrow> go_error + authz_mapping) \<Rightarrow> int \<Rightarrow> reload_event list
   \<Rightarrow> (static_authorizer, 'b) auth_state_scheme \<Rightarrow> (static_authorizer, 'b) auth_state_scheme" where
  "RunReloader sha256 unmarshal interval evs s =
    (if interval \<le> 0 then s else reload_loop sha256 unmarshal evs s)"

section \<open>Resolving a caller\<close>

definition StaticAllowed ::
  "identity \<Rightarrow> (static_authorizer, 'b) auth_state_scheme
   \<Rightarrow> (go_error + scope) \<times> (static_authorizer, 'b) auth_state_scheme" where
  "StaticAllowed i s =
    (let m = sa_m (auth s) in
     if contains (m_admins m) (id_user i) \<or> contains (m_admins m) (id_email i)
     then (Inr \<lparr>sc_all = True, sc_namespaces = []\<rparr>, s)
     else if list_ex (contains (m_admins m)) (id_groups i)
     then (Inr \<lparr>sc_all = True, sc_namespaces = []\<rparr>, s)
     else
       let ns = set_all_true (get_list (m_user_to_ns m) (id_user i)) [];
           ns = set_all_true (get_list (m_user_to_ns m) (id_email i)) ns;
           ns = fold (\<lambda>g. set_all_true (get_list (m_group_to_ns m) g)) (id_groups i) ns
       in (Inr \<lparr>sc_all = False, sc_namespaces = ns\<rparr>, s))"

text \<open>
  The rules of the mapping, stated without the loops: who is an administrator, and which
  namespaces are mapped to an identity.
\<close>

definition is_admin :: "authz_mapping \<Rightarrow> identity \<Rightarrow> bool" where
  "is_admin m i \<longleftrightarrow>
     (\<exists>x \<in> set (m_admins m). x \<noteq> [] \<and> (x = id_user i \<or> x = id_email i \<or> x \<in> set (id_groups i)))"

definition mapped_ns :: "authz_mapping \<Rightarrow> identity \<Rightarrow> string set" where
  "mapped_ns m i =
     set (get_list (m_user_to_ns m) (id_user i)) \<union> set (get_list (m_user_to_ns m) (id_email i))
     \<union> (\<Union>g \<in> set (id_groups i). set (get_list (m_group_to_ns m) g))"

lemma contains_iff: "contains xs s \<longleftrightarrow> s \<noteq> [] \<and> s \<in> set xs"
  by (auto simp: contains_def list_ex_iff)

lemma is_admin_contains:
  "is_admin m i \<longleftrightarrow> contains (m_admins m) (id_user i) \<or> contains (m_admins m) (id_email i)
     \<or> list_ex (contains (m_admins m)) (id_groups i)"
  by (auto simp: is_admin_def contains_iff list_ex_iff)

lemma get_bool_fold_groups:
  "get_bool (fold (\<lambda>g. set_all_true (f g)) gs ns) n
     \<longleftrightarrow> (\<exists>g \<in> set gs. n \<in> set (f g)) \<or> get_bool ns n"
  by (induction gs arbitrary: ns) (auto simp: get_bool_set_all_true)

lemma StaticAllowed_spec:
  "\<exists>sc. StaticAllowed i s = (Inr sc, s)
     \<and> (sc_all sc \<longleftrightarrow> is_admin (sa_m (auth s)) i)
     \<and> {n. in_scope sc n} = (if is_admin (sa_m (auth s)) i then {} else mapped_ns (sa_m (auth s)) i)"
  by (auto simp: StaticAllowed_def Let_def is_admin_contains get_bool_fold_groups
      get_bool_set_all_true mapped_ns_def)

text \<open>
  C32. A caller resolves without error and without changing any state; the scope is
  unrestricted exactly for the administrators of the mapping in force, and otherwise holds
  exactly the namespaces mapped to the user, the email or one of the groups.
\<close>

theorem StaticAllowed_correct:
  "\<exists>sc. StaticAllowed i s = (Inr sc, s)
     \<and> (sc_all sc \<longleftrightarrow> is_admin (sa_m (auth s)) i)
     \<and> {n. in_scope sc n} = (if is_admin (sa_m (auth s)) i then {} else mapped_ns (sa_m (auth s)) i)"
  by (rule StaticAllowed_spec)

text \<open>
  Access only grows with what is presented: a caller with the same user and email and at
  least the same groups sees at least the same namespaces, or everything.
\<close>

theorem StaticAllowed_monotone:
  assumes "id_user j = id_user i" and "id_email j = id_email i"
    and "set (id_groups i) \<subseteq> set (id_groups j)"
    and "StaticAllowed i s = (Inr sc, s1)" and "StaticAllowed j s = (Inr sc', s2)"
  shows "sc_all sc' \<or> (\<not> sc_all sc \<and> {n. in_scope sc n} \<subseteq> {n. in_scope sc' n})"
proof -
  from assms(4,5) StaticAllowed_spec [of i s] StaticAllowed_spec [of j s]
  have sc: "sc_all sc \<longleftrightarrow> is_admin (sa_m (auth s)) i"
      "{n. in_scope sc n} = (if is_admin (sa_m (auth s)) i then {} else mapped_ns (sa_m (auth s)) i)"
    and sc': "sc_all sc' \<longleftrightarrow> is_admin (sa_m (auth s)) j"
      "{n. in_scope sc' n} = (if is_admin (sa_m (auth s)) j then {} else mapped_ns (sa_m (auth s)) j)"
    by auto
  have "is_admin (sa_m (auth s)) i \<Longrightarrow> is_admin (sa_m (auth s)) j"
    using assms(1-3) by (auto simp: is_admin_def)
  moreover have "mapped_ns (sa_m (auth s)) i \<subseteq> mapped_ns (sa_m (auth s)) j"
    using assms(1-3) by (auto simp: mapped_ns_def)
  ultimately show ?thesis
    unfolding sc(1) sc'(1) sc(2) sc'(2) by auto
qed

text \<open>A closed instance: more groups, more namespaces.\<close>

definition example_mapping :: authz_mapping where
  "example_mapping = \<lparr>m_admins = [''platform-admins''],
     m_group_to_ns = [(''team-payments'', [''payments'', ''payments-staging''])],
     m_user_to_ns = [(''bob@example.com'', [''sandbox-bob''])]\<rparr>"

definition example_runtime :: runtime where
  "example_runtime = \<lparr>now_at = int, rank_at = (\<lambda>_ _. 0), ticks = 0\<rparr>"

definition example_static :: "static_authorizer auth_state" where
  "example_static = \<lparr>rt = example_runtime, met = fresh_metrics,
     auth = \<lparr>sa_path = ''/etc/mapping.yaml'', sa_m = example_mapping, sa_sum = [1]\<rparr>\<rparr>"

lemma example_static_m [simp]: "sa_m (auth example_static) = example_mapping"
  by (simp add: example_static_def)

theorem StaticAllowed_monotone_witness:
  "sc_all \<lparr>sc_all = False, sc_namespaces = [(''sandbox-bob'', True), (''payments'', True),
       (''payments-staging'', True)]\<rparr>
   \<or> (\<not> sc_all \<lparr>sc_all = False, sc_namespaces = [(''sandbox-bob'', True)]\<rparr>
     \<and> {n. in_scope \<lparr>sc_all = False, sc_namespaces = [(''sandbox-bob'', True)]\<rparr> n}
       \<subseteq> {n. in_scope \<lparr>sc_all = False, sc_namespaces = [(''sandbox-bob'', True),
            (''payments'', True), (''payments-staging'', True)]\<rparr> n})"
proof (rule StaticAllowed_monotone [of
      "\<lparr>id_user = [], id_email = ''bob@example.com'', id_groups = [''team-payments'']\<rparr>"
      "\<lparr>id_user = [], id_email = ''bob@example.com'', id_groups = []\<rparr>" example_static _
      example_static _ example_static])
qed (simp_all add: StaticAllowed_def example_mapping_def contains_def get_list_def
    set_all_true_def set_true_def)

section \<open>The mapping in force\<close>

text \<open>
  What the reload loop promises, without digests: the mapping in force is the one parsed from
  the last content that could be read and parsed.
\<close>

fun last_good ::
  "(bytes \<Rightarrow> go_error + authz_mapping) \<Rightarrow> reload_event list \<Rightarrow> authz_mapping \<Rightarrow> authz_mapping" where
  "last_good unmarshal [] m = m"
| "last_good unmarshal (Ctx_Done # evs) m = m"
| "last_good unmarshal (File_Tick (Inl e) # evs) m = last_good unmarshal evs m"
| "last_good unmarshal (File_Tick (Inr b) # evs) m =
    (case unmarshal b of Inl e \<Rightarrow> last_good unmarshal evs m | Inr m' \<Rightarrow> last_good unmarshal evs m')"

fun contents_read :: "reload_event list \<Rightarrow> bytes list" where
  "contents_read [] = []"
| "contents_read (Ctx_Done # evs) = contents_read evs"
| "contents_read (File_Tick (Inl e) # evs) = contents_read evs"
| "contents_read (File_Tick (Inr b) # evs) = b # contents_read evs"

fun ticks_before_done :: "reload_event list \<Rightarrow> nat" where
  "ticks_before_done [] = 0"
| "ticks_before_done (Ctx_Done # evs) = 0"
| "ticks_before_done (File_Tick content # evs) = Suc (ticks_before_done evs)"

lemma auth_set_last_reload [simp]: "auth (set_last_reload s) = auth s"
  by (simp add: set_last_reload_def now_eq observe_def)

lemma auth_count_reload [simp]: "auth (count_reload r s) = auth s"
  by (simp add: count_reload_def)

lemma MappingReloads_set_last_reload [simp]:
  "MappingReloads (met (set_last_reload s)) = MappingReloads (met s)"
  by (simp add: set_last_reload_def now_eq)

lemma MappingReloads_count_reload [simp]:
  "MappingReloads (met (count_reload r s)) = vec_inc [r] (MappingReloads (met s))"
  by (simp add: count_reload_def)

lemma reload_met [simp]: "met (snd (reload h u content s)) = met s"
  by (auto simp: reload_def Let_def split: sum.splits)

lemma reload_cases:
  obtains (failed) e where "reload h u content s = (Inl e, s)"
  | (same) b where "content = Inr b" and "h b = sa_sum (auth s)" and "reload h u content s = (Inr False, s)"
  | (changed) b m where "content = Inr b" and "h b \<noteq> sa_sum (auth s)" and "u b = Inr m"
      and "reload h u content s = (Inr True, s\<lparr>auth := (auth s)\<lparr>sa_m := m, sa_sum := h b\<rparr>\<rparr>)"
proof (cases content)
  case (Inl e)
  then show thesis by (intro failed) (simp add: reload_def)
next
  case (Inr b)
  consider "h b = sa_sum (auth s)" | e where "h b \<noteq> sa_sum (auth s)" "u b = Inl e"
    | m where "h b \<noteq> sa_sum (auth s)" "u b = Inr m"
    by (cases "u b") auto
  then show thesis
  proof cases
    case 1
    with Inr show thesis by (intro same) (simp_all add: reload_def)
  next
    case 2
    with Inr show thesis by (intro failed) (simp add: reload_def)
  next
    case 3
    with Inr show thesis by (intro changed) (simp_all add: reload_def)
  qed
qed

text \<open>
  C39. The reload loop keeps the last good mapping in force: as long as the digest tells the
  contents read apart, the mapping after any run of ticks is the one parsed from the last
  content that was readable and well-formed, whatever read errors and torn files came between.
\<close>

theorem reload_loop_last_good:
  assumes "sa_sum (auth s) = sha256 b\<^sub>0" and "unmarshal b\<^sub>0 = Inr (sa_m (auth s))"
    and "inj_on sha256 (insert b\<^sub>0 (set (contents_read evs)))"
  shows "sa_m (auth (reload_loop sha256 unmarshal evs s)) = last_good unmarshal evs (sa_m (auth s))"
  using assms
proof (induction evs arbitrary: s b\<^sub>0)
  case Nil
  then show ?case by simp
next
  case (Cons ev evs)
  show ?case
  proof (cases ev)
    case Ctx_Done
    then show ?thesis by simp
  next
    case (File_Tick rd)
    show ?thesis
    proof (cases rule: reload_cases [of sha256 unmarshal rd s])
      case (failed e)
      have ih: "sa_m (auth (reload_loop sha256 unmarshal evs (count_reload ReloadError s)))
          = last_good unmarshal evs (sa_m (auth s))"
        using Cons.IH [of "count_reload ReloadError s" b\<^sub>0] Cons.prems File_Tick
        by (cases rd) (auto intro: inj_on_subset)
      have "last_good unmarshal (ev # evs) (sa_m (auth s)) = last_good unmarshal evs (sa_m (auth s))"
        using failed File_Tick
        by (auto simp: reload_def Let_def split: sum.splits if_splits)
      with ih failed File_Tick show ?thesis by simp
    next
      case (same b)
      have "b = b\<^sub>0"
        by (rule inj_onD [OF Cons.prems(3)])
          (use same Cons.prems(1) File_Tick in simp_all)
      with same Cons.prems File_Tick
        Cons.IH [of "set_last_reload (count_reload ReloadUnchanged s)" b\<^sub>0]
      show ?thesis by (auto intro: inj_on_subset)
    next
      case (changed b m)
      let ?s = "s\<lparr>auth := (auth s)\<lparr>sa_m := m, sa_sum := sha256 b\<rparr>\<rparr>"
      from changed Cons.prems File_Tick
        Cons.IH [of "set_last_reload (count_reload ReloadChanged ?s)" b]
      show ?thesis by (auto intro: inj_on_subset)
    qed
  qed
qed

theorem reload_loop_last_good_witness:
  "sa_m (auth (reload_loop id (\<lambda>b. if b = [1] then Inr example_mapping
        else if b = [2] then Inr zero_mapping else Inl (Plain ''bad yaml''))
      [File_Tick (Inr [2]), File_Tick (Inr [7]), File_Tick (Inl (Plain ''gone''))] example_static))
   = zero_mapping"
  by (subst reload_loop_last_good [where b\<^sub>0 = "[1]"]) (simp_all add: example_static_def)

text \<open>
  Every tick is reported exactly once: the three reload results together grow by the
  number of ticks before the context is cancelled, and a disabled reloader reports none.
\<close>

theorem RunReloader_counts_every_tick:
  "vec_value (MappingReloads (met (RunReloader h u interval evs s))) [ReloadError]
   + vec_value (MappingReloads (met (RunReloader h u interval evs s))) [ReloadUnchanged]
   + vec_value (MappingReloads (met (RunReloader h u interval evs s))) [ReloadChanged]
   = vec_value (MappingReloads (met s)) [ReloadError]
   + vec_value (MappingReloads (met s)) [ReloadUnchanged]
   + vec_value (MappingReloads (met s)) [ReloadChanged]
   + (if interval \<le> 0 then 0 else ticks_before_done evs)"
proof (cases "interval \<le> 0")
  case True
  then show ?thesis by (simp add: RunReloader_def)
next
  case False
  have dist: "ReloadError \<noteq> ReloadUnchanged" "ReloadError \<noteq> ReloadChanged"
    "ReloadUnchanged \<noteq> ReloadChanged"
    by (simp_all add: ReloadError_def ReloadUnchanged_def ReloadChanged_def)
  define total where "total v = vec_value v [ReloadError] + vec_value v [ReloadUnchanged]
      + vec_value v [ReloadChanged]" for v
  have inc: "total (vec_inc [r] v) = Suc (total v)"
    if "r \<in> {ReloadError, ReloadUnchanged, ReloadChanged}" for r v
    using that dist dist [symmetric] by (auto simp: total_def vec_value_inc)
  have "total (MappingReloads (met (reload_loop h u evs s)))
      = total (MappingReloads (met s)) + ticks_before_done evs"
  proof (induction evs arbitrary: s)
    case Nil
    then show ?case by simp
  next
    case (Cons ev evs)
    show ?case
    proof (cases ev)
      case Ctx_Done
      then show ?thesis by simp
    next
      case (File_Tick rd)
      then show ?thesis
        by (cases rule: reload_cases [of h u rd s]) (simp_all add: Cons.IH inc)
    qed
  qed
  with False show ?thesis by (simp add: RunReloader_def total_def)
qed

text \<open>
  Start-up reads the mapping successfully without recording it: the gauge that is
  documented as the time of the last successful read keeps its initial value through start-up,
  and for good when hot-reload is disabled.
\<close>

theorem startup_read_not_recorded:
  "case NewStaticAuthorizer sha256 unmarshal path content s of
     Inl e \<Rightarrow> True
   | Inr s' \<Rightarrow> MappingLastReload (met s') = MappingLastReload (met s)
       \<and> MappingLastReload (met (RunReloader sha256 unmarshal 0 evs s')) = MappingLastReload (met s)"
  by (auto simp: NewStaticAuthorizer_def RunReloader_def reload_def Let_def split: sum.splits)

text \<open>
  Start-up is fatal exactly when the file cannot be read, or its content is new to the
  zero digest and cannot be parsed; on success the parsed mapping is in force together with
  its digest.
\<close>

theorem NewStaticAuthorizer_outcome:
  assumes "\<And>b. sha256 b \<noteq> replicate 32 0"
  shows "case NewStaticAuthorizer sha256 unmarshal path content s of
      Inl e \<Rightarrow> content = Inl e \<or> (\<exists>b e'. content = Inr b \<and> unmarshal b = Inl e' \<and> errors_is e e')
    | Inr s' \<Rightarrow> (\<exists>b. content = Inr b \<and> unmarshal b = Inr (sa_m (auth s')) \<and> sa_sum (auth s') = sha256 b)"
  using assms
  by (auto simp: NewStaticAuthorizer_def reload_def Let_def split: sum.splits)

theorem NewStaticAuthorizer_outcome_witness:
  "case NewStaticAuthorizer (\<lambda>b. [1]) (\<lambda>b. Inr example_mapping) ''/m'' (Inr [5]) example_static of
      Inl e \<Rightarrow> False
    | Inr s' \<Rightarrow> sa_m (auth s') = example_mapping \<and> sa_sum (auth s') = [1]"
proof -
  have "(\<lambda>b. [1] :: bytes) b \<noteq> replicate 32 0" for b :: bytes
    by (simp add: numeral_eq_Suc)
  from NewStaticAuthorizer_outcome [OF this, where unmarshal = "\<lambda>b. Inr example_mapping"
      and path = "''/m''" and content = "Inr [5]" and s = example_static]
  show ?thesis by (auto split: sum.splits)
qed

section \<open>Interpreting the contract\<close>

definition static_justified ::
  "(static_authorizer, 'b) auth_state_scheme \<Rightarrow> identity \<Rightarrow> scope \<Rightarrow> bool" where
  "static_justified s i sc \<longleftrightarrow>
     (sc_all sc \<longrightarrow> is_admin (sa_m (auth s)) i)
     \<and> {n. in_scope sc n} \<subseteq> mapped_ns (sa_m (auth s)) i"

interpretation static_az: authorizer StaticAllowed "\<lambda>_. True" "\<lambda>s s'. static_justified s"
proof (unfold_locales, goal_cases)
  case (1 s i sc s')
  with StaticAllowed_spec [of i s] show ?case
    by (auto simp: static_justified_def)
next
  case (3 i s res s')
  with StaticAllowed_spec [of i s] show ?case by auto
next
  case (4 i s res s')
  with StaticAllowed_spec [of i s] show ?case by auto
qed simp

interpretation static_timed: authorizer "Instrumented StaticAllowed ''static''" "\<lambda>_. True"
    "\<lambda>s s'. static_justified s"
  by (rule static_az.Instrumented_contract) (simp_all add: static_justified_def)

end
