(* ===== verification/Proxy_Properties.thy ===== *)
theory Proxy_Properties
  imports Proxy_Handler Ui_Filter_Properties Static_Authorizer
begin

text \<open>
  The properties of the request handler: what it relays, when it contacts the backend, how it
  treats oversized and broken responses, and the labels it reports. What does not depend on the
  authorizer is stated for any; the rest is proved against the \<open>authorizer\<close> contract and stated for
  the file-backed authorizer of the program.
\<close>

section \<open>What filtering a response means\<close>

text \<open>
  The two ways \<open>filterResponse\<close> lets a response through: unchanged, for the reasons the code
  gives, or rebuilt from the complete body with its content filtered.
\<close>

definition is_json :: "response \<Rightarrow> bool" where
  "is_json resp = has_prefix (header_get (rs_header resp) ''Content-Type'') ''application/json''"

definition with_content :: "bytes \<Rightarrow> message \<Rightarrow> message" where
  "with_content body msg = msg\<lparr>msg_body := map_option (\<lambda>b. b\<lparr>content := body\<rparr>) (msg_body msg)\<rparr>"

definition rebuilt :: "response \<Rightarrow> bytes \<Rightarrow> response" where
  "rebuilt resp out = resp\<lparr>rs_body := out, content_length := int (length out),
     rs_header := header_set ''Content-Length'' (itoa (length out)) (rs_header resp)\<rparr>"

definition passes_unfiltered :: "scope \<Rightarrow> upstream_response \<Rightarrow> bool" where
  "passes_unfiltered sc up \<longleftrightarrow> sc_all sc \<or> status (up_response up) \<noteq> StatusOK"

definition filtered_reply ::
  "codec \<Rightarrow> proxy \<Rightarrow> identity \<Rightarrow> scope \<Rightarrow> upstream_response \<Rightarrow> response
   \<Rightarrow> ('az, 'b) reg_state_scheme \<Rightarrow> ('az, 'b) reg_state_scheme \<Rightarrow> bool" where
  "filtered_reply cd p i sc up resp s s' \<longleftrightarrow>
     (\<exists>raw msg body out. read_limited (maxResponse p + 1) up = Inr raw
        \<and> int (length raw) \<le> sint (maxResponse p)
        \<and> decodeEnvelope cd raw (is_json (up_response up)) = Inr msg
        \<and> filterBody cd p (message_route msg) (message_channel msg) (message_content msg) sc i s
            = (Inr body, s')
        \<and> encodeEnvelope cd (with_content body msg) (is_json (up_response up)) = Inr out
        \<and> resp = rebuilt (up_response up) out)"

definition decodable :: "response \<Rightarrow> bool" where
  "decodable resp \<longleftrightarrow> is_json resp
     \<or> has_prefix (header_get (rs_header resp) ''Content-Type'') ''application/octet-stream''"

lemma filterResponse_unfiltered:
  assumes "\<not> filtered info \<or> passes_unfiltered (ri_scope info) up"
  shows "filterResponse cd p r (Some info) up s = (Inr None, s)"
  using assms by (auto simp: filterResponse_def passes_unfiltered_def)

lemma filterResponse_filters:
  assumes "filtered info" and "\<not> passes_unfiltered (ri_scope info) up"
  shows "filterResponse cd p r (Some info) up s =
    (if \<not> decodable (up_response up) then
       (Inl (Plain (''unexpected content-type from backend: ''
          @ header_get (rs_header (up_response up)) ''Content-Type'')), s)
     else case read_limited (maxResponse p + 1) up of
         Inl e \<Rightarrow> (Inl e, s)
       | Inr raw \<Rightarrow>
           if sint (maxResponse p) < int (length raw) then
             (Inl (Wrapped (rq_path r) Err_Response_Too_Large), s)
           else case decodeEnvelope cd raw (is_json (up_response up)) of
               Inl e \<Rightarrow> (Inl e, s)
             | Inr msg \<Rightarrow>
                 (case filterBody cd p (message_route msg) (message_channel msg)
                         (message_content msg) (ri_scope info) (ri_id info) s of
                    (Inl e, s) \<Rightarrow> (Inl e, s)
                  | (Inr body, s) \<Rightarrow>
                      (case encodeEnvelope cd (with_content body msg) (is_json (up_response up)) of
                         Inl e \<Rightarrow> (Inl e, s)
                       | Inr out \<Rightarrow> (Inr (Some (rebuilt (up_response up) out)), s))))"
  using assms
  unfolding filterResponse_def passes_unfiltered_def is_json_def decodable_def with_content_def
    rebuilt_def Let_def
  by simp

lemma filterResponse_through:
  assumes "filterResponse cd p r (Some info) up s = (Inr ro, s')"
  shows "(ro = None \<and> s' = s \<and> (\<not> filtered info \<or> passes_unfiltered (ri_scope info) up))
    \<or> (\<exists>resp. ro = Some resp \<and> filtered info
        \<and> filtered_reply cd p (ri_id info) (ri_scope info) up resp s s')"
proof (cases "\<not> filtered info \<or> passes_unfiltered (ri_scope info) up")
  case True
  from assms filterResponse_unfiltered [OF this, of cd p r s] True show ?thesis by simp
next
  case False
  then have f: "filtered info" "\<not> passes_unfiltered (ri_scope info) up" by auto
  from assms f(1) show ?thesis
    unfolding filterResponse_filters [OF f] filtered_reply_def
    by (auto split: if_splits sum.splits prod.splits)
qed

section \<open>Bodies are filtered whole or not at all\<close>

lemma sint_succ:
  assumes "m \<noteq> 0x7FFFFFFFFFFFFFFF"
  shows "sint (m + 1 :: 64 word) = sint m + 1"
proof -
  have "sint m \<noteq> 0x7FFFFFFFFFFFFFFF"
  proof
    assume "sint m = 0x7FFFFFFFFFFFFFFF"
    then have "word_of_int (sint m) = (0x7FFFFFFFFFFFFFFF :: 64 word)" by simp
    with assms show False by simp
  qed
  moreover have "- (2 ^ 63) \<le> sint m" "sint m < 2 ^ 63"
    using sint_range_size [of m] by (simp_all add: word_size)
  ultimately have "signed_take_bit 63 (sint m + 1) = sint m + 1"
    by (intro signed_take_bit_int_eq_self) auto
  then show ?thesis by (simp add: sint_word_ariths)
qed

text \<open>
  A truncated body is never filtered: for every limit but the largest 64-bit integer, a body that
  passes the size check is the complete one, from a connection that ended properly; and a complete
  body passes exactly when it is no longer than the limit.
\<close>

lemma filters_whole_bodies:
  assumes "m \<noteq> 0x7FFFFFFFFFFFFFFF"
  shows "{raw. read_limited (m + 1) up = Inr raw \<and> int (length raw) \<le> sint m} =
    (if up_broken up = None \<and> int (length (rs_body (up_response up))) \<le> sint m
     then {rs_body (up_response up)} else {})"
  using sint_succ [OF assms]
  by (auto simp: read_limited_def Let_def split: option.splits if_splits)

text \<open>
  At that limit the size check turns on itself: the limit plus one wraps to a negative number,
  nothing is read, and every response is filtered as if its body were empty.
\<close>

theorem largest_limit_reads_nothing:
  "read_limited (0x7FFFFFFFFFFFFFFF + 1) up = Inr []"
  by (simp add: read_limited_def)

text \<open>Otherwise what is filtered is the whole of what the backend sent.\<close>

definition filtered_whole ::
  "codec \<Rightarrow> proxy \<Rightarrow> identity \<Rightarrow> scope \<Rightarrow> upstream_response \<Rightarrow> response
   \<Rightarrow> ('az, 'b) reg_state_scheme \<Rightarrow> ('az, 'b) reg_state_scheme \<Rightarrow> bool" where
  "filtered_whole cd p i sc up resp s s' \<longleftrightarrow>
     up_broken up = None \<and> int (length (rs_body (up_response up))) \<le> sint (maxResponse p)
     \<and> (\<exists>msg body out. decodeEnvelope cd (rs_body (up_response up)) (is_json (up_response up)) = Inr msg
        \<and> filterBody cd p (message_route msg) (message_channel msg) (message_content msg) sc i s
            = (Inr body, s')
        \<and> encodeEnvelope cd (with_content body msg) (is_json (up_response up)) = Inr out
        \<and> resp = rebuilt (up_response up) out)"

lemma filtered_reply_whole:
  assumes "maxResponse p \<noteq> 0x7FFFFFFFFFFFFFFF" and "filtered_reply cd p i sc up resp s s'"
  shows "filtered_whole cd p i sc up resp s s'"
proof -
  from assms(2) obtain raw where raw: "read_limited (maxResponse p + 1) up = Inr raw"
      "int (length raw) \<le> sint (maxResponse p)"
    and rest: "\<exists>msg body out. decodeEnvelope cd raw (is_json (up_response up)) = Inr msg
      \<and> filterBody cd p (message_route msg) (message_channel msg) (message_content msg) sc i s = (Inr body, s')
      \<and> encodeEnvelope cd (with_content body msg) (is_json (up_response up)) = Inr out
      \<and> resp = rebuilt (up_response up) out"
    unfolding filtered_reply_def by blast
  from raw have "raw \<in> {raw. read_limited (maxResponse p + 1) up = Inr raw
      \<and> int (length raw) \<le> sint (maxResponse p)}" by simp
  then have "up_broken up = None" "raw = rs_body (up_response up)"
    unfolding filters_whole_bodies [OF assms(1)] by (simp_all split: if_splits)
  with raw(2) rest show ?thesis by (simp add: filtered_whole_def)
qed

lemma rp_ServeHTTP_relayed:
  assumes "rp_ServeHTTP cd p up (Some info) r s = (Relayed resp, s')"
  obtains ur where "round_trip up (Rewrite up r) = Inr ur"
    and "(resp = up_response ur \<and> s' = s \<and> (\<not> filtered info \<or> passes_unfiltered (ri_scope info) ur))
      \<or> filtered_reply cd p (ri_id info) (ri_scope info) ur resp s s'"
proof -
  have err: "fst (ErrorHandler p q e t) \<noteq> Relayed resp" for q e and t :: "('a, 'b) reg_state_scheme"
    by (simp add: ErrorHandler_def Let_def)
  from assms obtain ur where ur: "round_trip up (Rewrite up r) = Inr ur"
    by (cases "round_trip up (Rewrite up r)") (use err in \<open>auto simp: rp_ServeHTTP_def Let_def
        dest: arg_cong [where f = fst]\<close>)
  obtain fr s1 where fr: "filterResponse cd p (Rewrite up r) (Some info) ur s = (fr, s1)" by fastforce
  show ?thesis
  proof (cases fr)
    case (Inl e)
    with assms ur fr err [of "Rewrite up r" e s1] show ?thesis
      by (simp add: rp_ServeHTTP_def Let_def)
  next
    case (Inr ro)
    from filterResponse_through [OF fr [unfolded Inr]] assms ur fr Inr show ?thesis
      by (intro that [OF ur]) (auto simp: rp_ServeHTTP_def Let_def)
  qed
qed

section \<open>The handler, branch by branch\<close>

definition request_route :: "proxy \<Rightarrow> request \<Rightarrow> string" where
  "request_route p r = knownRoute (trim_prefix (rq_path r) (apiPrefix p))"

definition timed :: "proxy \<Rightarrow> request \<Rightarrow> 'a go_state_scheme \<Rightarrow> 'a go_state_scheme" where
  "timed p r s = observe (\<lambda>m. m\<lparr>RequestDuration :=
     with_label_values [request_route p r] (RequestDuration m)\<rparr>) s"

lemma ServeHTTP_api:
  assumes "has_prefix (rq_path r) (apiPrefix p)"
  shows "ServeHTTP allowed cd p up r s =
    (case From (px_headers p) (rq_header r) of
       Inl e \<Rightarrow> (Http_Error StatusUnauthorized ''unauthenticated'',
         observe_duration (request_route p r)
           (count_request (request_route p r) OutcomeUnauthenticated (timed p r s)))
     | Inr i \<Rightarrow>
         (case allowed i (timed p r s) of
            (Inl e, s1) \<Rightarrow>
              (if clientGone e then No_Reply
               else Http_Error StatusInternalServerError ''authorization backend unavailable'',
               observe_duration (request_route p r)
                 (count_request (request_route p r) OutcomeAuthzError s1))
          | (Inr sc, s1) \<Rightarrow>
              map_prod id (observe_duration (request_route p r))
                (rp_ServeHTTP cd p up (Some \<lparr>filtered = True, ri_scope = sc, ri_id = i\<rparr>) r
                   (count_request (request_route p r) OutcomeFiltered s1))))"
  using assms
  by (auto simp: ServeHTTP_def timed_def request_route_def Let_def split: sum.split prod.split)

text \<open>Whatever the authorizer, a relayed response on an API path has come this way.\<close>

lemma ServeHTTP_relayed:
  assumes api: "has_prefix (rq_path r) (apiPrefix p)"
    and run: "ServeHTTP allowed cd p up r s = (Relayed resp, s')"
  obtains i sc s0 ur s2 where "From (px_headers p) (rq_header r) = Inr i"
    and "allowed i (timed p r s) = (Inr sc, s0)" and "round_trip up (Rewrite up r) = Inr ur"
    and "rp_ServeHTTP cd p up (Some \<lparr>filtered = True, ri_scope = sc, ri_id = i\<rparr>) r
          (count_request (request_route p r) OutcomeFiltered s0) = (Relayed resp, s2)"
    and "resp = up_response ur \<and> passes_unfiltered sc ur \<and> s2 = count_request (request_route p r) OutcomeFiltered s0
      \<or> filtered_reply cd p i sc ur resp (count_request (request_route p r) OutcomeFiltered s0) s2"
    and "s' = observe_duration (request_route p r) s2"
proof -
  from run api obtain i where i: "From (px_headers p) (rq_header r) = Inr i"
    by (cases "From (px_headers p) (rq_header r)") (simp_all add: ServeHTTP_api)
  obtain res s0 where al: "allowed i (timed p r s) = (res, s0)" by fastforce
  with run api i obtain sc where sc: "res = Inr sc"
    by (cases res) (auto simp: ServeHTTP_api split: if_splits)
  let ?info = "\<lparr>filtered = True, ri_scope = sc, ri_id = i\<rparr>"
  obtain reply s2 where "rp_ServeHTTP cd p up (Some ?info) r
      (count_request (request_route p r) OutcomeFiltered s0) = (reply, s2)" by fastforce
  with run api i al sc have rp: "rp_ServeHTTP cd p up (Some ?info) r
      (count_request (request_route p r) OutcomeFiltered s0) = (Relayed resp, s2)"
      and s': "s' = observe_duration (request_route p r) s2"
    by (simp_all add: ServeHTTP_api)
  show ?thesis
  proof (rule rp_ServeHTTP_relayed [OF rp])
    fix ur
    assume "round_trip up (Rewrite up r) = Inr ur"
      and "resp = up_response ur \<and> s2 = count_request (request_route p r) OutcomeFiltered s0
          \<and> (\<not> filtered ?info \<or> passes_unfiltered (ri_scope ?info) ur)
        \<or> filtered_reply cd p (ri_id ?info) (ri_scope ?info) ur resp
            (count_request (request_route p r) OutcomeFiltered s0) s2"
    with that [OF i al [unfolded sc] _ rp _ s'] show ?thesis by auto
  qed
qed

lemma chans_count [simp]:
  "chans (count_request r oc s) = chans s" "chans (observe_duration r s) = chans s"
  "chans (timed p q s) = chans s"
  by (simp_all add: count_request_def observe_duration_def timed_def)

lemma reg_ok_count [simp]:
  "reg_ok (count_request r oc s) = reg_ok s" "reg_ok (observe_duration r s) = reg_ok s"
  "reg_ok (timed p q s) = reg_ok s"
  by (simp_all add: reg_ok_def count_request_def observe_duration_def timed_def)

lemma known_count [simp]: "known (observe_duration r s) = known s"
  by (simp add: observe_duration_def)

section \<open>What filtering a response leaves alone\<close>

definition served_frame :: "('az, 'b) reg_state_scheme \<Rightarrow> ('az, 'b) reg_state_scheme \<Rightarrow> bool" where
  "served_frame s s' \<longleftrightarrow> auth s' = auth s \<and> reg_ttl (services s') = reg_ttl (services s)
     \<and> max_channels (services s') = max_channels (services s)
     \<and> now_at (rt s') = now_at (rt s) \<and> ticks (rt s) \<le> ticks (rt s')"

lemma served_frame_refl [simp]: "served_frame s s"
  and served_frame_trans: "served_frame s s1 \<Longrightarrow> served_frame s1 s2 \<Longrightarrow> served_frame s s2"
  by (simp_all add: served_frame_def)

lemma served_frame_counts [simp]:
  "served_frame s (count_request route oc s)" "served_frame s (observe_duration route s)"
  "served_frame s (timed p r s)"
  by (simp_all add: served_frame_def count_request_def observe_duration_def timed_def)

lemma filter_frame_served: "filter_frame s s' \<Longrightarrow> served_frame s s'"
  by (simp add: filter_frame_def served_frame_def)

lemma reg_frame_served: "reg_frame s s' \<Longrightarrow> served_frame s s'"
  by (rule filter_frame_served [OF reg_frame_filter])

lemma filterResponse_frame:
  assumes ok: "reg_ok s" and run: "filterResponse cd p r ctx up s = (res, s')"
  shows "served_frame s s'"
proof (cases ctx)
  case None
  with run show ?thesis by (simp add: filterResponse_def)
next
  case (Some info)
  have step: "served_frame s s2" if "filterBody cd p x c b sc i s = (fr, s2)" for x c b sc i fr s2
    using filterBody_on_channel [OF ok that] by (simp add: on_channel_def filter_frame_served)
  show ?thesis
  proof (cases "filtered info \<and> \<not> passes_unfiltered (ri_scope info) up")
    case False
    with run Some filterResponse_unfiltered [of info up cd p r s] show ?thesis by auto
  next
    case True
    with run Some step show ?thesis
      by (auto simp: filterResponse_filters split: if_splits sum.splits prod.splits)
  qed
qed

lemma ErrorHandler_frame: "served_frame s (snd (ErrorHandler p r e s))"
  by (simp add: ErrorHandler_def Let_def)

lemma rp_ServeHTTP_frame:
  assumes ok: "reg_ok s"
  shows "served_frame s (snd (rp_ServeHTTP cd p up ctx r s))"
proof (cases "round_trip up (Rewrite up r)")
  case (Inl e)
  then show ?thesis by (simp add: rp_ServeHTTP_def ErrorHandler_frame)
next
  case (Inr ur)
  obtain res s1 where fr: "filterResponse cd p (Rewrite up r) ctx ur s = (res, s1)" by fastforce
  have s1: "served_frame s s1" by (rule filterResponse_frame [OF ok fr])
  with fr Inr served_frame_trans [OF s1 ErrorHandler_frame] show ?thesis
    by (cases res) (simp_all add: rp_ServeHTTP_def split: option.split)
qed

section \<open>The handler's view of an authorizer\<close>

locale handler_authorizer = authorizer allowed inv justified
  for allowed :: "identity \<Rightarrow> ('az, 'b) reg_state_scheme
                    \<Rightarrow> (go_error + scope) \<times> ('az, 'b) reg_state_scheme"
    and inv :: "('az, 'b) reg_state_scheme \<Rightarrow> bool"
    and justified :: "('az, 'b) reg_state_scheme \<Rightarrow> ('az, 'b) reg_state_scheme \<Rightarrow> identity \<Rightarrow> scope \<Rightarrow> bool" +
  assumes inv_duration: "inv (observe (\<lambda>m. m\<lparr>RequestDuration := f (RequestDuration m)\<rparr>) s) \<longleftrightarrow> inv s"
    and justified_duration: "justified (observe (\<lambda>m. m\<lparr>RequestDuration := f (RequestDuration m)\<rparr>) s) s' i sc
      \<longleftrightarrow> justified s s' i sc"
    and justified_later: "justified s s1 i sc \<Longrightarrow> served_frame s1 s2 \<Longrightarrow> justified s s2 i sc"
begin

lemma authorized_registry:
  assumes "allowed i s = (res, s')"
  shows "reg_ok s' \<longleftrightarrow> reg_ok s" and "chans s' = chans s"
proof -
  have more: "auth_state.more s' = auth_state.more s" by (rule keeps_rest [OF assms])
  then have "services s' = services s" by (cases s; cases s') simp
  with keeps_counters [OF assms] show "reg_ok s' \<longleftrightarrow> reg_ok s" and "chans s' = chans s"
    by (simp_all add: reg_ok_def)
qed

lemma relayed_only_filtered:
  assumes "inv s" and api: "has_prefix (rq_path r) (apiPrefix p)"
    and run: "ServeHTTP allowed cd p up r s = (Relayed resp, s')"
  obtains i sc ur s1 s2 where "From (px_headers p) (rq_header r) = Inr i" and "justified s s1 i sc"
    and "round_trip up (Rewrite up r) = Inr ur" and "reg_ok s1 = reg_ok s" and "chans s1 = chans s"
    and "reg_ok s \<Longrightarrow> served_frame s1 s'"
    and "resp = up_response ur \<and> passes_unfiltered sc ur \<or> filtered_reply cd p i sc ur resp s1 s2"
    and "s' = observe_duration (request_route p r) s2"
proof (rule ServeHTTP_relayed [OF api run])
  fix i sc ur and s0 s2 :: "('az, 'b) reg_state_scheme"
  let ?s1 = "count_request (request_route p r) OutcomeFiltered s0"
  assume i: "From (px_headers p) (rq_header r) = Inr i" and al: "allowed i (timed p r s) = (Inr sc, s0)"
    and ur: "round_trip up (Rewrite up r) = Inr ur" and s': "s' = observe_duration (request_route p r) s2"
    and rp: "rp_ServeHTTP cd p up (Some \<lparr>filtered = True, ri_scope = sc, ri_id = i\<rparr>) r ?s1 = (Relayed resp, s2)"
    and how: "resp = up_response ur \<and> passes_unfiltered sc ur \<and> s2 = ?s1
      \<or> filtered_reply cd p i sc ur resp ?s1 s2"
  have "inv (timed p r s)" using assms(1) inv_duration by (simp add: timed_def)
  from grants_justified [OF this al] have "justified s s0 i sc"
    using justified_duration by (simp add: timed_def)
  then have just: "justified s ?s1 i sc" by (rule justified_later) simp
  have same: "reg_ok ?s1 = reg_ok s" "chans ?s1 = chans s"
    using authorized_registry [OF al] by simp_all
  have "served_frame ?s1 s'" if "reg_ok s"
    using served_frame_trans [OF rp_ServeHTTP_frame served_frame_counts(2)] rp that same(1) s' by (metis snd_conv)
  with how show thesis by (intro that [OF i just ur same _ _ s']) auto
qed

end

interpretation static_handler: handler_authorizer "Instrumented StaticAllowed ''static''" "\<lambda>_. True"
    "\<lambda>s s'. static_justified s"
  by unfold_locales (simp_all add: static_justified_def)


section \<open>Nothing unfiltered reaches a scoped caller\<close>

text \<open>
  C6. The proxy is fail-closed, with any authorizer: whatever is relayed on an API path goes to an
  authenticated caller whose scope the authorizer resolved, and it is the backend's response
  unchanged only for an unrestricted scope or a status other than 200; otherwise the backend's body
  arrived completely and within the limit, and the response is rebuilt from all of it with exactly
  the output of the content filter in place of the content. The one limit this excludes is the
  largest 64-bit integer, where the size check wraps and nothing is read.
\<close>

theorem relays_only_filtered:
  assumes "has_prefix (rq_path r) (apiPrefix p)" and limit: "maxResponse p \<noteq> 0x7FFFFFFFFFFFFFFF"
    and "ServeHTTP allowed cd p up r s = (Relayed resp, s')"
  shows "\<exists>i sc s1 ur s2. From (px_headers p) (rq_header r) = Inr i
    \<and> allowed i (timed p r s) = (Inr sc, s1) \<and> round_trip up (Rewrite up r) = Inr ur
    \<and> (resp = up_response ur \<and> passes_unfiltered sc ur \<and> s2 = count_request (request_route p r) OutcomeFiltered s1
       \<or> filtered_whole cd p i sc ur resp (count_request (request_route p r) OutcomeFiltered s1) s2)
    \<and> s' = observe_duration (request_route p r) s2"
  by (rule ServeHTTP_relayed [OF assms(1,3)]) (use filtered_reply_whole [OF limit] in blast)

text \<open>A closed instance: bob, mapped to \<open>sandbox-bob\<close>, polls the service map.\<close>

definition bob_batch :: events_response where
  "bob_batch = \<lparr>er_events = [link_event ''a'' ''b'', service_event ''a'' ''sandbox-bob'',
     service_event ''b'' ''db''], er_rest = []\<rparr>"

definition bob_filtered :: events_response where
  "bob_filtered = \<lparr>er_events = [service_event ''a'' ''sandbox-bob''], er_rest = []\<rparr>"

definition bob_message :: "bytes \<Rightarrow> message" where
  "bob_message b = \<lparr>msg_meta = Some \<lparr>route_name = ''service-map-stream'', channel_id = ''ch'',
     meta_rest = []\<rparr>, msg_body = Some \<lparr>content = b, body_rest = []\<rparr>, msg_rest = []\<rparr>"

definition bob_codec :: codec where
  "bob_codec = table_codec [] [(bob_batch, [1]), (bob_filtered, [2])]
     [(bob_message [1], [10, 1]), (bob_message [2], [10, 2])]"

definition bob_request :: request where
  "bob_request = \<lparr>rq_path = ''/api/service-map-stream'',
     rq_header = [(''X-Auth-Request-Email'', [''bob@example.com''])], rq_rest = []\<rparr>"

definition bob_upstream :: "string \<Rightarrow> upstream" where
  "bob_upstream base = \<lparr>backend_path = base, strip_hop_headers = id, round_trip = (\<lambda>_. Inr
     \<lparr>up_response = \<lparr>status = 200, rs_header = [(''Content-Type'', [''application/octet-stream''])],
        content_length = 2, rs_body = [10, 1]\<rparr>, up_broken = None\<rparr>)\<rparr>"

definition bob_state :: "static_authorizer reg_state" where
  "bob_state = \<lparr>rt = example_runtime, met = fresh_metrics,
     auth = \<lparr>sa_path = ''/etc/mapping.yaml'', sa_m = example_mapping, sa_sum = [1]\<rparr>,
     services = new_registry 60 4\<rparr>"

definition bob_reply :: "bool \<Rightarrow> reply \<times> static_authorizer reg_state" where
  "bob_reply both = ServeHTTP (Instrumented StaticAllowed ''static'') bob_codec (example_proxy both)
     (bob_upstream []) bob_request bob_state"

definition bob_served :: "bytes \<Rightarrow> response" where
  "bob_served b = \<lparr>status = 200, rs_header = [(''Content-Type'', [''application/octet-stream'']),
     (''Content-Length'', [''2''])], content_length = 2, rs_body = b\<rparr>"

definition bob :: identity where
  "bob = \<lparr>id_user = [], id_email = ''bob@example.com'', id_groups = []\<rparr>"

definition bob_scope :: scope where
  "bob_scope = \<lparr>sc_all = False, sc_namespaces = [(''sandbox-bob'', True)]\<rparr>"

definition bob_authorized :: "static_authorizer reg_state" where
  "bob_authorized = count_request routeServiceMapStre OutcomeFiltered
     (snd (Instrumented StaticAllowed ''static'' bob (timed (example_proxy True) bob_request bob_state)))"

lemma bob_identity: "From (px_headers (example_proxy both)) (rq_header bob_request) = Inr bob"
proof -
  have "px_headers (example_proxy both) = NewHeaders AuthRequestPrefix" by (simp add: example_proxy_def)
  moreover have "From (NewHeaders AuthRequestPrefix) (rq_header bob_request) = Inr bob" by code_simp
  ultimately show ?thesis by simp
qed

lemma bob_resolved: "fst (Instrumented StaticAllowed ''static'' bob s) = Inr bob_scope"
  if "auth s = auth bob_state" for s :: "static_authorizer reg_state"
  using that
  by (simp add: Instrumented_def StaticAllowed_def Let_def bob_state_def example_mapping_def bob_def
      bob_scope_def contains_def get_list_def set_all_true_def set_true_def split: prod.split)

lemma bob_route: "request_route (example_proxy both) bob_request = routeServiceMapStre"
  by (simp add: request_route_def bob_request_def example_proxy_def trim_prefix_def has_prefix_def
      knownRoute_def routeServiceMapStre_def)

lemma bob_reply_rp:
  "fst (bob_reply both) = fst (rp_ServeHTTP bob_codec (example_proxy both) (bob_upstream [])
     (Some \<lparr>filtered = True, ri_scope = bob_scope, ri_id = bob\<rparr>) bob_request bob_authorized)"
proof -
  let ?s = "timed (example_proxy True) bob_request bob_state"
  have t: "timed (example_proxy both) bob_request bob_state = ?s"
    by (simp add: timed_def bob_route)
  obtain res s1 where al: "Instrumented StaticAllowed ''static'' bob ?s = (res, s1)" by fastforce
  have "res = Inr bob_scope"
    using bob_resolved [of ?s] al by (simp add: timed_def)
  moreover have "has_prefix (rq_path bob_request) (apiPrefix (example_proxy both))"
    by (simp add: bob_request_def example_proxy_def has_prefix_def)
  ultimately show ?thesis
    by (simp add: bob_reply_def ServeHTTP_api bob_identity t al bob_route bob_authorized_def)
qed

lemma bob_strict: "fst (bob_reply True) = Relayed (bob_served [10, 2])"
  unfolding bob_reply_rp by code_simp

lemma bob_lenient: "fst (bob_reply False) = Relayed (bob_served [10, 1])"
  unfolding bob_reply_rp by code_simp

lemma bob_state_ok: "reg_ok bob_state"
  by (rule new_registry_ok) (simp_all add: bob_state_def fresh_metrics_def)


lemma bob_api: "has_prefix (rq_path bob_request) (apiPrefix (example_proxy both))"
  by (simp add: bob_request_def example_proxy_def has_prefix_def)

lemma bob_run: "fst (bob_reply both) = reply \<Longrightarrow>
    ServeHTTP (Instrumented StaticAllowed ''static'') bob_codec (example_proxy both) (bob_upstream [])
      bob_request bob_state = (reply, snd (bob_reply both))"
  by (simp add: bob_reply_def prod_eq_iff)

theorem relays_only_filtered_witness:
  "\<exists>i sc s1 ur s2. From (px_headers (example_proxy True)) (rq_header bob_request) = Inr i
    \<and> Instrumented StaticAllowed ''static'' i (timed (example_proxy True) bob_request bob_state) = (Inr sc, s1)
    \<and> round_trip (bob_upstream []) (Rewrite (bob_upstream []) bob_request) = Inr ur
    \<and> (bob_served [10, 2] = up_response ur \<and> passes_unfiltered sc ur
         \<and> s2 = count_request (request_route (example_proxy True) bob_request) OutcomeFiltered s1
       \<or> filtered_whole bob_codec (example_proxy True) i sc ur (bob_served [10, 2])
           (count_request (request_route (example_proxy True) bob_request) OutcomeFiltered s1) s2)
    \<and> snd (bob_reply True) = observe_duration (request_route (example_proxy True) bob_request) s2"
  by (rule relays_only_filtered [OF bob_api _ bob_run [OF bob_strict]]) (simp add: example_proxy_def)

section \<open>What the caller can read\<close>

text \<open>
  The namespaces a relayed envelope tells its reader about; a body that could not be decoded
  might tell anything.
\<close>

definition control_discloses :: "control_response \<Rightarrow> string set" where
  "control_discloses r =
    (case control_namespaces r of
       None \<Rightarrow> {} | Some st \<Rightarrow> (\<lambda>n. state_namespace (Some n)) ` set (nss_namespaces st))"

definition message_discloses :: "codec \<Rightarrow> (string \<Rightarrow> string option) \<Rightarrow> message \<Rightarrow> string set" where
  "message_discloses cd K msg =
    (if message_content msg = [] then {}
     else if message_route msg = routeControlStream then
       (case unmarshal_control cd (message_content msg) of
          Inl _ \<Rightarrow> UNIV | Inr r \<Rightarrow> control_discloses r)
     else if message_route msg = routeServiceMapStre then
       (case unmarshal_events cd (message_content msg) of
          Inl _ \<Rightarrow> UNIV | Inr r \<Rightarrow> (\<Union>ev \<in> set (er_events r). \<Union>(disclosed K ev)))
     else UNIV)"

lemma with_content_fields [simp]:
  "message_route (with_content b msg) = message_route msg"
  "message_channel (with_content b msg) = message_channel msg"
  "message_content (with_content b msg) = (if msg_body msg = None then [] else b)"
  by (auto simp: message_route_def message_channel_def message_content_def with_content_def)

lemma content_type_kept: "is_json (rebuilt resp out) = is_json resp"
proof -
  have "canonical_key ''Content-Type'' \<noteq> canonical_key ''Content-Length''" by code_simp
  then show ?thesis by (simp add: is_json_def rebuilt_def header_get_set)
qed

lemma control_strict:
  assumes "reg_ok s" and reads: "codec_reads_back cd"
    and run: "filterControlStream cd p c body sc i s = (Inr out, s')"
  shows "\<exists>r. unmarshal_control cd out = Inr r \<and> control_discloses r \<subseteq> scope_set sc"
proof (cases "unmarshal_control cd body")
  case (Inl e)
  with run show ?thesis by (simp add: filterControlStream_def)
next
  case (Inr resp)
  show ?thesis
  proof (cases "control_namespaces resp")
    case None
    with run Inr show ?thesis by (auto simp: filterControlStream_def control_discloses_def)
  next
    case (Some st)
    have notice: "control_discloses (noPermissionResponse i) = {}"
      by (simp add: control_discloses_def control_namespaces_def noPermissionResponse_def Let_def
          split: prod.split)
    from filterControlStream_spec [OF assms(1) Inr Some run] reads notice show ?thesis
      by (auto simp: codec_reads_back_def control_discloses_def control_namespaces_def
          visible_namespaces_def split: if_splits)
  qed
qed

lemma filterBody_strict:
  assumes "reg_ok s" and reads: "codec_reads_back cd" and strict: "requireBoth p"
    and run: "filterBody cd p (message_route msg) (message_channel msg) (message_content msg) sc i s
      = (Inr body, s')"
  shows "message_discloses cd (known s' (message_channel msg)) (with_content body msg)
    \<subseteq> insert [] (scope_set sc)"
proof (cases "msg_body msg = None \<or> message_content msg = []")
  case True
  then have "message_content msg = []" by (auto simp: message_content_def)
  with run have "message_content (with_content body msg) = []" by (simp add: filterBody_def)
  then show ?thesis by (simp add: message_discloses_def)
next
  case False
  then consider (control) "message_route msg = routeControlStream"
      "filterControlStream cd p (message_channel msg) (message_content msg) sc i s = (Inr body, s')"
    | (map) "message_route msg \<noteq> routeControlStream" "message_route msg = routeServiceMapStre"
      "filterServiceMapStream cd p (message_channel msg) (message_content msg) sc s = (Inr body, s')"
    using run by (auto simp: filterBody_def split: if_splits)
  then show ?thesis
  proof cases
    case control
    from control_strict [OF assms(1) reads control(2)] control(1) False show ?thesis
      by (auto simp: message_discloses_def)
  next
    case map
    from service_map_strict [OF assms(1) reads strict map(3)] obtain resp where
      "unmarshal_events cd body = Inr resp" and
      "(\<Union>ev \<in> set (er_events resp). \<Union>(disclosed (known s' (message_channel msg)) ev))
        \<subseteq> insert [] (scope_set sc)" by blast
    moreover have "message_content (with_content body msg) = body" using False by auto
    ultimately show ?thesis
      using map(1,2) by (cases "body = []") (simp_all only: message_discloses_def with_content_fields(1)
          if_False if_True sum.case simp_thms empty_subsetI refl)
  qed
qed

context handler_authorizer begin

lemma strict_end_to_end:
  assumes ok: "reg_ok s" and inv: "inv s" and reads: "codec_reads_back cd" and strict: "requireBoth p"
    and api: "has_prefix (rq_path r) (apiPrefix p)"
    and run: "ServeHTTP allowed cd p up r s = (Relayed resp, s')"
    and 200: "status resp = StatusOK"
  shows "\<exists>i sc msg. From (px_headers p) (rq_header r) = Inr i \<and> justified s s' i sc
    \<and> (sc_all sc \<or> decodeEnvelope cd (rs_body resp) (is_json resp) = Inr msg
         \<and> message_discloses cd (known s' (message_channel msg)) msg \<subseteq> insert [] (scope_set sc))"
proof (rule relayed_only_filtered [OF inv api run])
  fix i sc ur s1 s2
  assume i: "From (px_headers p) (rq_header r) = Inr i" and j1: "justified s s1 i sc"
    and later: "reg_ok s \<Longrightarrow> served_frame s1 s'" and ok1: "reg_ok s1 = reg_ok s" and s': "s' = observe_duration (request_route p r) s2"
    and how: "resp = up_response ur \<and> passes_unfiltered sc ur \<or> filtered_reply cd p i sc ur resp s1 s2"
  have j: "justified s s' i sc" by (rule justified_later [OF j1 later [OF ok]])
  show ?thesis
  proof (cases "sc_all sc")
    case False
    with how 200 have "filtered_reply cd p i sc ur resp s1 s2"
      by (auto simp: passes_unfiltered_def)
    then obtain msg body out where fb: "filterBody cd p (message_route msg) (message_channel msg)
          (message_content msg) sc i s1 = (Inr body, s2)"
      and enc: "encodeEnvelope cd (with_content body msg) (is_json (up_response ur)) = Inr out"
      and resp: "resp = rebuilt (up_response ur) out"
      unfolding filtered_reply_def by blast
    have "rs_body resp = out" by (simp add: resp rebuilt_def)
    with enc reads have "decodeEnvelope cd (rs_body resp) (is_json resp) = Inr (with_content body msg)"
      by (auto simp: resp content_type_kept encodeEnvelope_def decodeEnvelope_def codec_reads_back_def
          split: if_splits)
    moreover have "message_discloses cd (known s2 (message_channel msg)) (with_content body msg)
        \<subseteq> insert [] (scope_set sc)"
      using filterBody_strict [OF _ reads strict fb] ok ok1 by simp
    ultimately show ?thesis using i j s' by auto
  qed (use i j in auto)
qed

end

text \<open>
  End to end, strict mode confines a mapped caller: on an API path, for whatever a
  successful backend response contained, the envelope the caller receives decodes, and nothing
  in it names a namespace the mapping does not give this very identity.
\<close>

theorem end_to_end_strict:
  assumes "reg_ok s" and "codec_reads_back cd" and "requireBoth p"
    and "has_prefix (rq_path r) (apiPrefix p)"
    and "ServeHTTP (Instrumented StaticAllowed ''static'') cd p up r s = (Relayed resp, s')"
    and "status resp = StatusOK"
  shows "\<exists>i msg. From (px_headers p) (rq_header r) = Inr i
    \<and> (is_admin (sa_m (auth s)) i
       \<or> decodeEnvelope cd (rs_body resp) (is_json resp) = Inr msg
         \<and> message_discloses cd (known s' (message_channel msg)) msg
           \<subseteq> insert [] (mapped_ns (sa_m (auth s)) i))"
proof -
  from static_handler.strict_end_to_end [OF assms(1) TrueI assms(2-)] obtain i sc msg where
    "From (px_headers p) (rq_header r) = Inr i" and "static_justified s i sc"
    and "sc_all sc \<or> decodeEnvelope cd (rs_body resp) (is_json resp) = Inr msg
         \<and> message_discloses cd (known s' (message_channel msg)) msg \<subseteq> insert [] (scope_set sc)"
    by blast
  moreover have "scope_set sc \<subseteq> mapped_ns (sa_m (auth s)) i" "sc_all sc \<longrightarrow> is_admin (sa_m (auth s)) i"
    using \<open>static_justified s i sc\<close> by (auto simp: static_justified_def scope_set_def)
  ultimately show ?thesis by (intro exI [of _ i] exI [of _ msg]) auto
qed

theorem end_to_end_strict_witness:
  "\<exists>i msg. From (px_headers (example_proxy True)) (rq_header bob_request) = Inr i
    \<and> (is_admin (sa_m (auth bob_state)) i
       \<or> decodeEnvelope bob_codec (rs_body (bob_served [10, 2])) (is_json (bob_served [10, 2])) = Inr msg
         \<and> message_discloses bob_codec (known (snd (bob_reply True)) (message_channel msg)) msg
           \<subseteq> insert [] (mapped_ns (sa_m (auth bob_state)) i))"
  by (rule end_to_end_strict [OF bob_state_ok _ _ bob_api bob_run [OF bob_strict]])
    (simp_all add: bob_codec_def table_codec_reads_back example_proxy_both bob_served_def StatusOK_def)


section \<open>When the backend is contacted\<close>

text \<open>
  C9. On an API path the backend is not asked without an identity and a scope: if what the caller
  gets or what the process records depends on the backend at all, then the request carried an
  identity and the authorizer resolved it. This holds for any authorizer. Off the API prefix
  requests are passed through without either, which is why the path is a premise.
\<close>

theorem backend_only_when_authorized:
  assumes api: "has_prefix (rq_path r) (apiPrefix p)"
    and depends: "ServeHTTP allowed cd p up r s \<noteq> ServeHTTP allowed cd p up' r s"
  shows "\<exists>i sc s1. From (px_headers p) (rq_header r) = Inr i \<and> allowed i (timed p r s) = (Inr sc, s1)"
proof (cases "From (px_headers p) (rq_header r)")
  case (Inl e)
  with depends show ?thesis by (simp add: ServeHTTP_api [OF api])
next
  case (Inr i)
  obtain res s1 where al: "allowed i (timed p r s) = (res, s1)" by fastforce
  with depends Inr show ?thesis
    by (cases res) (auto simp: ServeHTTP_api [OF api])
qed

definition down_upstream :: upstream where
  "down_upstream = \<lparr>backend_path = [], strip_hop_headers = id,
     round_trip = (\<lambda>_. Inl (Plain ''connection refused''))\<rparr>"

lemma bob_down: "fst (ServeHTTP (Instrumented StaticAllowed ''static'') bob_codec (example_proxy True)
    down_upstream bob_request bob_state) = Http_Error StatusBadGateway ''bad gateway''"
proof -
  obtain s1 where al: "Instrumented StaticAllowed ''static'' bob
      (timed (example_proxy True) bob_request bob_state) = (Inr bob_scope, s1)"
    using bob_resolved [of "timed (example_proxy True) bob_request bob_state"]
    by (cases "Instrumented StaticAllowed ''static'' bob
        (timed (example_proxy True) bob_request bob_state)") (simp add: timed_def)
  have "fst (rp_ServeHTTP bob_codec (example_proxy True) down_upstream ctx bob_request t)
      = Http_Error StatusBadGateway ''bad gateway''" for ctx and t :: "static_authorizer reg_state"
    by (simp add: rp_ServeHTTP_def down_upstream_def ErrorHandler_def clientGone_def Let_def)
  then show ?thesis by (simp add: ServeHTTP_api [OF bob_api] bob_identity al)
qed

theorem backend_only_when_authorized_witness:
  "\<exists>i sc s1. From (px_headers (example_proxy True)) (rq_header bob_request) = Inr i
     \<and> Instrumented StaticAllowed ''static'' i (timed (example_proxy True) bob_request bob_state)
       = (Inr sc, s1)"
proof (rule backend_only_when_authorized [OF bob_api, where up = "bob_upstream []"
      and up' = down_upstream and cd = bob_codec])
  show "ServeHTTP (Instrumented StaticAllowed ''static'') bob_codec (example_proxy True)
      (bob_upstream []) bob_request bob_state
    \<noteq> ServeHTTP (Instrumented StaticAllowed ''static'') bob_codec (example_proxy True)
      down_upstream bob_request bob_state"
    using bob_down bob_run [OF bob_strict] by (metis fst_conv reply.distinct(1))
qed

section \<open>Oversized responses\<close>

text \<open>
  C36. An oversized response is refused, with any authorizer and for every limit but the largest
  64-bit integer: when the backend answers 200, with a content type the proxy decodes, to a request
  on an API path whose caller's scope was resolved and is not unrestricted, and delivers more bytes
  than the limit, then nothing of the response is relayed, whether or not the connection breaks
  later; the caller gets a 502, and the request is counted as filtered and as too large.
\<close>

theorem oversized_refused:
  assumes api: "has_prefix (rq_path r) (apiPrefix p)" and limit: "maxResponse p \<noteq> 0x7FFFFFFFFFFFFFFF"
    and i: "From (px_headers p) (rq_header r) = Inr i" and al: "allowed i (timed p r s) = (Inr sc, s1)"
    and ur: "round_trip up (Rewrite up r) = Inr ur"
    and scoped: "\<not> sc_all sc" "status (up_response ur) = StatusOK" "decodable (up_response ur)"
    and large: "sint (maxResponse p) < int (length (rs_body (up_response ur)))"
  shows "ServeHTTP allowed cd p up r s = (Http_Error StatusBadGateway ''response too large'',
    observe_duration (request_route p r)
      (count_request (knownRoute (trim_prefix (rq_path (Rewrite up r)) (apiPrefix p))) OutcomeResponseTooLarge
        (count_request (request_route p r) OutcomeFiltered s1)))"
proof -
  let ?info = "\<lparr>filtered = True, ri_scope = sc, ri_id = i\<rparr>"
  have "\<exists>raw. read_limited (maxResponse p + 1) ur = Inr raw"
    using large sint_succ [OF limit] by (auto simp: read_limited_def Let_def)
  then obtain raw where raw: "read_limited (maxResponse p + 1) ur = Inr raw" ..
  with large sint_succ [OF limit] have "sint (maxResponse p) < int (length raw)"
    by (auto simp: read_limited_def Let_def split: if_splits)
  moreover have "\<not> passes_unfiltered (ri_scope ?info) ur" "filtered ?info"
    using scoped by (simp_all add: passes_unfiltered_def)
  ultimately show ?thesis
    using raw scoped(3) ur i al
    by (simp add: ServeHTTP_api [OF api] rp_ServeHTTP_def filterResponse_filters ErrorHandler_def clientGone_def)
qed

theorem oversized_refused_witness:
  "fst (ServeHTTP (Instrumented StaticAllowed ''static'') bob_codec (example_proxy True\<lparr>maxResponse := 1\<rparr>)
     (bob_upstream []) bob_request bob_state) = Http_Error StatusBadGateway ''response too large''"
proof -
  let ?p = "example_proxy True\<lparr>maxResponse := 1\<rparr>"
  let ?s = "timed ?p bob_request bob_state"
  obtain ur where ur: "round_trip (bob_upstream []) (Rewrite (bob_upstream []) bob_request) = Inr ur"
      "status (up_response ur) = 200" "rs_body (up_response ur) = [10, 1]"
      "rs_header (up_response ur) = [(''Content-Type'', [''application/octet-stream''])]"
    by (simp add: bob_upstream_def)
  have octets: "header_get [(''Content-Type'', [''application/octet-stream''])] ''Content-Type''
      = ''application/octet-stream''"
    by code_simp
  have "fst (Instrumented StaticAllowed ''static'' bob ?s) = Inr bob_scope"
    by (rule bob_resolved) (simp add: timed_def)
  then have al: "Instrumented StaticAllowed ''static'' bob ?s
      = (Inr bob_scope, snd (Instrumented StaticAllowed ''static'' bob ?s))" by (simp add: prod_eq_iff)
  have i: "From (px_headers ?p) (rq_header bob_request) = Inr bob" using bob_identity [of True] by simp
  have api: "has_prefix (rq_path bob_request) (apiPrefix ?p)" using bob_api [of True] by simp
  show ?thesis
    using oversized_refused [where allowed = "Instrumented StaticAllowed ''static''" and s = bob_state
        and up = "bob_upstream []" and cd = bob_codec, OF api _ i al ur(1)] ur octets
    by (simp add: decodable_def bob_scope_def StatusOK_def has_prefix_def)
qed

section \<open>What is reported\<close>

lemma knownRoute_known: "knownRoute s \<in> set KnownRoutes"
  by (simp add: knownRoute_def KnownRoutes_def Let_def)

text \<open>
  What every request preserves: the registry's invariant, and that only label combinations known
  in advance have been reported.
\<close>

definition process_ok :: "('az, 'b) reg_state_scheme \<Rightarrow> bool" where
  "process_ok s \<longleftrightarrow> reg_ok s \<and> series (RequestsTotal (met s)) \<subseteq> request_labels KnownRoutes
     \<and> series (RequestDuration (met s)) \<subseteq> singleton_labels KnownRoutes"

lemma process_ok_frame: "process_ok s \<Longrightarrow> on_channel c s s' \<Longrightarrow> process_ok s'"
  by (simp add: process_ok_def on_channel_def filter_frame_def)

lemma process_ok_count:
  assumes "process_ok s" and "route = RouteNone \<and> oc = OutcomePassthrough
      \<or> route \<in> set KnownRoutes \<and> oc \<in> set RequestOutcomes"
  shows "process_ok (count_request route oc s)"
  using assms by (auto simp: process_ok_def count_request_def request_labels_def reg_ok_def)

lemma process_ok_duration:
  assumes "route \<in> set KnownRoutes"
  shows "process_ok s \<Longrightarrow> process_ok (observe_duration route s)"
    and "process_ok s \<Longrightarrow> process_ok (observe (\<lambda>m. m\<lparr>RequestDuration :=
          with_label_values [route] (RequestDuration m)\<rparr>) s)"
  using assms by (auto simp: process_ok_def observe_duration_def singleton_labels_def reg_ok_def)

lemma filterResponse_ok:
  assumes ok: "process_ok s" and run: "filterResponse cd p r ctx up s = (res, s')"
  shows "process_ok s'"
proof (cases ctx)
  case None
  with run ok show ?thesis by (simp add: filterResponse_def)
next
  case (Some info)
  have step: "process_ok s2" if "filterBody cd p x c b sc i s = (fr, s2)" for x c b sc i fr s2
    using filterBody_on_channel [OF _ that] process_ok_frame [OF ok] ok
    by (simp add: process_ok_def)
  show ?thesis
  proof (cases "filtered info \<and> \<not> passes_unfiltered (ri_scope info) up")
    case False
    with run Some ok filterResponse_unfiltered [of info up cd p r s] show ?thesis by auto
  next
    case True
    with run Some ok step show ?thesis
      by (auto simp: filterResponse_filters split: if_splits sum.splits prod.splits)
  qed
qed

lemma outcomes [simp]:
  "OutcomeFiltered \<in> set RequestOutcomes" "OutcomeUnauthenticated \<in> set RequestOutcomes"
  "OutcomeAuthzError \<in> set RequestOutcomes" "OutcomeClientGone \<in> set RequestOutcomes"
  "OutcomeUpstreamError \<in> set RequestOutcomes" "OutcomeResponseTooLarge \<in> set RequestOutcomes"
  by (simp_all add: RequestOutcomes_def)

lemma ErrorHandler_ok: "process_ok s \<Longrightarrow> process_ok (snd (ErrorHandler p r e s))"
  by (simp add: ErrorHandler_def Let_def process_ok_count knownRoute_known)

lemma rp_ServeHTTP_ok:
  assumes ok: "process_ok s"
  shows "process_ok (snd (rp_ServeHTTP cd p up ctx r s))"
proof (cases "round_trip up (Rewrite up r)")
  case (Inl e)
  with ok show ?thesis by (simp add: rp_ServeHTTP_def ErrorHandler_ok)
next
  case (Inr ur)
  obtain res s1 where fr: "filterResponse cd p (Rewrite up r) ctx ur s = (res, s1)" by fastforce
  from filterResponse_ok [OF ok fr] fr Inr show ?thesis
    by (cases res) (auto simp: rp_ServeHTTP_def ErrorHandler_ok split: option.split)
qed

context handler_authorizer begin

lemma ServeHTTP_ok:
  assumes ok: "process_ok s"
  shows "process_ok (snd (ServeHTTP allowed cd p up r s))"
proof (cases "has_prefix (rq_path r) (apiPrefix p)")
  case False
  with ok show ?thesis
    by (simp add: ServeHTTP_def rp_ServeHTTP_ok process_ok_count)
next
  case True
  have route: "request_route p r \<in> set KnownRoutes" by (simp add: request_route_def knownRoute_known)
  have t: "process_ok (timed p r s)"
    unfolding timed_def by (rule process_ok_duration(2) [OF route ok])
  have al: "process_ok s1" if "allowed i (timed p r s) = (res, s1)" for i res s1
    using t authorized_registry(1) [OF that] keeps_counters [OF that] by (simp add: process_ok_def)
  show ?thesis
    using t al
    by (auto simp: ServeHTTP_api [OF True] process_ok_duration(1) [OF route] process_ok_count route
        rp_ServeHTTP_ok split: sum.split prod.split)
qed

end

definition serve_all ::
  "(identity \<Rightarrow> ('az, 'b) reg_state_scheme \<Rightarrow> (go_error + scope) \<times> ('az, 'b) reg_state_scheme)
   \<Rightarrow> codec \<Rightarrow> proxy \<Rightarrow> (upstream \<times> request) list \<Rightarrow> ('az, 'b) reg_state_scheme
   \<Rightarrow> ('az, 'b) reg_state_scheme" where
  "serve_all allowed cd p traffic s =
    fold (\<lambda>(up, r) s. snd (ServeHTTP allowed cd p up r s)) traffic s"

lemma request_labels_bounded:
  "card (request_labels KnownRoutes) \<le> 19" "finite (request_labels KnownRoutes)"
proof -
  have "request_labels KnownRoutes = set ([RouteNone, OutcomePassthrough]
      # concat (map (\<lambda>r. map (\<lambda>oc. [r, oc]) RequestOutcomes) KnownRoutes))"
    by (auto simp: request_labels_def)
  then show "card (request_labels KnownRoutes) \<le> 19" and "finite (request_labels KnownRoutes)"
    using card_length [of "[RouteNone, OutcomePassthrough]
      # concat (map (\<lambda>r. map (\<lambda>oc. [r, oc]) RequestOutcomes) KnownRoutes)"]
    by (simp_all add: RequestOutcomes_def KnownRoutes_def)
qed

text \<open>
  Callers cannot grow the process: after any sequence of requests, with any paths, headers
  and backend responses, at most 19 request series exist, all of them known in advance, and the
  channel registry satisfies its invariant, its cap included.
\<close>

theorem any_traffic_keeps_invariant:
  assumes "process_ok s"
  shows "process_ok (serve_all (Instrumented StaticAllowed ''static'') cd p traffic s)
    \<and> card (series (RequestsTotal (met (serve_all (Instrumented StaticAllowed ''static'') cd p traffic s)))) \<le> 19"
proof -
  have ok: "process_ok (serve_all (Instrumented StaticAllowed ''static'') cd p traffic s)"
    using assms unfolding serve_all_def
    by (induction traffic arbitrary: s) (auto simp: static_handler.ServeHTTP_ok)
  with request_labels_bounded show ?thesis
    unfolding process_ok_def by (meson card_mono le_trans)
qed

lemma bob_process_ok: "process_ok bob_state"
  using bob_state_ok by (simp add: process_ok_def bob_state_def fresh_metrics_def series_def)

theorem any_traffic_keeps_invariant_witness:
  "process_ok (serve_all (Instrumented StaticAllowed ''static'') bob_codec (example_proxy True)
      [(bob_upstream [], bob_request), (down_upstream, bob_request)] bob_state)"
  using any_traffic_keeps_invariant [OF bob_process_ok] by blast

text \<open>
  A failure on a known route is reported under another one when the backend has a base path:
  the error handler sees the path the request was rewritten to.
\<close>

theorem error_route_after_rewrite:
  "request_route (example_proxy both) bob_request = routeServiceMapStre
   \<and> snd (ErrorHandler (example_proxy both) (Rewrite (bob_upstream ''/ui'') bob_request)
        (Plain ''connection refused'') s)
      = count_request routeOther OutcomeUpstreamError s"
proof -
  have "rq_path (Rewrite (bob_upstream ''/ui'') bob_request) = ''/ui/api/service-map-stream''"
    by (simp add: Rewrite_def bob_upstream_def bob_request_def join_path_def has_suffix_def has_prefix_def)
  then have "snd (ErrorHandler (example_proxy both) (Rewrite (bob_upstream ''/ui'') bob_request)
      (Plain ''connection refused'') s) = count_request routeOther OutcomeUpstreamError s"
    by (simp add: ErrorHandler_def clientGone_def Let_def example_proxy_def trim_prefix_def
        has_prefix_def knownRoute_def routeControlStream_def routeServiceMapStre_def routeOther_def)
  then show ?thesis by (simp add: bob_route)
qed

end
