(* ===== verification/Concurrent_Filters.thy ===== *)
theory Concurrent_Filters
  imports Filter_Steps_Laws Proxy_Properties
begin

text \<open>
  Any number of responses filtered at the same time over one registry: requests enter with the
  scope their authorizer granted and the response the backend gave, and their steps interleave with
  one another, with the sweeper, and with whatever else the process does outside the registry.
\<close>

section \<open>Requests in flight\<close>

record task =
  tk_request :: request
  tk_info :: reqInfo
  tk_up :: upstream_response
  tk_handling :: handling

record ('az, 'b) server =
  memory :: "('az, 'b) reg_state_scheme"
  tasks :: "nat \<Rightarrow> task option"

definition accept :: "codec \<Rightarrow> proxy \<Rightarrow> request \<Rightarrow> reqInfo \<Rightarrow> upstream_response \<Rightarrow> task" where
  "accept cd p r info up = \<lparr>tk_request = r, tk_info = info, tk_up = up,
     tk_handling = open_response cd p r (Some info) up\<rparr>"

definition set_task :: "nat \<Rightarrow> task \<Rightarrow> ('az, 'b) server \<Rightarrow> ('az, 'b) server" where
  "set_task t tk V = V\<lparr>tasks := (tasks V)(t \<mapsto> tk)\<rparr>"

inductive filter_step :: "codec \<Rightarrow> proxy \<Rightarrow> ('az, 'b) server \<Rightarrow> ('az, 'b) server \<Rightarrow> bool" for cd p where
  enter: "tasks V t = None \<Longrightarrow> filter_step cd p V (set_task t (accept cd p r info up) V)"
| proceed: "tasks V t = Some tk \<Longrightarrow>
    handle_step cd p (tk_info tk) (tk_up tk) (tk_handling tk) (memory V) = (h, s) \<Longrightarrow>
    filter_step cd p V (set_task t (tk\<lparr>tk_handling := h\<rparr>) (V\<lparr>memory := s\<rparr>))"
| sweeping: "filter_step cd p V (V\<lparr>memory := sweep (memory V)\<rparr>)"
| elsewhere: "services s = services (memory V) \<Longrightarrow>
    TrackedChannels (met s) = TrackedChannels (met (memory V)) \<Longrightarrow>
    filter_step cd p V (V\<lparr>memory := s\<rparr>)"

inductive filter_steps :: "codec \<Rightarrow> proxy \<Rightarrow> ('az, 'b) server \<Rightarrow> ('az, 'b) server \<Rightarrow> bool" for cd p where
  no_step: "filter_steps cd p V V"
| one_more: "filter_steps cd p V W \<Longrightarrow> filter_step cd p W X \<Longrightarrow> filter_steps cd p V X"

definition idle_server :: "('az, 'b) reg_state_scheme \<Rightarrow> ('az, 'b) server" where
  "idle_server s = \<lparr>memory = s, tasks = Map.empty\<rparr>"

lemma set_task_simps [simp]:
  "memory (set_task t tk V) = memory V" "tasks (set_task t tk V) = (tasks V)(t \<mapsto> tk)"
  by (simp_all add: set_task_def)

section \<open>What the requests so far have said\<close>

text \<open>
  The batch a request brings to a channel, the services announced on a channel by the batches of all
  requests so far, and the services such a batch links to the scope of its own request.
\<close>

definition batch :: "codec \<Rightarrow> proxy \<Rightarrow> task \<Rightarrow> (string \<times> ui_event list) option" where
  "batch cd p tk =
    (case open_response cd p (tk_request tk) (Some (tk_info tk)) (tk_up tk) of
       Handling msg (Learning resp evs) \<Rightarrow> Some (message_channel msg, er_events resp)
     | _ \<Rightarrow> None)"

definition said :: "codec \<Rightarrow> proxy \<Rightarrow> (nat \<Rightarrow> task option) \<Rightarrow> string \<Rightarrow> string \<Rightarrow> string \<Rightarrow> bool" where
  "said cd p ts c v n \<longleftrightarrow>
    (\<exists>t tk evs. ts t = Some tk \<and> batch cd p tk = Some (c, evs) \<and> (v, n) \<in> set (announcements evs))"

definition task_scope :: "task \<Rightarrow> string set" where
  "task_scope tk = scope_set (ri_scope (tk_info tk))"

definition paired :: "codec \<Rightarrow> proxy \<Rightarrow> (nat \<Rightarrow> task option) \<Rightarrow> string \<Rightarrow> string \<Rightarrow> bool" where
  "paired cd p ts c v \<longleftrightarrow> \<not> requireBoth p \<and>
    (\<exists>t tk evs link a b. ts t = Some tk \<and> batch cd p tk = Some (c, evs)
       \<and> link \<in> set (List.map_filter event_link evs)
       \<and> said cd p ts c (sl_source_id link) a \<and> said cd p ts c (sl_destination_id link) b
       \<and> (a \<in> task_scope tk \<and> b \<notin> task_scope tk \<and> v = sl_destination_id link
          \<or> b \<in> task_scope tk \<and> a \<notin> task_scope tk \<and> v = sl_source_id link))"

lemma pairedI:
  "\<not> requireBoth p \<Longrightarrow> ts t = Some tk \<Longrightarrow> batch cd p tk = Some (c, evs)
    \<Longrightarrow> link \<in> set (List.map_filter event_link evs)
    \<Longrightarrow> said cd p ts c (sl_source_id link) a \<Longrightarrow> said cd p ts c (sl_destination_id link) b
    \<Longrightarrow> a \<in> task_scope tk \<and> b \<notin> task_scope tk \<and> v = sl_destination_id link
        \<or> b \<in> task_scope tk \<and> a \<notin> task_scope tk \<and> v = sl_source_id link
    \<Longrightarrow> paired cd p ts c v"
  unfolding paired_def by blast

definition continues :: "(nat \<Rightarrow> task option) \<Rightarrow> (nat \<Rightarrow> task option) \<Rightarrow> bool" where
  "continues ts ts' \<longleftrightarrow> (\<forall>t tk. ts t = Some tk \<longrightarrow> (\<exists>h. ts' t = Some (tk\<lparr>tk_handling := h\<rparr>)))"

lemma batch_handling [simp]: "batch cd p (tk\<lparr>tk_handling := h\<rparr>) = batch cd p tk"
  and task_scope_handling [simp]: "task_scope (tk\<lparr>tk_handling := h\<rparr>) = task_scope tk"
  by (simp_all add: batch_def task_scope_def)

lemma continues_refl: "continues ts ts"
  unfolding continues_def by (metis task.surjective task.update_convs(4))

lemma continues_new: "ts t = None \<Longrightarrow> continues ts (ts(t \<mapsto> tk))"
  unfolding continues_def by (metis continues_refl continues_def fun_upd_other option.distinct(1))

lemma continues_upd: "ts t = Some tk \<Longrightarrow> continues ts (ts(t \<mapsto> tk\<lparr>tk_handling := h\<rparr>))"
  unfolding continues_def by (metis continues_refl continues_def fun_upd_apply option.inject)

lemma said_mono: "continues ts ts' \<Longrightarrow> said cd p ts c v n \<Longrightarrow> said cd p ts' c v n"
  unfolding said_def continues_def by (metis batch_handling)

lemma paired_mono:
  assumes "continues ts ts'" and "paired cd p ts c v"
  shows "paired cd p ts' c v"
proof -
  from assms(2) obtain t tk evs link a b where tk: "\<not> requireBoth p" "ts t = Some tk" "batch cd p tk = Some (c, evs)"
    "link \<in> set (List.map_filter event_link evs)"
    and ends: "said cd p ts c (sl_source_id link) a" "said cd p ts c (sl_destination_id link) b"
    and how: "a \<in> task_scope tk \<and> b \<notin> task_scope tk \<and> v = sl_destination_id link
          \<or> b \<in> task_scope tk \<and> a \<notin> task_scope tk \<and> v = sl_source_id link"
    unfolding paired_def by blast
  from assms(1) tk(2) obtain h where "ts' t = Some (tk\<lparr>tk_handling := h\<rparr>)" unfolding continues_def by blast
  with tk how ends [THEN said_mono [OF assms(1)]] show ?thesis
    unfolding paired_def by (metis batch_handling task_scope_handling)
qed

section \<open>The invariant\<close>

text \<open>A stage of the service-map filter, with the events it still goes through.\<close>

definition map_job :: "string \<Rightarrow> ui_event list option \<Rightarrow> events_response \<Rightarrow> ui_event list \<Rightarrow> bool" where
  "map_job route B resp evs \<longleftrightarrow> route \<noteq> routeControlStream \<and> route = routeServiceMapStre
     \<and> B = Some (er_events resp) \<and> set evs \<subseteq> set (er_events resp)"

text \<open>
  An event is kept for a reason that the requests so far have given; the two ends of a link are
  looked up at different times.
\<close>

definition admissible ::
  "codec \<Rightarrow> proxy \<Rightarrow> (nat \<Rightarrow> task option) \<Rightarrow> string \<Rightarrow> string set \<Rightarrow> ui_event \<Rightarrow> ui_event \<Rightarrow> bool" where
  "admissible cd p ts c S ev e \<longleftrightarrow>
    (case ev_case ev of
       Some (Event_ServiceLinkState st) \<Rightarrow> e = ev
         \<and> (\<exists>a b. said cd p ts c (link_source (state_link st)) a
              \<and> said cd p ts c (link_destination (state_link st)) b
              \<and> pair_admitted (requireBoth p) S a b)
     | _ \<Rightarrow> \<exists>P. admit p S Map.empty P ev = Some e \<and> (\<forall>v. P v \<longrightarrow> paired cd p ts c v))"

lemma admit_no_link:
  "\<nexists>l. ev_case ev = Some (Event_ServiceLinkState l) \<Longrightarrow> admit p S K P ev = admit p S Map.empty P ev"
  by (auto simp: admit_def Let_def split: option.split event_case.split)

definition kept_ok ::
  "codec \<Rightarrow> proxy \<Rightarrow> (nat \<Rightarrow> task option) \<Rightarrow> string \<Rightarrow> string set \<Rightarrow> ui_event list \<Rightarrow> ui_event list \<Rightarrow> bool" where
  "kept_ok cd p ts c S evs kept \<longleftrightarrow> (\<forall>e \<in> set kept. \<exists>ev \<in> set evs. admissible cd p ts c S ev e)"

definition body_ok ::
  "codec \<Rightarrow> proxy \<Rightarrow> (nat \<Rightarrow> task option) \<Rightarrow> string \<Rightarrow> string \<Rightarrow> string set \<Rightarrow> ui_event list option \<Rightarrow> bytes \<Rightarrow> bool"
where
  "body_ok cd p ts route c S B out \<longleftrightarrow>
    (out = []
     \<or> route = routeControlStream
       \<and> (\<exists>r. (unmarshal_control cd out = Inr r \<or> marshal_control cd r = Inr out) \<and> control_discloses r \<subseteq> S)
     \<or> route \<noteq> routeControlStream \<and> route = routeServiceMapStre
       \<and> (\<exists>r evs. marshal_events cd r = Inr out \<and> B = Some evs \<and> kept_ok cd p ts c S evs (er_events r)))"

fun stage_ok ::
  "codec \<Rightarrow> proxy \<Rightarrow> (nat \<Rightarrow> task option) \<Rightarrow> string \<Rightarrow> string \<Rightarrow> scope \<Rightarrow> ui_event list option \<Rightarrow> stage \<Rightarrow> bool"
where
  "stage_ok cd p ts route c sc B (Picking resp states) \<longleftrightarrow> route = routeControlStream"
| "stage_ok cd p ts route c sc B (Noticing resp states kept) \<longleftrightarrow>
     route = routeControlStream \<and> kept = visible_namespaces sc (nss_namespaces states)"
| "stage_ok cd p ts route c sc B (Learning resp evs) \<longleftrightarrow>
     map_job route B resp evs"
| "stage_ok cd p ts route c sc B (Pairing resp evs) \<longleftrightarrow>
     map_job route B resp evs \<and> \<not> requireBoth p"
| "stage_ok cd p ts route c sc B (Pairing_Destination resp evs link src) \<longleftrightarrow>
     map_job route B resp evs \<and> \<not> requireBoth p
     \<and> link \<in> set (List.map_filter event_link (er_events resp))
     \<and> (\<forall>a. src = Some a \<longrightarrow> said cd p ts c (sl_source_id link) a)"
| "stage_ok cd p ts route c sc B (Peering resp evs link a b) \<longleftrightarrow>
     map_job route B resp evs \<and> \<not> requireBoth p
     \<and> link \<in> set (List.map_filter event_link (er_events resp))
     \<and> said cd p ts c (sl_source_id link) a \<and> said cd p ts c (sl_destination_id link) b"
| "stage_ok cd p ts route c sc B (Keeping resp evs kept) \<longleftrightarrow>
     map_job route B resp evs
     \<and> kept_ok cd p ts c (scope_set sc) (er_events resp) kept"
| "stage_ok cd p ts route c sc B (Keeping_Destination resp evs kept ev src) \<longleftrightarrow>
     map_job route B resp evs
     \<and> kept_ok cd p ts c (scope_set sc) (er_events resp) kept \<and> ev \<in> set (er_events resp)
     \<and> (\<exists>st. ev_case ev = Some (Event_ServiceLinkState st)
          \<and> (\<forall>a. src = Some a \<longrightarrow> said cd p ts c (link_source (state_link st)) a))"
| "stage_ok cd p ts route c sc B (Filtered (Inl e)) \<longleftrightarrow> True"
| "stage_ok cd p ts route c sc B (Filtered (Inr out)) \<longleftrightarrow> body_ok cd p ts route c (scope_set sc) B out"

definition opened :: "codec \<Rightarrow> proxy \<Rightarrow> task \<Rightarrow> message \<Rightarrow> bool" where
  "opened cd p tk msg \<longleftrightarrow> (\<exists>st. open_response cd p (tk_request tk) (Some (tk_info tk)) (tk_up tk) = Handling msg st)"

definition task_ok :: "codec \<Rightarrow> proxy \<Rightarrow> (nat \<Rightarrow> task option) \<Rightarrow> task \<Rightarrow> bool" where
  "task_ok cd p ts tk \<longleftrightarrow>
    (case tk_handling tk of
       Handling msg st \<Rightarrow> opened cd p tk msg
         \<and> stage_ok cd p ts (message_route msg) (message_channel msg) (ri_scope (tk_info tk))
             (map_option snd (batch cd p tk)) st
     | Handled (Inr None) \<Rightarrow> \<not> filtered (tk_info tk) \<or> passes_unfiltered (ri_scope (tk_info tk)) (tk_up tk)
     | Handled (Inr (Some resp)) \<Rightarrow>
         (\<exists>msg body. opened cd p tk msg
            \<and> body_ok cd p ts (message_route msg) (message_channel msg) (task_scope tk)
                (map_option snd (batch cd p tk)) body
            \<and> close_response cd (tk_up tk) msg (Inr body) = Inr (Some resp))
     | Handled (Inl e) \<Rightarrow> True)"

definition server_ok :: "codec \<Rightarrow> proxy \<Rightarrow> ('az, 'b) server \<Rightarrow> bool" where
  "server_ok cd p V \<longleftrightarrow> reg_ok (memory V)
     \<and> (\<forall>c v n. known (memory V) c v = Some n \<longrightarrow> said cd p (tasks V) c v n)
     \<and> (\<forall>c v. peers (memory V) c v \<longrightarrow> paired cd p (tasks V) c v)
     \<and> (\<forall>t tk. tasks V t = Some tk \<longrightarrow> task_ok cd p (tasks V) tk)"

lemma admissible_mono:
  "continues ts ts' \<Longrightarrow> admissible cd p ts c S ev e \<Longrightarrow> admissible cd p ts' c S ev e"
  using said_mono [of ts ts' cd p c] paired_mono [of ts ts' cd p c]
  by (fastforce simp: admissible_def split: option.splits event_case.splits)

lemma kept_ok_mono: "continues ts ts' \<Longrightarrow> kept_ok cd p ts c S evs kept \<Longrightarrow> kept_ok cd p ts' c S evs kept"
  unfolding kept_ok_def by (meson admissible_mono)

lemma body_ok_mono: "continues ts ts' \<Longrightarrow> body_ok cd p ts route c S B out \<Longrightarrow> body_ok cd p ts' route c S B out"
  using kept_ok_mono [of ts ts' cd p c S] by (fastforce simp: body_ok_def)

lemma stage_ok_mono:
  assumes "continues ts ts'" and "stage_ok cd p ts route c sc B st"
  shows "stage_ok cd p ts' route c sc B st"
proof (cases st)
  case (Filtered r)
  with assms body_ok_mono [OF assms(1)] show ?thesis by (cases r) auto
qed (use assms said_mono [OF assms(1)] kept_ok_mono [OF assms(1)] in auto)

lemma task_ok_mono:
  assumes "continues ts ts'" and "task_ok cd p ts tk"
  shows "task_ok cd p ts' tk"
  using assms(2) stage_ok_mono [OF assms(1)] body_ok_mono [OF assms(1)]
  unfolding task_ok_def by (fastforce split: handling.splits sum.splits option.splits)

lemma opened_handling [simp]: "opened cd p (tk\<lparr>tk_handling := h\<rparr>) msg = opened cd p tk msg"
  by (simp add: opened_def)

section \<open>Every step keeps it\<close>

lemma accept_ok: "task_ok cd p ts (accept cd p r info up)"
proof (cases "open_response cd p r (Some info) up")
  case (Handled res)
  then have "res = Inr None \<longrightarrow> \<not> filtered info \<or> passes_unfiltered (ri_scope info) up" "\<nexists>x. res = Inr (Some x)"
    by (auto simp: open_response_def passes_unfiltered_def Let_def split: if_splits sum.splits)
  with Handled show ?thesis by (auto simp: task_ok_def accept_def split: sum.split option.split)
next
  case (Handling msg st)
  then have st: "st = open_body cd (message_route msg) (message_content msg)"
    by (auto simp: open_response_def Let_def split: if_splits sum.splits)
  have none: "control_discloses resp = {}" if "control_namespaces resp = None" for resp
    using that by (simp add: control_discloses_def)
  have "stage_ok cd p ts (message_route msg) (message_channel msg) (ri_scope info)
      (map_option snd (batch cd p (accept cd p r info up))) st"
    using Handling none
    by (auto simp: st open_body_def body_ok_def map_job_def batch_def accept_def split: sum.split option.split)
  with Handling show ?thesis by (auto simp: task_ok_def accept_def opened_def)
qed

lemma decide_stage_ok:
  assumes "decide resp evs kept ev d s = (st, s')" and "map_job route B resp evs"
    and "kept_ok cd p ts c (scope_set sc) (er_events resp) kept"
    and "\<And>e. d = Some e \<Longrightarrow> ev \<in> set (er_events resp) \<and> admissible cd p ts c (scope_set sc) ev e"
  shows "stage_ok cd p ts route c sc B st"
  using assms by (auto simp: decide_def kept_ok_def split: option.splits)

lemma work_stage_ok:
  assumes ok: "reg_ok s" and known: "\<And>v n. known s c v = Some n \<Longrightarrow> said cd p ts c v n"
    and peers: "\<And>v. peers s c v \<Longrightarrow> paired cd p ts c v"
    and st: "stage_ok cd p ts route c sc B st" and w: "work cd p c sc i st s = (st', s')"
  shows "stage_ok cd p ts route c sc B st'"
proof (cases st)
  case (Picking resp states)
  obtain kept s1 where k: "keep_namespaces sc (nss_namespaces states) s = (kept, s1)" by fastforce
  from keep_namespaces_spec [OF ok k] have kept: "kept = visible_namespaces sc (nss_namespaces states)" by blast
  have "control_discloses (resp\<lparr>cr_case := Some (Control_Namespaces (Some (states\<lparr>nss_namespaces := kept\<rparr>)))\<rparr>)
      \<subseteq> scope_set sc"
    by (auto simp: control_discloses_def control_namespaces_def kept visible_namespaces_def)
  with st w Picking k kept show ?thesis
    by (cases "marshal_control cd (resp\<lparr>cr_case := Some (Control_Namespaces (Some (states\<lparr>nss_namespaces := kept\<rparr>)))\<rparr>)")
      (auto simp: body_ok_def split: if_splits)
next
  case (Noticing resp states kept)
  obtain b s1 where m: "MarkEmptyScopeNotified c s = (b, s1)" by fastforce
  have "control_discloses (resp\<lparr>cr_case := Some (Control_Namespaces (Some (states\<lparr>nss_namespaces := kept\<rparr>)))\<rparr>)
      \<subseteq> scope_set sc" "control_discloses (noPermissionResponse i) = {}"
    using st Noticing by (auto simp: control_discloses_def control_namespaces_def visible_namespaces_def
        noPermissionResponse_def Let_def split: prod.split)
  moreover obtain r where "st' = Filtered (marshal_control cd r)"
    and "r = noPermissionResponse i \<or> r = resp\<lparr>cr_case := Some (Control_Namespaces (Some (states\<lparr>nss_namespaces := kept\<rparr>)))\<rparr>"
    using w Noticing m by (auto split: if_splits)
  ultimately show ?thesis using st Noticing
    by (cases "marshal_control cd r") (auto simp: body_ok_def)
next
  case (Learning resp evs)
  with st w show ?thesis by (cases evs) (auto simp: map_job_def kept_ok_def split: if_splits)
next
  case (Pairing resp evs)
  show ?thesis
  proof (cases evs)
    case Nil
    with Pairing st w show ?thesis by (auto simp: map_job_def kept_ok_def)
  next
    case (Cons ev rest)
    show ?thesis
    proof (cases "event_link ev")
      case None
      with Pairing Cons st w show ?thesis by (auto simp: map_job_def)
    next
      case (Some link)
      obtain a s1 where l: "Lookup c (sl_source_id link) s = (a, s1)" by fastforce
      have "link \<in> set (List.map_filter event_link (er_events resp))"
        using st Pairing Cons Some by (force simp: map_job_def List.map_filter_def)
      with Pairing Cons Some st w l known Lookup_same(1) [OF ok l] show ?thesis by (auto simp: map_job_def)
    qed
  qed
next
  case (Pairing_Destination resp evs link a)
  obtain b s1 where l: "Lookup c (sl_destination_id link) s = (b, s1)" by fastforce
  from Pairing_Destination st w l known Lookup_same(1) [OF ok l] show ?thesis
    by (auto split: option.splits)
next
  case (Peering resp evs link a b)
  with st w show ?thesis by auto
next
  case (Keeping resp evs kept)
  show ?thesis
  proof (cases evs)
    case Nil
    with Keeping st w show ?thesis
      using exI [of "\<lambda>r. marshal_events cd r = Inr b \<and> kept_ok cd p ts c (scope_set sc) (er_events resp) (er_events r)"
          "resp\<lparr>er_events := kept\<rparr>" for b]
      by (cases "marshal_events cd (resp\<lparr>er_events := kept\<rparr>)") (auto simp: body_ok_def map_job_def)
  next
    case (Cons ev rest)
    show ?thesis
    proof (cases "\<exists>l. ev_case ev = Some (Event_ServiceLinkState l)")
      case True
      then obtain l where e: "ev_case ev = Some (Event_ServiceLinkState l)" ..
      obtain a s1 where l: "Lookup c (link_source (state_link l)) s = (a, s1)" by fastforce
      from Keeping Cons e st w l known Lookup_same(1) [OF ok l] show ?thesis by (auto simp: map_job_def)
    next
      case False
      obtain d s1 where v: "eventVisible p c ev sc s = (d, s1)" by fastforce
      from False w Keeping Cons v have dec: "decide resp rest kept ev d s1 = (st', s')"
        by (auto split: option.splits event_case.splits)
      from eventVisible_admit(1) [OF ok v] admit_no_link [OF False]
      have "d = admit p (scope_set sc) Map.empty (peers s c) ev" by simp
      with False peers have "d = Some e \<Longrightarrow> admissible cd p ts c (scope_set sc) ev e" for e
        by (auto simp: admissible_def intro!: exI [of _ "peers s c"] split: option.split event_case.split)
      with st Keeping Cons show ?thesis by (intro decide_stage_ok [OF dec]) (auto simp: map_job_def)
    qed
  qed
next
  case (Keeping_Destination resp evs kept ev src)
  with st obtain l where e: "ev_case ev = Some (Event_ServiceLinkState l)"
    and src: "\<And>a. src = Some a \<Longrightarrow> said cd p ts c (link_source (state_link l)) a" by auto
  obtain b s1 where l: "Lookup c (link_destination (state_link l)) s = (b, s1)" by fastforce
  let ?d = "case (src, b) of (Some x, Some y) \<Rightarrow>
      if namespacePairVisible x y (sc_namespaces sc) (requireBoth p) then Some ev else None | _ \<Rightarrow> None"
  from w Keeping_Destination e l have dec: "decide resp evs kept ev ?d s1 = (st', s')" by (simp add: Let_def)
  have "admissible cd p ts c (scope_set sc) ev e'" if d: "?d = Some e'" for e'
    using d e src known Lookup_same(1) [OF ok l]
    by (auto simp: admissible_def namespacePairVisible_admitted split: option.splits if_splits)
  with st Keeping_Destination show ?thesis by (intro decide_stage_ok [OF dec]) auto
next
  case (Filtered r)
  with st w show ?thesis by simp
qed

lemma peers_others: "others_kept c s s' \<Longrightarrow> k \<noteq> c \<Longrightarrow> peers s' k v \<Longrightarrow> peers s k v"
  by (auto simp: peers_def fresh_channel_def dest: others_kept_view)

lemma known_elsewhere: "others_kept c s s' \<Longrightarrow> k \<noteq> c \<Longrightarrow> known s' k v = Some n \<Longrightarrow> known s k v = Some n"
  using known_others [of c s s' k] by (metis option.distinct(1))

lemma may_drop_others: "may_drop (chans s) (chans s') \<Longrightarrow> view s' k = fresh_channel \<or> view s' k = view s k"
  by (auto simp: may_drop_def view_def dest: spec [of _ k])

lemma may_drop_memory:
  assumes "may_drop (chans s) (chans s')"
  shows "known s' k v = Some n \<Longrightarrow> known s k v = Some n" and "peers s' k v \<Longrightarrow> peers s k v"
  using may_drop_others [OF assms, of k] by (auto simp: known_def peers_def fresh_channel_def)

lemma opened_batch: "opened cd p tk msg \<Longrightarrow> batch cd p tk = Some (c, evs) \<Longrightarrow> c = message_channel msg"
  by (auto simp: opened_def batch_def split: stage.splits)

lemma announcements_mem:
  "ev \<in> set evs \<Longrightarrow> event_service ev = Some svc \<Longrightarrow> (sv_id svc, sv_namespace svc) \<in> set (announcements evs)"
  by (force simp: announcements_def List.map_filter_def)

text \<open>What a step adds to the registry, the requests so far have said.\<close>

lemma step_said:
  assumes t: "ts t = Some tk" and o: "opened cd p tk msg"
    and st: "stage_ok cd p ts route (message_channel msg) (ri_scope (tk_info tk)) (map_option snd (batch cd p tk)) st"
  shows "(v, n) \<in> step_announces st \<Longrightarrow> said cd p ts (message_channel msg) v n"
    and "v \<in> step_pairs (task_scope tk) st \<Longrightarrow> paired cd p ts (message_channel msg) v"
proof -
  have batch: "batch cd p tk = Some (message_channel msg, er_events resp)"
    if "map_option snd (batch cd p tk) = Some (er_events resp)" for resp
    using that opened_batch [OF o] by auto
  show "said cd p ts (message_channel msg) v n" if m: "(v, n) \<in> step_announces st"
  proof -
    from m obtain resp ev evs svc where l: "st = Learning resp (ev # evs)" "event_service ev = Some svc"
      "v = sv_id svc" "n = sv_namespace svc"
      by (cases st; cases "case st of Learning resp evs \<Rightarrow> evs | _ \<Rightarrow> []") (auto split: option.splits)
    with st have "ev \<in> set (er_events resp)" "map_option snd (batch cd p tk) = Some (er_events resp)"
      by (auto simp: map_job_def)
    with t batch announcements_mem l show ?thesis unfolding said_def by blast
  qed
  show "paired cd p ts (message_channel msg) v" if m: "v \<in> step_pairs (task_scope tk) st"
  proof -
    from m obtain resp evs link a b where l: "st = Peering resp evs link a b"
      and how: "a \<in> task_scope tk \<and> b \<notin> task_scope tk \<and> v = sl_destination_id link
          \<or> b \<in> task_scope tk \<and> a \<notin> task_scope tk \<and> v = sl_source_id link"
      by (cases st) (auto split: if_splits)
    with st have "map_option snd (batch cd p tk) = Some (er_events resp)" by (auto simp: map_job_def)
    with pairedI [where ts = ts and t = t and tk = tk, OF _ t batch _ _ _ how] st l show ?thesis by auto
  qed
qed

lemma handle_step_ok:
  assumes ok: "server_ok cd p V" and t: "tasks V t = Some tk"
    and h: "handle_step cd p (tk_info tk) (tk_up tk) (tk_handling tk) (memory V) = (h, s)"
  shows "reg_ok s \<and> filter_frame (memory V) s \<and> task_ok cd p (tasks V) (tk\<lparr>tk_handling := h\<rparr>)
    \<and> (\<forall>c v n. known s c v = Some n \<longrightarrow> said cd p (tasks V) c v n)
    \<and> (\<forall>c v. peers s c v \<longrightarrow> paired cd p (tasks V) c v)"
proof -
  from ok t have tk: "task_ok cd p (tasks V) tk" and reg: "reg_ok (memory V)"
    and known: "\<And>c v n. known (memory V) c v = Some n \<Longrightarrow> said cd p (tasks V) c v n"
    and peers: "\<And>c v. peers (memory V) c v \<Longrightarrow> paired cd p (tasks V) c v"
    by (simp_all add: server_ok_def)
  show ?thesis
  proof (cases "tk_handling tk")
    case (Handled res)
    with h have "h = Handled res" "s = memory V" by simp_all
    with tk Handled reg known peers show ?thesis
      by (auto simp: task_ok_def split: sum.splits option.splits)
  next
    case (Handling msg st)
    let ?c = "message_channel msg" and ?sc = "ri_scope (tk_info tk)"
    from tk Handling have o: "opened cd p tk msg"
      and st: "stage_ok cd p (tasks V) (message_route msg) ?c ?sc (map_option snd (batch cd p tk)) st"
      by (simp_all add: task_ok_def)
    show ?thesis
    proof (cases "steps_to_go st = 0")
      case True
      then obtain r where r: "st = Filtered r" by (auto simp: steps_to_go_0)
      with h Handling have hs: "h = Handled (close_response cd (tk_up tk) msg r)" "s = memory V" by simp_all
      have "task_ok cd p (tasks V) (tk\<lparr>tk_handling := h\<rparr>)"
      proof (cases "close_response cd (tk_up tk) msg r")
        case (Inr res)
        then obtain body resp where "r = Inr body" "res = Some resp"
          by (auto simp: close_response_def Let_def split: sum.splits)
        with Inr o st r hs show ?thesis by (auto simp: task_ok_def task_scope_def)
      qed (simp add: task_ok_def hs)
      with hs reg known peers show ?thesis by simp
    next
      case False
      obtain st' where w: "work cd p ?c ?sc (ri_id (tk_info tk)) st (memory V) = (st', s)"
        and h': "h = Handling msg st'"
        using h Handling False by (cases st) (auto simp del: work.simps split: prod.splits)
      note keeps = work_keeps [OF reg w] and adds = step_said [OF t o st, unfolded task_scope_def]
      from keeps have ch: "reg_ok s" "others_kept ?c (memory V) s" "filter_frame (memory V) s"
        by (auto simp: on_channel_def)
      have "said cd p (tasks V) c v n" if "known s c v = Some n" for c v n
      proof (cases "c = ?c")
        case True
        with keeps that known adds(1) show ?thesis by blast
      qed (use that known known_elsewhere [OF ch(2)] in blast)
      moreover have "paired cd p (tasks V) c v" if "peers s c v" for c v
      proof (cases "c = ?c")
        case True
        with keeps that peers adds(2) show ?thesis by blast
      qed (use that peers peers_others [OF ch(2)] in blast)
      moreover have "task_ok cd p (tasks V) (tk\<lparr>tk_handling := h\<rparr>)"
        using o work_stage_ok [OF reg known peers st w] by (simp add: h' task_ok_def)
      ultimately show ?thesis using ch by blast
    qed
  qed
qed

lemma server_ok_tasks:
  assumes ok: "server_ok cd p V" and more: "continues (tasks V) ((tasks V)(t \<mapsto> tk))"
    and tk: "task_ok cd p (tasks V) tk" and s: "reg_ok s"
    and known: "\<forall>c v n. known s c v = Some n \<longrightarrow> said cd p (tasks V) c v n"
    and peers: "\<forall>c v. peers s c v \<longrightarrow> paired cd p (tasks V) c v"
  shows "server_ok cd p (set_task t tk (V\<lparr>memory := s\<rparr>))"
proof -
  have "task_ok cd p ((tasks V)(t \<mapsto> tk)) x" if "((tasks V)(t \<mapsto> tk)) u = Some x" for u x
    using that ok tk task_ok_mono [OF more] by (auto simp: server_ok_def split: if_splits)
  with s known peers said_mono [OF more] paired_mono [OF more] show ?thesis
    by (simp add: server_ok_def)
qed

lemma server_ok_memory:
  assumes "server_ok cd p V" and "reg_ok s" and "may_drop (chans (memory V)) (chans s)"
  shows "server_ok cd p (V\<lparr>memory := s\<rparr>)"
  using assms may_drop_memory [OF assms(3)] by (auto simp: server_ok_def)

lemma filter_step_ok:
  assumes "filter_step cd p V W" and ok: "server_ok cd p V"
  shows "server_ok cd p W \<and> continues (tasks V) (tasks W)"
  using assms(1)
proof (cases rule: filter_step.cases)
  case (enter t r info up)
  have more: "continues (tasks V) ((tasks V)(t \<mapsto> accept cd p r info up))"
    by (rule continues_new [where ts = "tasks V", OF enter(2)])
  from server_ok_tasks [OF ok more accept_ok, of "memory V"] ok more
  show ?thesis by (simp add: enter(1) server_ok_def)
next
  case (proceed t tk h s)
  note step = handle_step_ok [OF ok proceed(2,3)]
  from step server_ok_tasks [OF ok continues_upd [where ts = "tasks V", OF proceed(2)], of h s] continues_upd [where ts = "tasks V", OF proceed(2)]
  show ?thesis by (simp add: proceed(1))
next
  case sweeping
  have "reg_ok (memory V)" using ok by (simp add: server_ok_def)
  from server_ok_memory [OF ok sweep_spec(1,3) [OF this]] sweeping continues_refl show ?thesis by simp
next
  case (elsewhere s)
  then have "reg_ok s" using ok by (simp add: server_ok_def reg_ok_def)
  from server_ok_memory [OF ok this] elsewhere continues_refl show ?thesis by simp
qed

lemma idle_ok: "reg_ok s \<Longrightarrow> chans s = [] \<Longrightarrow> server_ok cd p (idle_server s)"
  by (simp add: server_ok_def idle_server_def known_def peers_def view_def fresh_channel_def)

lemma filter_steps_ok: "filter_steps cd p V W \<Longrightarrow> server_ok cd p V \<Longrightarrow> server_ok cd p W"
  by (induction rule: filter_steps.induct) (auto dest: filter_step_ok)

end
