(* ===== verification/Concurrent_Properties.thy ===== *)
theory Concurrent_Properties
  imports Concurrent_Filters
begin

text \<open>
  What concurrent filtering does and does not change: a request that runs alone is the sequential
  filter, its own steps end it whatever others do, and what it serves stays within its scope for any
  interleaving of the requests on a channel.
\<close>

section \<open>A filter by itself\<close>

abbreviation own_step ::
  "codec \<Rightarrow> proxy \<Rightarrow> reqInfo \<Rightarrow> upstream_response \<Rightarrow> handling \<times> ('az, 'b) reg_state_scheme
   \<Rightarrow> handling \<times> ('az, 'b) reg_state_scheme" where
  "own_step cd p info up \<equiv> \<lambda>(h, s). handle_step cd p info up h s"

lemma filter_run:
  "(own_step cd p info up ^^ handle_left (open_response cd p r (Some info) up))
      (open_response cd p r (Some info) up, s)
    = (Handled (fst (filterResponse cd p r (Some info) up s)), snd (filterResponse cd p r (Some info) up s))"
proof (cases "open_response cd p r (Some info) up")
  case (Handling msg st)
  show ?thesis
    unfolding Handling filterResponse_steps handle_run [OF order_refl] by (simp split: prod.split)
qed (simp add: filterResponse_steps)

lemma handle_finishes:
  "\<exists>res s'. (own_step cd p info up ^^ handle_left h) (h, s) = (Handled res, s')"
proof (cases h)
  case (Handling msg st)
  show ?thesis unfolding Handling handle_run [OF order_refl] by (simp split: prod.split)
qed simp

text \<open>
  C18. The steps are the filter: a request whose steps run with nothing in between ends, after the
  number of steps its stage gives, with exactly the result and the state of \<^verbatim>\<open>filterResponse\<close>.
\<close>

theorem filter_steps_are_the_filter:
  "(own_step cd p info up ^^ handle_left (open_response cd p r (Some info) up))
      (open_response cd p r (Some info) up, s)
    = (Handled (fst (filterResponse cd p r (Some info) up s)), snd (filterResponse cd p r (Some info) up s))"
  by (rule filter_run)

lemma handle_left_step: "handle_left (fst (handle_step cd p info up h s)) \<le> handle_left h - 1"
proof (cases h)
  case (Handling msg st)
  show ?thesis
  proof (cases "steps_to_go st = 0")
    case False
    then have "fst (handle_step cd p info up (Handling msg st) s)
        = Handling msg (fst (work cd p (message_channel msg) (ri_scope info) (ri_id info) st s))"
      by (cases st) (simp_all del: work.simps split: prod.split)
    with work_progress [OF False, of cd p "message_channel msg" "ri_scope info" "ri_id info" s] Handling
    show ?thesis by simp
  qed (auto simp: Handling steps_to_go_0)
qed simp

text \<open>
  C19. Nobody can hold a filter up: whatever other requests, sweeps and resolutions do to the shared
  state before each of its steps, a request has its response after the number of steps its first
  stage gives. That number depends on the body the backend sent and on nothing else.
\<close>

theorem filter_steps_bounded:
  "handle_left h \<le> length gs \<Longrightarrow>
    \<exists>res. fst (fold (\<lambda>g (h, s). handle_step cd p info up h (g s)) gs (h, s)) = Handled res"
proof (induction gs arbitrary: h s)
  case Nil
  then show ?case by (cases h) auto
next
  case (Cons g gs)
  obtain h' s' where step: "handle_step cd p info up h (g s) = (h', s')" by fastforce
  with handle_left_step [of cd p info up h "g s"] Cons.prems have "handle_left h' \<le> length gs" by simp
  from Cons.IH [OF this] step show ?case by simp
qed

section \<open>What a served response tells\<close>

lemma admissible_admit:
  assumes "admissible cd p ts c S ev e"
    and "\<And>v n. said cd p ts c v n \<Longrightarrow> K v = Some n"
  shows "\<exists>P. admit p S K P ev = Some e \<and> (\<forall>v. P v \<longrightarrow> paired cd p ts c v)"
proof (cases "\<exists>l. ev_case ev = Some (Event_ServiceLinkState l)")
  case True
  then obtain l where l: "ev_case ev = Some (Event_ServiceLinkState l)" ..
  with assms obtain a b where "e = ev" "K (link_source (state_link l)) = Some a"
    "K (link_destination (state_link l)) = Some b" "pair_admitted (requireBoth p) S a b"
    by (auto simp: admissible_def)
  with l show ?thesis by (intro exI [of _ "\<lambda>_. False"]) (simp add: admit_def)
next
  case False
  then have "\<exists>P. admit p S Map.empty P ev = Some e \<and> (\<forall>v. P v \<longrightarrow> paired cd p ts c v)"
    using assms(1) by (auto simp: admissible_def split: option.splits event_case.splits)
  then show ?thesis using admit_no_link [OF False, of p S K] by auto
qed

lemma kept_strict:
  assumes "kept_ok cd p ts c S evs kept" and "requireBoth p"
    and "\<And>v n. said cd p ts c v n \<Longrightarrow> K v = Some n"
  shows "(\<Union>ev \<in> set kept. \<Union>(disclosed K ev)) \<subseteq> insert [] S"
proof -
  have "disclosed K e \<subseteq> Pow (insert [] S)" if e: "e \<in> set kept" for e
  proof -
    from assms(1) e obtain ev where "admissible cd p ts c S ev e" unfolding kept_ok_def by blast
    from admissible_admit [where ts = ts and K = K, OF this assms(3)]
    obtain P where "admit p S K P ev = Some e" by blast
    from admit_disclosed_strict [OF this assms(2)] show ?thesis .
  qed
  then show ?thesis by blast
qed

lemma kept_lenient:
  assumes "kept_ok cd p ts c S evs kept" and "\<And>v n. said cd p ts c v n \<Longrightarrow> K v = Some n" and "e \<in> set kept"
  shows "disclosed K e \<subseteq> {u. u \<inter> S \<noteq> {}} \<or> peer_event (paired cd p ts c) e"
proof -
  from assms(1,3) obtain ev where "admissible cd p ts c S ev e" unfolding kept_ok_def by blast
  from admissible_admit [where ts = ts and K = K, OF this assms(2)]
  obtain P where "admit p S K P ev = Some e" "\<And>v. P v \<Longrightarrow> paired cd p ts c v" by blast
  with admit_disclosed_lenient [of p S K P ev e] show ?thesis
    by (auto simp: peer_event_def split: option.splits event_case.splits)
qed

text \<open>A rebuilt response decodes to the backend's envelope with a body the invariant speaks of.\<close>

lemma closed_reads_back:
  assumes "close_response cd up msg (Inr body) = Inr (Some resp)" and "codec_reads_back cd"
  shows "decodeEnvelope cd (rs_body resp) (is_json resp) = Inr (with_content body msg)"
proof -
  from assms(1) obtain out where enc: "encodeEnvelope cd (with_content body msg) (is_json (up_response up)) = Inr out"
    and resp: "resp = rebuilt (up_response up) out"
    by (auto simp: close_response_def with_content_def is_json_def rebuilt_def Let_def split: sum.splits)
  have "rs_body resp = out" by (simp add: resp rebuilt_def)
  with enc assms(2) show ?thesis
    by (auto simp: resp content_type_kept encodeEnvelope_def decodeEnvelope_def codec_reads_back_def
        split: if_splits)
qed

lemma body_strict:
  assumes ok: "body_ok cd p ts (message_route msg) c S B body" and reads: "codec_reads_back cd"
    and strict: "requireBoth p" and K: "\<And>v n. said cd p ts c v n \<Longrightarrow> K v = Some n"
  shows "message_discloses cd K (with_content body msg) \<subseteq> insert [] S"
proof (cases "message_content (with_content body msg) = []")
  case True
  then show ?thesis by (simp add: message_discloses_def)
next
  case False
  then have b: "message_content (with_content body msg) = body" "body \<noteq> []" by (auto split: if_splits)
  with ok consider (control) r where "message_route msg = routeControlStream"
      "unmarshal_control cd body = Inr r \<or> marshal_control cd r = Inr body" "control_discloses r \<subseteq> S"
    | (map) r evs where "message_route msg \<noteq> routeControlStream" "message_route msg = routeServiceMapStre"
      "marshal_events cd r = Inr body" "kept_ok cd p ts c S evs (er_events r)"
    by (auto simp: body_ok_def)
  then show ?thesis
  proof cases
    case control
    then have "unmarshal_control cd body = Inr r" using reads by (auto simp: codec_reads_back_def)
    with control b show ?thesis by (auto simp: message_discloses_def simp del: with_content_fields(3))
  next
    case map
    then have "unmarshal_events cd body = Inr r" using reads by (auto simp: codec_reads_back_def)
    with map b kept_strict [OF map(4) strict K] show ?thesis
      by (simp add: message_discloses_def del: with_content_fields(3))
  qed
qed

text \<open>What the invariant says of a request that has its rebuilt response.\<close>

lemma rebuilt_ok:
  assumes "server_ok cd p V" and "tasks V t = Some tk" and "tk_handling tk = Handled (Inr (Some resp))"
  obtains msg body where "close_response cd (tk_up tk) msg (Inr body) = Inr (Some resp)"
    and "body_ok cd p (tasks V) (message_route msg) (message_channel msg) (task_scope tk)
      (map_option snd (batch cd p tk)) body"
proof -
  have "task_ok cd p (tasks V) tk" using assms(1,2) by (simp add: server_ok_def)
  with assms(3) that show ?thesis by (auto simp: task_ok_def)
qed

lemma rebuilt_strict:
  assumes V: "server_ok cd p V" "tasks V t = Some tk" "tk_handling tk = Handled (Inr (Some resp))"
    and reads: "codec_reads_back cd" and strict: "requireBoth p"
    and K: "\<And>c v n. said cd p (tasks V) c v n \<Longrightarrow> K c v = Some n"
  shows "\<exists>msg. decodeEnvelope cd (rs_body resp) (is_json resp) = Inr msg
    \<and> message_discloses cd (K (message_channel msg)) msg \<subseteq> insert [] (task_scope tk)"
proof -
  from V obtain msg body where closed: "close_response cd (tk_up tk) msg (Inr body) = Inr (Some resp)"
    and body: "body_ok cd p (tasks V) (message_route msg) (message_channel msg) (task_scope tk)
      (map_option snd (batch cd p tk)) body" by (rule rebuilt_ok)
  from body_strict [OF body reads strict K] closed_reads_back [OF closed reads] show ?thesis
    by (intro exI [of _ "with_content body msg"]) simp
qed

text \<open>
  In strict mode no interleaving leaks: let any number of requests be filtered over one
  registry, their steps interleaved in any order with one another, with the sweeper and with the
  rest of the process. If the backend gives each service one namespace per channel, then what a
  request is served names no namespace outside the scope this very request was granted.
\<close>

theorem concurrent_strict_confinement:
  assumes "reg_ok s\<^sub>0" and "chans s\<^sub>0 = []" and "filter_steps cd p (idle_server s\<^sub>0) V"
    and "tasks V t = Some tk" and "tk_handling tk = Handled (Inr (Some resp))"
    and "codec_reads_back cd" and "requireBoth p"
    and "\<And>c v n. said cd p (tasks V) c v n \<Longrightarrow> K c v = Some n"
  shows "\<exists>msg. decodeEnvelope cd (rs_body resp) (is_json resp) = Inr msg
    \<and> message_discloses cd (K (message_channel msg)) msg \<subseteq> insert [] (task_scope tk)"
  using rebuilt_strict [OF filter_steps_ok [OF assms(3) idle_ok [OF assms(1,2)]] assms(4-)] .

text \<open>
  C20. In lenient mode, under any interleaving, if the backend gives each service of a channel one
  namespace in all its batches (\<open>K\<close>), each item of the service map a request is served touches its
  scope, or is a service that some request of the channel linked to its own scope while both its
  ends had been announced. Without that condition a batch filtered meanwhile may move a service to
  another namespace between its being judged and its being served.
\<close>

theorem concurrent_lenient_touches_scope:
  assumes "reg_ok s\<^sub>0" and "chans s\<^sub>0 = []" and "filter_steps cd p (idle_server s\<^sub>0) V"
    and "tasks V t = Some tk" and "tk_handling tk = Handled (Inr (Some resp))"
    and "codec_reads_back cd" and "\<And>c v n. said cd p (tasks V) c v n \<Longrightarrow> K c v = Some n"
    and "decodeEnvelope cd (rs_body resp) (is_json resp) = Inr msg"
    and "message_route msg = routeServiceMapStre" and "message_content msg \<noteq> []"
  shows "\<exists>r. unmarshal_events cd (message_content msg) = Inr r
    \<and> (\<forall>ev \<in> set (er_events r). disclosed (K (message_channel msg)) ev \<subseteq> {u. u \<inter> task_scope tk \<noteq> {}}
         \<or> peer_event (paired cd p (tasks V) (message_channel msg)) ev)"
proof -
  have V: "server_ok cd p V" by (rule filter_steps_ok [OF assms(3) idle_ok [OF assms(1,2)]])
  from rebuilt_ok [OF V assms(4,5)] obtain msg0 body where
    closed: "close_response cd (tk_up tk) msg0 (Inr body) = Inr (Some resp)"
    and body: "body_ok cd p (tasks V) (message_route msg0) (message_channel msg0) (task_scope tk)
      (map_option snd (batch cd p tk)) body" .
  have msg: "msg = with_content body msg0"
    using closed_reads_back [OF closed assms(6)] assms(8) by simp
  have "routeServiceMapStre \<noteq> routeControlStream" by code_simp
  with assms(9,10) body msg obtain r evs where r: "marshal_events cd r = Inr body"
    "kept_ok cd p (tasks V) (message_channel msg) (task_scope tk) evs (er_events r)"
    by (auto simp: body_ok_def split: if_splits)
  moreover have "message_content msg = body" using assms(10) msg by (auto split: if_splits)
  ultimately show ?thesis
    using assms(6) kept_lenient [OF r(2) assms(7)] by (auto simp: codec_reads_back_def)
qed

section \<open>A closed instance\<close>

text \<open>
  Two requests on bob's channel take turns: bob polls, and so does someone whose scope is the
  namespace on the other side of the link.
\<close>

definition duo :: "task \<Rightarrow> task \<Rightarrow> ('az, 'b) reg_state_scheme \<Rightarrow> ('az, 'b) server" where
  "duo tk tk' s = \<lparr>memory = s, tasks = [0 \<mapsto> tk, 1 \<mapsto> tk']\<rparr>"

definition turn :: "codec \<Rightarrow> proxy \<Rightarrow> task \<Rightarrow> ('az, 'b) reg_state_scheme \<Rightarrow> task \<times> ('az, 'b) reg_state_scheme" where
  "turn cd p tk s = (let (h, s) = handle_step cd p (tk_info tk) (tk_up tk) (tk_handling tk) s
    in (tk\<lparr>tk_handling := h\<rparr>, s))"

fun both_turn ::
  "codec \<Rightarrow> proxy \<Rightarrow> task \<times> task \<times> ('az, 'b) reg_state_scheme \<Rightarrow> task \<times> task \<times> ('az, 'b) reg_state_scheme"
where
  "both_turn cd p (tk, tk', s) =
    (let (tk, s) = turn cd p tk s; (tk', s) = turn cd p tk' s in (tk, tk', s))"

fun turns ::
  "codec \<Rightarrow> proxy \<Rightarrow> nat \<Rightarrow> task \<times> task \<times> ('az, 'b) reg_state_scheme \<Rightarrow> task \<times> task \<times> ('az, 'b) reg_state_scheme"
where
  "turns cd p 0 x = x"
| "turns cd p (Suc n) x = turns cd p n (both_turn cd p x)"

lemma filter_steps_trans: "filter_steps cd p V W \<Longrightarrow> filter_steps cd p U V \<Longrightarrow> filter_steps cd p U W"
  by (induction rule: filter_steps.induct) (auto intro: one_more)

lemma duo_turn:
  "turn cd p tk s = (u, s') \<Longrightarrow> filter_step cd p (duo tk tk' s) (duo u tk' s')"
  "turn cd p tk' s = (u, s') \<Longrightarrow> filter_step cd p (duo tk tk' s) (duo tk u s')"
  using proceed [of "duo tk tk' s" 0 tk cd p] proceed [of "duo tk tk' s" 1 tk' cd p]
  by (auto simp: turn_def duo_def set_task_def fun_upd_twist split: prod.splits)

lemma duo_turns: "turns cd p n (tk, tk', s) = (u, u', s') \<Longrightarrow> filter_steps cd p (duo tk tk' s) (duo u u' s')"
proof (induction n arbitrary: tk tk' s)
  case (Suc n)
  obtain v s1 where v: "turn cd p tk s = (v, s1)" by fastforce
  obtain v' s2 where v': "turn cd p tk' s1 = (v', s2)" by fastforce
  have "filter_steps cd p (duo v v' s2) (duo u u' s')" using Suc v v' by simp
  from filter_steps_trans [OF this one_more [OF one_more [OF no_step duo_turn(1) [OF v]] duo_turn(2) [OF v']]]
  show ?case .
qed (simp add: no_step)

lemma duo_entered:
  "filter_steps cd p (idle_server s) (duo (accept cd p r info up) (accept cd p r' info' up') s)"
  using one_more [OF one_more [OF no_step enter [of "idle_server s" 0 cd p r info up]] enter
      [of "set_task 0 (accept cd p r info up) (idle_server s)" 1 cd p r' info' up']]
  by (simp add: idle_server_def set_task_def duo_def)

definition db_scope :: scope where
  "db_scope = \<lparr>sc_all = False, sc_namespaces = [(''db'', True)]\<rparr>"

definition polls :: "bool \<Rightarrow> scope \<Rightarrow> task" where
  "polls both sc = accept bob_codec (example_proxy both) bob_request
     \<lparr>filtered = True, ri_scope = sc, ri_id = bob\<rparr> (projr (round_trip (bob_upstream []) bob_request))"

definition two_polled :: "bool \<Rightarrow> task \<times> task \<times> static_authorizer reg_state" where
  "two_polled both = turns bob_codec (example_proxy both) 25 (polls both bob_scope, polls both db_scope, bob_state)"

lemma two_polled_bob:
  "tk_handling (fst (two_polled True)) = Handled (Inr (Some (bob_served [10, 2])))"
  "tk_handling (fst (two_polled False)) = Handled (Inr (Some (bob_served [10, 1])))"
  by code_simp+

text \<open>Both requests bring the same batch to the channel.\<close>

definition bob_names :: "string \<Rightarrow> string option" where
  "bob_names = map_of [(''a'', ''sandbox-bob''), (''b'', ''db'')]"

lemma turn_keeps: "turn cd p tk s = (u, s') \<Longrightarrow> batch cd p u = batch cd p tk \<and> task_scope u = task_scope tk"
  by (auto simp: turn_def split: prod.splits)

lemma turns_keep:
  "batch cd p (fst (turns cd p n x)) = batch cd p (fst x)
   \<and> batch cd p (fst (snd (turns cd p n x))) = batch cd p (fst (snd x))
   \<and> task_scope (fst (turns cd p n x)) = task_scope (fst x)"
proof (induction n arbitrary: x)
  case (Suc n)
  obtain tk tk' s where x: "x = (tk, tk', s)" by (cases x)
  obtain u s1 where u: "turn cd p tk s = (u, s1)" by fastforce
  obtain u' s2 where u': "turn cd p tk' s1 = (u', s2)" by fastforce
  from Suc.IH [of "(u, u', s2)"] turn_keeps [OF u] turn_keeps [OF u']
  show ?case by (simp add: x u u')
qed simp

lemma polls_batch:
  "batch bob_codec (example_proxy both) (polls both bob_scope) = Some (''ch'', er_events bob_batch)"
  "batch bob_codec (example_proxy both) (polls both db_scope) = Some (''ch'', er_events bob_batch)"
  by (cases both; code_simp)+

lemma two_polled_batches:
  "batch bob_codec (example_proxy both) (fst (two_polled both)) = Some (''ch'', er_events bob_batch)"
  "batch bob_codec (example_proxy both) (fst (snd (two_polled both))) = Some (''ch'', er_events bob_batch)"
  "task_scope (fst (two_polled both)) = {''sandbox-bob''}"
proof -
  have "task_scope (polls both bob_scope) = {''sandbox-bob''}"
    by (auto simp: task_scope_def scope_set_def polls_def accept_def bob_scope_def get_bool_def)
  with polls_batch show "batch bob_codec (example_proxy both) (fst (two_polled both)) = Some (''ch'', er_events bob_batch)"
    "batch bob_codec (example_proxy both) (fst (snd (two_polled both))) = Some (''ch'', er_events bob_batch)"
    "task_scope (fst (two_polled both)) = {''sandbox-bob''}"
    unfolding two_polled_def turns_keep [THEN conjunct1] turns_keep [THEN conjunct2, THEN conjunct1]
      turns_keep [THEN conjunct2, THEN conjunct2] by simp_all
qed

definition after_polls :: "bool \<Rightarrow> (static_authorizer, unit) server" where
  "after_polls both = duo (fst (two_polled both)) (fst (snd (two_polled both))) (snd (snd (two_polled both)))"

lemma after_polls_reached: "filter_steps bob_codec (example_proxy both) (idle_server bob_state) (after_polls both)"
proof -
  have "filter_steps bob_codec (example_proxy both) (duo (polls both bob_scope) (polls both db_scope) bob_state)
      (after_polls both)"
    unfolding after_polls_def by (rule duo_turns [of _ _ 25]) (simp add: two_polled_def)
  from filter_steps_trans [OF this [unfolded polls_def] duo_entered] show ?thesis .
qed

lemma after_polls_said:
  "said bob_codec (example_proxy both) (tasks (after_polls both)) c v n \<Longrightarrow> bob_names v = Some n"
proof -
  have "announcements (er_events bob_batch) = [(''a'', ''sandbox-bob''), (''b'', ''db'')]" by code_simp
  moreover assume "said bob_codec (example_proxy both) (tasks (after_polls both)) c v n"
  ultimately show ?thesis
    by (auto simp: said_def after_polls_def duo_def two_polled_batches bob_names_def split: if_splits)
qed

theorem concurrent_strict_confinement_witness:
  "\<exists>msg. decodeEnvelope bob_codec [10, 2] (is_json (bob_served [10, 2])) = Inr msg
    \<and> message_discloses bob_codec bob_names msg \<subseteq> {[], ''sandbox-bob''}"
proof -
  have "task_scope (fst (two_polled True)) = {''sandbox-bob''}" by (rule two_polled_batches)
  moreover have "codec_reads_back bob_codec" by (simp add: bob_codec_def table_codec_reads_back)
  moreover have "chans bob_state = []" by code_simp
  moreover have "tasks (after_polls True) 0 = Some (fst (two_polled True))" by (simp add: after_polls_def duo_def)
  ultimately show ?thesis
    using concurrent_strict_confinement [OF bob_state_ok _ after_polls_reached, of True 0 _ "bob_served [10, 2]"
        "\<lambda>_. bob_names"] two_polled_bob(1) after_polls_said
    by (simp add: example_proxy_both bob_served_def)
qed

theorem concurrent_lenient_touches_scope_witness:
  "list_all (\<lambda>ev. disclosed bob_names ev \<subseteq> {u. u \<inter> {''sandbox-bob''} \<noteq> {}}
     \<or> peer_event (paired bob_codec (example_proxy False) (tasks (after_polls False)) ''ch'') ev) (er_events bob_batch)"
proof -
  let ?msg = "bob_message [1]"
  have "task_scope (fst (two_polled False)) = {''sandbox-bob''}" by (rule two_polled_batches)
  moreover have "codec_reads_back bob_codec" by (simp add: bob_codec_def table_codec_reads_back)
  moreover have "chans bob_state = []" by code_simp
  moreover have "tasks (after_polls False) 0 = Some (fst (two_polled False))" by (simp add: after_polls_def duo_def)
  moreover have "decodeEnvelope bob_codec (rs_body (bob_served [10, 1])) (is_json (bob_served [10, 1])) = Inr ?msg"
    "message_route ?msg = routeServiceMapStre" "message_content ?msg = [1]" "message_channel ?msg = ''ch''"
    "unmarshal_events bob_codec [1] = Inr bob_batch" by code_simp+
  ultimately show ?thesis
    using concurrent_lenient_touches_scope [OF bob_state_ok _ after_polls_reached, of False 0 _ "bob_served [10, 1]"
        "\<lambda>_. bob_names" ?msg] two_polled_bob(2) after_polls_said
    by (simp add: list_all_iff)
qed

theorem filter_steps_bounded_witness:
  "\<exists>res. fst (fold (\<lambda>g (h, s). handle_step bob_codec (example_proxy True) (tk_info (polls True bob_scope))
      (tk_up (polls True bob_scope)) h (g s)) (replicate 30 sweep) (tk_handling (polls True bob_scope), bob_state))
    = Handled res"
proof (rule filter_steps_bounded)
  show "handle_left (tk_handling (polls True bob_scope)) \<le> length (replicate 30 sweep)" by code_simp
qed

end
