(* ===== verification/Logging.thy ===== *)
theory Logging
  imports Prelude
begin

text \<open>
  \<^verbatim>\<open>internal/logging/logging.go\<close>: the level and the format of the process logger. The
  records of the handler are the subject of \<open>Handler_Log\<close>; the ones logged elsewhere have no part in
  any decision.
\<close>

section \<open>Comparing with ASCII words\<close>

text \<open>
  \<^verbatim>\<open>strings.ToLower\<close> and \<^verbatim>\<open>strings.EqualFold\<close> as far as a comparison with a lower-case ASCII word
  can tell: besides the ASCII capitals, two code points are lowered to an ASCII letter (U+0130 to i,
  the Kelvin sign U+212A to k) and two fold to one (the long s U+017F, the Kelvin sign). Every other
  code point stays outside ASCII.
\<close>

definition lower_specials :: "(string \<times> char) list" where
  "lower_specials = [([CHR 0xC4, CHR 0xB0], CHR ''i''), ([CHR 0xE2, CHR 0x84, CHR 0xAA], CHR ''k'')]"

definition fold_specials :: "(string \<times> char) list" where
  "fold_specials = [([CHR 0xC5, CHR 0xBF], CHR ''s''), ([CHR 0xE2, CHR 0x84, CHR 0xAA], CHR ''k'')]"

function ascii_view :: "(string \<times> char) list \<Rightarrow> string \<Rightarrow> string" where
  "ascii_view specials [] = []"
| "ascii_view specials (c # cs) =
    (case find (\<lambda>(w, a). w \<noteq> [] \<and> has_prefix (c # cs) w) specials of
       Some (w, a) \<Rightarrow> a # ascii_view specials (drop (length w) (c # cs))
     | None \<Rightarrow> ascii_lower c # ascii_view specials cs)"
  by pat_completeness auto
termination
proof (relation "measure (\<lambda>(specials, s). length s)")
  fix specials :: "(string \<times> char) list" and c cs p w a
  assume "find (\<lambda>(w, a). w \<noteq> [] \<and> has_prefix (c # cs) w) specials = Some p" and "(w, a) = p"
  then have "w \<noteq> []" by (auto simp: find_Some_iff)
  then show "((specials, drop (length w) (c # cs)), (specials, c # cs)) \<in> measure (\<lambda>(specials, s). length s)"
    by (cases w) auto
qed simp_all

definition ToLower :: "string \<Rightarrow> string" where
  "ToLower s = ascii_view lower_specials s"

definition EqualFold :: "string \<Rightarrow> string \<Rightarrow> bool" where
  "EqualFold s t = (ascii_view fold_specials s = ascii_view fold_specials t)"

section \<open>The logger\<close>

datatype level = LevelDebug | LevelInfo | LevelWarn | LevelError

datatype logger = TextHandler level | JSONHandler level

definition level_of :: "string \<Rightarrow> level" where
  "level_of level =
    (let l = ToLower level
     in if l = ''debug'' then LevelDebug
        else if l = ''warn'' \<or> l = ''warning'' then LevelWarn
        else if l = ''error'' then LevelError
        else LevelInfo)"

definition NewLogger :: "string \<Rightarrow> string \<Rightarrow> logger" where
  "NewLogger level format =
    (let lvl = level_of level
     in if EqualFold format ''json'' then JSONHandler lvl else TextHandler lvl)"

section \<open>The case of the flags does not matter\<close>

lemma ascii_lower_idem [simp]: "ascii_lower (ascii_lower c) = ascii_lower c"
proof (cases "65 \<le> (of_char c :: nat) \<and> (of_char c :: nat) \<le> 90")
  case True
  then have "of_char (char_of (of_char c + 32 :: nat)) = (of_char c + 32 :: nat)" by simp
  with True show ?thesis by (simp add: ascii_lower_def)
qed (auto simp: ascii_lower_def)

text \<open>Bytes from 128 on are not touched by ASCII lowering, and nothing is lowered onto them.\<close>

definition high :: "char \<Rightarrow> bool" where
  "high c \<longleftrightarrow> 128 \<le> (of_char c :: nat)"

lemma ascii_lower_high: "high a \<Longrightarrow> ascii_lower c = a \<longleftrightarrow> c = a"
  by (auto simp: ascii_lower_def high_def)

lemma has_prefix_lower:
  "list_all high w \<Longrightarrow> has_prefix (map ascii_lower s) w \<longleftrightarrow> has_prefix s w"
proof (induction w arbitrary: s)
  case (Cons a w)
  then show ?case by (cases s) (auto simp: has_prefix_def ascii_lower_high)
qed (simp add: has_prefix_def)

lemma find_cong_list:
  "(\<And>x. x \<in> set xs \<Longrightarrow> P x = Q x) \<Longrightarrow> find P xs = find Q xs"
  by (induction xs) auto

lemma ascii_view_lower:
  assumes "\<And>w a. (w, a) \<in> set specials \<Longrightarrow> list_all high w"
  shows "ascii_view specials (map ascii_lower s) = ascii_view specials s"
  using assms
proof (induction specials s rule: ascii_view.induct)
  case (2 specials c cs)
  have found: "find (\<lambda>(w, a). w \<noteq> [] \<and> has_prefix (map ascii_lower (c # cs)) w) specials
      = find (\<lambda>(w, a). w \<noteq> [] \<and> has_prefix (c # cs) w) specials"
    using has_prefix_lower [of _ "c # cs"] "2.prems" by (intro find_cong_list) auto
  show ?case
  proof (cases "find (\<lambda>(w, a). w \<noteq> [] \<and> has_prefix (c # cs) w) specials")
    case None
    with "2.IH"(1) [OF None] "2.prems" found show ?thesis by simp
  next
    case (Some wa)
    obtain w a where wa: "wa = (w, a)" by fastforce
    with "2.IH"(2) [OF Some wa [symmetric]] "2.prems" found Some show ?thesis
      by (simp add: drop_map [symmetric] del: list.map(2)) (simp add: drop_map)
  qed
qed simp

lemma ascii_view_same_fold:
  assumes "same_ascii_fold s t" and "\<And>w a. (w, a) \<in> set specials \<Longrightarrow> list_all high w"
  shows "ascii_view specials s = ascii_view specials t"
  using assms ascii_view_lower [of specials] by (metis same_ascii_fold_def)

lemma specials_high:
  "(w, a) \<in> set lower_specials \<Longrightarrow> list_all high w" "(w, a) \<in> set fold_specials \<Longrightarrow> list_all high w"
  by (auto simp: lower_specials_def fold_specials_def high_def)

text \<open>
  The logger flags may be written in any case: two spellings of level and format that differ in
  the case of ASCII letters configure the same logger.
\<close>

theorem NewLogger_case_insensitive:
  assumes "same_ascii_fold level level'" and "same_ascii_fold format format'"
  shows "NewLogger level format = NewLogger level' format'"
  using ascii_view_same_fold [OF assms(1) specials_high(1)] ascii_view_same_fold [OF assms(2) specials_high(2)]
  by (simp add: NewLogger_def level_of_def ToLower_def EqualFold_def)

theorem NewLogger_case_insensitive_witness:
  "NewLogger ''WARN'' ''Json'' = JSONHandler LevelWarn"
proof -
  have "NewLogger ''warn'' ''json'' = JSONHandler LevelWarn" by code_simp
  moreover have "same_ascii_fold ''WARN'' ''warn''" and "same_ascii_fold ''Json'' ''json''" by code_simp+
  ultimately show ?thesis by (simp only: NewLogger_case_insensitive)
qed

end
