(* ===== verification/Rbac_Authorizer.thy ===== *)
theory Rbac_Authorizer
  imports Authorizer
begin

text \<open>
  \<^verbatim>\<open>internal/authz/rbac/rbac.go\<close>: scopes derived from SubjectAccessReviews, cached per identity.
  The API server is a parameter: \<open>review n d q\<close> is its answer to the review \<open>q\<close> issued as the
  \<open>n\<close>-th consultation of the environment under the deadline \<open>d\<close>, so that its rules may change
  at any time. Reviews run concurrently; the order in which they complete is arbitrary and
  taken from the runtime. One resolution is modelled as a whole here; the sharing of one
  resolution between concurrent callers changes which caller runs it, not what it computes.
\<close>

section \<open>State\<close>

record review_request =
  sar_user :: string
  sar_groups :: "string list"
  sar_namespace :: string
  sar_verb :: string
  sar_api_group :: string
  sar_resource :: string

record kube =
  review :: "nat \<Rightarrow> int \<Rightarrow> review_request \<Rightarrow> go_error + bool"
  list_namespaces :: "nat \<Rightarrow> int \<Rightarrow> go_error + string list"

record cachedScope =
  cs_scope :: scope
  cs_expires :: int
  cs_id :: identity

record rbac_authorizer =
  ra_ttl :: int
  ra_concurrency :: int
  ra_maxCache :: int
  ra_cache :: "cachedScope gomap"

definition defaultSARConcurrency :: int where "defaultSARConcurrency = 16"
definition defaultMaxCacheSize :: int where "defaultMaxCacheSize = 2048"

definition newAuthorizer :: "int \<Rightarrow> rbac_authorizer" where
  "newAuthorizer ttl = \<lparr>ra_ttl = ttl, ra_concurrency = defaultSARConcurrency,
     ra_maxCache = defaultMaxCacheSize, ra_cache = []\<rparr>"

text \<open>\<open>kc\<close> is the outcome of loading the in-cluster configuration and building the client.\<close>

definition NewRbac :: "go_error + unit \<Rightarrow> int \<Rightarrow> int \<Rightarrow> go_error + rbac_authorizer" where
  "NewRbac kc ttl concurrency =
    (case kc of
       Inl e \<Rightarrow> Inl e
     | Inr _ \<Rightarrow>
         let a = newAuthorizer ttl
         in Inr (if 0 < concurrency then a\<lparr>ra_concurrency := concurrency\<rparr> else a))"

type_synonym 'b rbac_state = "(rbac_authorizer, 'b) auth_state_scheme"

abbreviation scopes :: "'b rbac_state \<Rightarrow> cachedScope gomap" where
  "scopes s \<equiv> ra_cache (auth s)"

definition set_scopes :: "cachedScope gomap \<Rightarrow> 'b rbac_state \<Rightarrow> 'b rbac_state" where
  "set_scopes m s = s\<lparr>auth := (auth s)\<lparr>ra_cache := m\<rparr>\<rparr>"

lemma set_scopes_fields [simp]:
  "scopes (set_scopes m s) = m" "ra_ttl (auth (set_scopes m s)) = ra_ttl (auth s)"
  "ra_maxCache (auth (set_scopes m s)) = ra_maxCache (auth s)"
  "met (set_scopes m s) = met s" "rt (set_scopes m s) = rt s"
  "auth_state.more (set_scopes m s) = auth_state.more s"
  by (simp_all add: set_scopes_def)

section \<open>The cache key\<close>

definition firstNonEmpty :: "string \<Rightarrow> string \<Rightarrow> string" where
  "firstNonEmpty a b = (if a \<noteq> [] then a else b)"

definition nul :: char where "nul = CHR 0x00"

definition cacheKey :: "identity \<Rightarrow> string" where
  "cacheKey i =
    (let groups = sort (id_groups i)
     in id_user i @ [nul] @ id_email i @ [nul] @ join_with [nul] groups)"

section \<open>The cache\<close>

definition cached :: "string \<Rightarrow> 'b rbac_state \<Rightarrow> scope option \<times> 'b rbac_state" where
  "cached key s =
    (case map_of (scopes s) key of
       None \<Rightarrow> (None, s)
     | Some c \<Rightarrow>
         let (t, s) = now s
         in if t < cs_expires c then (Some (cs_scope c), s) else (None, s))"

definition evictExpired :: "'b rbac_state \<Rightarrow> 'b rbac_state" where
  "evictExpired s =
    (let (t, s) = now s in set_scopes (filter (\<lambda>(k, c). t < cs_expires c) (scopes s)) s)"

fun drop_arbitrary :: "int \<Rightarrow> string list \<Rightarrow> cachedScope gomap \<Rightarrow> cachedScope gomap" where
  "drop_arbitrary bound [] m = m"
| "drop_arbitrary bound (k # ks) m =
    (if int (length m) < bound then m else drop_arbitrary bound ks (AList.delete k m))"

definition store :: "string \<Rightarrow> scope \<Rightarrow> identity \<Rightarrow> 'b rbac_state \<Rightarrow> 'b rbac_state" where
  "store key sc i s =
    (let s = (if ra_maxCache (auth s) \<le> int (length (scopes s)) then
                let s = evictExpired s;
                    (ks, s) = range_map (scopes s) s
                in set_scopes (drop_arbitrary (ra_maxCache (auth s)) ks (scopes s)) s
              else s);
         (t, s) = now s
     in set_scopes (AList.update key
          \<lparr>cs_scope = sc, cs_expires = t + ra_ttl (auth s), cs_id = i\<rparr> (scopes s)) s)"

definition sweepScopes :: "'b rbac_state \<Rightarrow> 'b rbac_state" where
  "sweepScopes s = evictExpired s"

section \<open>Resolution\<close>

definition review_of :: "identity \<Rightarrow> string \<Rightarrow> review_request" where
  "review_of i ns = \<lparr>sar_user = firstNonEmpty (id_user i) (id_email i), sar_groups = id_groups i,
     sar_namespace = ns, sar_verb = ''list'', sar_api_group = [], sar_resource = ''pods''\<rparr>"

text \<open>A call to the API server is a consultation of the environment; it returns at that time.\<close>

definition canListPods ::
  "kube \<Rightarrow> int \<Rightarrow> identity \<Rightarrow> string \<Rightarrow> 'b rbac_state \<Rightarrow> (go_error + bool) \<times> 'b rbac_state" where
  "canListPods kc deadline i ns s =
    (let s = observe (\<lambda>m. m\<lparr>SubjectAccessReviewsTotal := Suc (SubjectAccessReviewsTotal m)\<rparr>) s;
         n = ticks (rt s);
         (t, s) = now s
     in (review kc n deadline (review_of i ns), s))"

text \<open>
  The reviews of the error group, in the order in which they complete; the first error is the
  one \<^verbatim>\<open>Wait\<close> returns, and every started review still runs.
\<close>

fun review_each ::
  "kube \<Rightarrow> int \<Rightarrow> identity \<Rightarrow> string list \<Rightarrow> go_error option \<Rightarrow> bool gomap \<Rightarrow> 'b rbac_state
   \<Rightarrow> go_error option \<times> bool gomap \<times> 'b rbac_state" where
  "review_each kc deadline i [] err allowed s = (err, allowed, s)"
| "review_each kc deadline i (ns # nss) err allowed s =
    (case canListPods kc deadline i ns s of
       (Inl e, s) \<Rightarrow>
         review_each kc deadline i nss (case err of None \<Rightarrow> Some e | Some e' \<Rightarrow> Some e') allowed s
     | (Inr ok, s) \<Rightarrow>
         review_each kc deadline i nss err (if ok then set_true ns allowed else allowed) s)"

definition resolve ::
  "kube \<Rightarrow> int \<Rightarrow> identity \<Rightarrow> 'b rbac_state \<Rightarrow> (go_error + scope) \<times> 'b rbac_state" where
  "resolve kc deadline i s =
    (case canListPods kc deadline i [] s of
       (Inl e, s) \<Rightarrow> (Inl e, s)
     | (Inr True, s) \<Rightarrow> (Inr \<lparr>sc_all = True, sc_namespaces = []\<rparr>, s)
     | (Inr False, s) \<Rightarrow>
         let n = ticks (rt s);
             (t, s) = now s
         in (case list_namespaces kc n deadline of
               Inl e \<Rightarrow> (Inl e, s)
             | Inr names \<Rightarrow>
                 let (order, s) = range_map (map (\<lambda>name. (name, ())) names) s;
                     (err, allowed, s) = review_each kc deadline i order None [] s
                 in (case err of
                       Some e \<Rightarrow> (Inl e, s)
                     | None \<Rightarrow> (Inr \<lparr>sc_all = False, sc_namespaces = allowed\<rparr>, s))))"

definition count_lookup :: "string \<Rightarrow> 'a go_state_scheme \<Rightarrow> 'a go_state_scheme" where
  "count_lookup r s = observe (\<lambda>m. m\<lparr>ScopeCacheTotal := vec_inc [r] (ScopeCacheTotal m)\<rparr>) s"

definition RbacAllowed ::
  "kube \<Rightarrow> identity \<Rightarrow> 'b rbac_state \<Rightarrow> (go_error + scope) \<times> 'b rbac_state" where
  "RbacAllowed kc i s =
    (let key = cacheKey i;
         (hit, s) = cached key s
     in case hit of
          Some sc \<Rightarrow> (Inr sc, count_lookup ''hit'' s)
        | None \<Rightarrow>
            let s = count_lookup ''miss'' s;
                (again, s) = cached key s
            in (case again of
                  Some sc \<Rightarrow> (Inr sc, s)
                | None \<Rightarrow>
                    let (t, s) = now s;
                        (res, s) = resolve kc (t + ra_ttl (auth s)) i s
                    in (case res of
                          Inl e \<Rightarrow> (Inl e, s)
                        | Inr sc \<Rightarrow> (Inr sc, store key sc i s))))"

section \<open>The background sweep\<close>

fun scope_sweep_loop :: "sweep_event list \<Rightarrow> 'b rbac_state \<Rightarrow> 'b rbac_state" where
  "scope_sweep_loop [] s = s"
| "scope_sweep_loop (Sweep_Done # evs) s = s"
| "scope_sweep_loop (Sweep_Tick # evs) s = scope_sweep_loop evs (sweepScopes s)"

definition RunScopeSweeper :: "sweep_event list \<Rightarrow> 'b rbac_state \<Rightarrow> 'b rbac_state goroutine" where
  "RunScopeSweeper evs s =
    (if ra_ttl (auth s) \<le> 0 then Panics else Runs (scope_sweep_loop evs s))"

end
