(* ===== verification/Rbac_Watch.thy ===== *)
theory Rbac_Watch
  imports Rbac_Authorizer
begin

text \<open>
  \<^verbatim>\<open>internal/authz/rbac/watch.go\<close>: eviction of cached scopes on changes of the cluster's RBAC
  objects. Objects carry the fields the code reads or clears; what the informers deliver, and
  what their listers hold at that moment, comes from the environment. \<^verbatim>\<open>RunWatch\<close> is the decision
  taken at start-up and the processing of events until the context ends.
\<close>

section \<open>Objects\<close>

record object_meta =
  om_name :: string
  om_namespace :: string
  om_managed_fields :: bytes
  om_annotations :: "string gomap"
  om_labels :: "string gomap"

record subject =
  su_kind :: string
  su_name :: string

record role_ref =
  rr_kind :: string
  rr_name :: string

record namespace_obj =
  no_meta :: object_meta
  no_spec :: bytes
  no_status :: bytes

record role_obj =
  ro_meta :: object_meta
  ro_rules :: "bytes option"

record cluster_role_obj =
  cro_meta :: object_meta
  cro_rules :: "bytes option"
  cro_aggregation :: "bytes option"

record binding_obj =
  bo_meta :: object_meta
  bo_subjects :: "subject list"
  bo_role_ref :: role_ref

text \<open>
  What an informer may hand over: one of the five watched kinds, a tombstone for an object whose
  deletion was missed, or anything else.
\<close>

datatype obj =
    O_Namespace namespace_obj
  | O_Role role_obj
  | O_ClusterRole cluster_role_obj
  | O_RoleBinding binding_obj
  | O_ClusterRoleBinding binding_obj
  | O_DeletedFinalStateUnknown obj
  | O_Other bytes

definition unwrapTombstone :: "obj \<Rightarrow> obj" where
  "unwrapTombstone x = (case x of O_DeletedFinalStateUnknown t \<Rightarrow> t | _ \<Rightarrow> x)"

section \<open>What the informer caches keep\<close>

definition trimMeta :: "object_meta \<Rightarrow> object_meta" where
  "trimMeta m = m\<lparr>om_managed_fields := [], om_annotations := []\<rparr>"

definition trimForWatchCache :: "obj \<Rightarrow> go_error + obj" where
  "trimForWatchCache x = Inr
    (case x of
       O_Namespace n \<Rightarrow> O_Namespace (n\<lparr>no_meta := trimMeta (no_meta n), no_spec := [], no_status := []\<rparr>)
     | O_Role r \<Rightarrow> O_Role (r\<lparr>ro_meta := trimMeta (ro_meta r), ro_rules := None\<rparr>)
     | O_ClusterRole r \<Rightarrow> O_ClusterRole
         (r\<lparr>cro_meta := trimMeta (cro_meta r), cro_rules := None, cro_aggregation := None\<rparr>)
     | O_RoleBinding b \<Rightarrow> O_RoleBinding (b\<lparr>bo_meta := trimMeta (bo_meta b)\<rparr>)
     | O_ClusterRoleBinding b \<Rightarrow> O_ClusterRoleBinding (b\<lparr>bo_meta := trimMeta (bo_meta b)\<rparr>)
     | _ \<Rightarrow> x)"

section \<open>Eviction\<close>

definition rbacKindUser :: string where "rbacKindUser = ''User''"
definition rbacKindGroup :: string where "rbacKindGroup = ''Group''"

definition count_invalidation :: "string \<Rightarrow> 'a go_state_scheme \<Rightarrow> 'a go_state_scheme" where
  "count_invalidation resource s = observe (\<lambda>m. m\<lparr>RBACCacheInvalidationsTotal :=
     vec_inc [resource] (RBACCacheInvalidationsTotal m)\<rparr>) s"

text \<open>The loop over the cache, deleting the entries a test selects.\<close>

fun evict_matching ::
  "(cachedScope \<Rightarrow> bool) \<Rightarrow> string \<Rightarrow> string list \<Rightarrow> 'b rbac_state \<Rightarrow> 'b rbac_state" where
  "evict_matching matched resource [] s = s"
| "evict_matching matched resource (k # ks) s =
    (case map_of (scopes s) k of
       None \<Rightarrow> evict_matching matched resource ks s
     | Some c \<Rightarrow>
         if matched c then
           evict_matching matched resource ks
             (count_invalidation resource (set_scopes (AList.delete k (scopes s)) s))
         else evict_matching matched resource ks s)"

definition subject_names :: "string \<Rightarrow> subject list \<Rightarrow> bool gomap" where
  "subject_names kind subjects =
    set_all_true (map su_name (filter (\<lambda>x. su_kind x = kind) subjects)) []"

definition subject_matched :: "bool gomap \<Rightarrow> bool gomap \<Rightarrow> cachedScope \<Rightarrow> bool" where
  "subject_matched users groups c \<longleftrightarrow>
     get_bool users (firstNonEmpty (id_user (cs_id c)) (id_email (cs_id c)))
     \<or> list_ex (get_bool groups) (id_groups (cs_id c))"

definition invalidateSubjects :: "subject list \<Rightarrow> string \<Rightarrow> 'b rbac_state \<Rightarrow> 'b rbac_state" where
  "invalidateSubjects subjects resource s =
    (let users = subject_names rbacKindUser subjects;
         groups = subject_names rbacKindGroup subjects
     in if users = [] \<and> groups = [] then s
        else let (ks, s) = range_map (scopes s) s
             in evict_matching (subject_matched users groups) resource ks s)"

definition invalidateNamespace :: "string \<Rightarrow> 'b rbac_state \<Rightarrow> 'b rbac_state" where
  "invalidateNamespace ns s =
    (let (ks, s) = range_map (scopes s) s
     in evict_matching (\<lambda>c. \<not> sc_all (cs_scope c) \<and> get_bool (sc_namespaces (cs_scope c)) ns)
          ResourceNamespace ks s)"

section \<open>Handlers\<close>

text \<open>What the two binding listers answer when they are asked.\<close>

record listers =
  role_bindings_in :: "string \<Rightarrow> go_error + binding_obj list"
  role_bindings :: "go_error + binding_obj list"
  cluster_role_bindings :: "go_error + binding_obj list"

definition bound_subjects :: "string \<Rightarrow> string \<Rightarrow> binding_obj list \<Rightarrow> subject list" where
  "bound_subjects kind name bs = concat (map bo_subjects
     (filter (\<lambda>b. rr_kind (bo_role_ref b) = kind \<and> rr_name (bo_role_ref b) = name) bs))"

definition onRoleChanged :: "listers \<Rightarrow> string \<Rightarrow> string \<Rightarrow> 'b rbac_state \<Rightarrow> 'b rbac_state" where
  "onRoleChanged ls namespace name s =
    (case role_bindings_in ls namespace of
       Inl e \<Rightarrow> s
     | Inr bs \<Rightarrow> invalidateSubjects (bound_subjects ''Role'' name bs) ResourceRole s)"

definition onClusterRoleChanged :: "listers \<Rightarrow> string \<Rightarrow> 'b rbac_state \<Rightarrow> 'b rbac_state" where
  "onClusterRoleChanged ls name s =
    (case role_bindings ls of
       Inl e \<Rightarrow> s
     | Inr rbs \<Rightarrow>
         (case cluster_role_bindings ls of
            Inl e \<Rightarrow> s
          | Inr crbs \<Rightarrow>
              invalidateSubjects (bound_subjects ''ClusterRole'' name rbs
                @ bound_subjects ''ClusterRole'' name crbs) ResourceClusterRole s))"

text \<open>The five informers, and what they report.\<close>

datatype informer = I_Namespaces | I_Roles | I_ClusterRoles | I_RoleBindings | I_ClusterRoleBindings

datatype notice = Added obj | Updated obj obj | Deleted obj

fun handle :: "listers \<Rightarrow> informer \<Rightarrow> notice \<Rightarrow> 'b rbac_state \<Rightarrow> 'b rbac_state" where
  "handle ls I_Namespaces (Deleted x) s =
    (case unwrapTombstone x of
       O_Namespace n \<Rightarrow> invalidateNamespace (om_name (no_meta n)) s | _ \<Rightarrow> s)"
| "handle ls I_Namespaces _ s = s"
| "handle ls I_Roles (Updated old new) s =
    (case new of O_Role r \<Rightarrow> onRoleChanged ls (om_namespace (ro_meta r)) (om_name (ro_meta r)) s
     | _ \<Rightarrow> s)"
| "handle ls I_Roles (Deleted x) s =
    (case unwrapTombstone x of
       O_Role r \<Rightarrow> onRoleChanged ls (om_namespace (ro_meta r)) (om_name (ro_meta r)) s | _ \<Rightarrow> s)"
| "handle ls I_Roles (Added x) s = s"
| "handle ls I_ClusterRoles (Updated old new) s =
    (case new of O_ClusterRole r \<Rightarrow> onClusterRoleChanged ls (om_name (cro_meta r)) s | _ \<Rightarrow> s)"
| "handle ls I_ClusterRoles (Deleted x) s =
    (case unwrapTombstone x of
       O_ClusterRole r \<Rightarrow> onClusterRoleChanged ls (om_name (cro_meta r)) s | _ \<Rightarrow> s)"
| "handle ls I_ClusterRoles (Added x) s = s"
| "handle ls I_RoleBindings (Added x) s =
    (case x of O_RoleBinding b \<Rightarrow> invalidateSubjects (bo_subjects b) ResourceRoleBinding s | _ \<Rightarrow> s)"
| "handle ls I_RoleBindings (Updated old new) s =
    (case (old, new) of
       (O_RoleBinding old, O_RoleBinding cur) \<Rightarrow>
         invalidateSubjects (bo_subjects old @ bo_subjects cur) ResourceRoleBinding s
     | _ \<Rightarrow> s)"
| "handle ls I_RoleBindings (Deleted x) s =
    (case unwrapTombstone x of
       O_RoleBinding b \<Rightarrow> invalidateSubjects (bo_subjects b) ResourceRoleBinding s | _ \<Rightarrow> s)"
| "handle ls I_ClusterRoleBindings (Added x) s =
    (case x of
       O_ClusterRoleBinding b \<Rightarrow> invalidateSubjects (bo_subjects b) ResourceClusterRoleBinding s
     | _ \<Rightarrow> s)"
| "handle ls I_ClusterRoleBindings (Updated old new) s =
    (case (old, new) of
       (O_ClusterRoleBinding old, O_ClusterRoleBinding cur) \<Rightarrow>
         invalidateSubjects (bo_subjects old @ bo_subjects cur) ResourceClusterRoleBinding s
     | _ \<Rightarrow> s)"
| "handle ls I_ClusterRoleBindings (Deleted x) s =
    (case unwrapTombstone x of
       O_ClusterRoleBinding b \<Rightarrow> invalidateSubjects (bo_subjects b) ResourceClusterRoleBinding s
     | _ \<Rightarrow> s)"

section \<open>Running the watch\<close>

text \<open>
  What the environment does at start-up: registering the handlers may fail; then the initial
  synchronisation completes or fails, the timeout fires, or the context ends first. While the
  informers run they deliver notices, already during the synchronisation; returning cancels the
  derived context, which stops them.
\<close>

datatype sync_outcome = Synced | Sync_Failed | Sync_Timeout | Ctx_Ended

record watch_run =
  registration_fails :: bool
  early_notices :: "(listers \<times> informer \<times> notice) list"
  sync_outcome :: sync_outcome
  late_notices :: "(listers \<times> informer \<times> notice) list"

definition deliver :: "(listers \<times> informer \<times> notice) list \<Rightarrow> 'b rbac_state \<Rightarrow> 'b rbac_state" where
  "deliver ns s = fold (\<lambda>(ls, w, n). handle ls w n) ns s"

definition set_watch_active :: "nat \<Rightarrow> 'a go_state_scheme \<Rightarrow> 'a go_state_scheme" where
  "set_watch_active n s = observe (\<lambda>m. m\<lparr>RBACWatchActive := n\<rparr>) s"

definition RunWatch :: "watch_run \<Rightarrow> 'b rbac_state \<Rightarrow> 'b rbac_state" where
  "RunWatch w s =
    (if registration_fails w then set_watch_active 0 s
     else
       let s = deliver (early_notices w) s
       in case sync_outcome w of
            Sync_Failed \<Rightarrow> set_watch_active 0 s
          | Sync_Timeout \<Rightarrow> set_watch_active 0 s
          | Ctx_Ended \<Rightarrow> s
          | Synced \<Rightarrow> deliver (late_notices w) (set_watch_active 1 s))"

end

