(* ===== verification/Command.thy ===== *)
theory Command
  imports Logging Static_Authorizer Rbac_Watch Proxy_Handler
begin

text \<open>
  \<^verbatim>\<open>cmd/hubble-authz-proxy\<close>: the flags, what \<^verbatim>\<open>run\<close> builds from them, which goroutines it starts,
  and how the process ends. Durations are nanoseconds. The URL parser, the file system, the
  in-cluster client, the digest and the YAML decoder are the environment; so is the flag parser,
  which is given the defaults and returns the configuration or refuses the arguments.
\<close>

section \<open>Flags\<close>

definition second :: int where "second = 1000000000"
definition minute :: int where "minute = 60 * second"

record config =
  cf_listen :: string
  cf_metricsListen :: string
  cf_backendURL :: string
  cf_apiPrefix :: string
  cf_identityPfx :: string
  cf_mode :: string
  cf_mapFile :: string
  cf_logLevel :: string
  cf_logFormat :: string
  cf_mapReload :: int
  cf_rbacTTL :: int
  cf_channelTTL :: int
  cf_shutdownGrace :: int
  cf_rbacWorkers :: int
  cf_maxChannels :: int
  cf_maxResponse :: "64 word"
  cf_rbacWatch :: bool
  cf_reqBoth :: bool
  cf_notifyEmpty :: bool

definition default_config :: config where
  "default_config = \<lparr>
     cf_listen = '':8090'', cf_metricsListen = '':9090'',
     cf_backendURL = ''http://hubble-ui-backend:8090'', cf_apiPrefix = ''/api'',
     cf_identityPfx = AuthRequestPrefix, cf_mode = ''static'',
     cf_mapFile = ''/etc/hubble-authz/mapping.yaml'', cf_logLevel = ''info'', cf_logFormat = ''text'',
     cf_mapReload = 30 * second, cf_rbacTTL = 60 * second, cf_channelTTL = 10 * minute,
     cf_shutdownGrace = 20 * second, cf_rbacWorkers = 16, cf_maxChannels = DefaultMaxChannels,
     cf_maxResponse = push_bit 20 8, cf_rbacWatch = True, cf_reqBoth = False, cf_notifyEmpty = True\<rparr>"

section \<open>The environment of the process\<close>

record backend_url =
  bu_scheme :: string
  bu_host :: string
  bu_path :: string

record environment =
  en_parse_url :: "string \<Rightarrow> go_error + backend_url"
  en_read_file :: "string \<Rightarrow> go_error + bytes"
  en_sha256 :: "bytes \<Rightarrow> bytes"
  en_unmarshal :: "bytes \<Rightarrow> go_error + authz_mapping"
  en_client :: "go_error + unit"
  en_kube :: kube
  en_runtime :: runtime

section \<open>What runs\<close>

datatype process =
    Static_Process "static_authorizer reg_state"
  | Rbac_Process "rbac_authorizer reg_state"

datatype background =
    Bg_Reloader int
  | Bg_ScopeSweeper
  | Bg_Watch
  | Bg_ChannelSweeper
  | Bg_MetricsListener string

record launched =
  la_logger :: logger
  la_backend :: backend_url
  la_mode :: string
  la_proxy :: proxy
  la_process :: process
  la_background :: "background list"
  la_listen :: string
  la_shutdownGrace :: int

text \<open>
  The zero value of the process before anything is constructed, and the two places where \<^verbatim>\<open>run\<close>
  writes it after the authorizer exists.
\<close>

definition blank_process :: "environment \<Rightarrow> 'az \<Rightarrow> 'az reg_state" where
  "blank_process env a = \<lparr>rt = en_runtime env, met = fresh_metrics, auth = a, services = new_registry 0 0\<rparr>"

fun install_registry :: "registry \<Rightarrow> process \<Rightarrow> process" where
  "install_registry r (Static_Process s) = Static_Process (s\<lparr>services := r\<rparr>)"
| "install_registry r (Rbac_Process s) = Rbac_Process (s\<lparr>services := r\<rparr>)"

fun observe_process :: "(metrics \<Rightarrow> metrics) \<Rightarrow> process \<Rightarrow> process" where
  "observe_process f (Static_Process s) = Static_Process (observe f s)"
| "observe_process f (Rbac_Process s) = Rbac_Process (observe f s)"

section \<open>Starting\<close>

definition start_authorizer :: "environment \<Rightarrow> config \<Rightarrow> go_error + process \<times> background list" where
  "start_authorizer env cfg =
    (if cf_mode cfg = ''static'' then
       (case NewStaticAuthorizer (en_sha256 env) (en_unmarshal env) (cf_mapFile cfg)
            (en_read_file env (cf_mapFile cfg))
            (blank_process env \<lparr>sa_path = [], sa_m = zero_mapping, sa_sum = replicate 32 0\<rparr>) of
          Inl e \<Rightarrow> Inl e
        | Inr s \<Rightarrow> Inr (Static_Process s, [Bg_Reloader (cf_mapReload cfg)]))
     else if cf_mode cfg = ''rbac'' then
       (case NewRbac (en_client env) (cf_rbacTTL cfg) (cf_rbacWorkers cfg) of
          Inl e \<Rightarrow> Inl e
        | Inr a \<Rightarrow> Inr (Rbac_Process (blank_process env a),
            Bg_ScopeSweeper # (if cf_rbacWatch cfg then [Bg_Watch] else [])))
     else Inl (Plain ''unknown --authz mode (want static|rbac)''))"

text \<open>\<open>Inl c\<close> is the process ending with exit status \<open>c\<close>.\<close>

definition run :: "environment \<Rightarrow> string \<Rightarrow> config \<Rightarrow> nat + launched" where
  "run env version cfg =
    (let logger = NewLogger (cf_logLevel cfg) (cf_logFormat cfg)
     in case en_parse_url env (cf_backendURL cfg) of
          Inl e \<Rightarrow> Inl 1
        | Inr backend \<Rightarrow>
            if bu_scheme backend = [] \<or> bu_host backend = [] then Inl 1
            else (case start_authorizer env cfg of
                Inl e \<Rightarrow> Inl 1
              | Inr (process, bg) \<Rightarrow>
                  let process = install_registry
                        (new_registry (cf_channelTTL cfg) (cf_maxChannels cfg)) process;
                      bg = bg @ [Bg_ChannelSweeper];
                      handler = NewProxy (cf_apiPrefix cfg) (cf_reqBoth cfg) (cf_identityPfx cfg)
                        (cf_maxResponse cfg) (cf_notifyEmpty cfg);
                      (process, bg) =
                        (if cf_metricsListen cfg \<noteq> [] then
                           (observe_process (NewRegistry version KnownRoutes) process,
                            bg @ [Bg_MetricsListener (cf_metricsListen cfg)])
                         else (process, bg))
                  in Inr \<lparr>la_logger = logger, la_backend = backend, la_mode = cf_mode cfg,
                       la_proxy = handler, la_process = process, la_background = bg,
                       la_listen = cf_listen cfg, la_shutdownGrace = cf_shutdownGrace cfg\<rparr>))"

text \<open>
  How serving ends: the listener fails, it reports the server closed, or a signal arrives. After
  either of the last two the servers are shut down, errors of which are logged only.
\<close>

datatype serve_end = Listener_Failed go_error | Server_Closed | Signal_Received

definition exit_status :: "serve_end \<Rightarrow> nat" where
  "exit_status e = (case e of Listener_Failed _ \<Rightarrow> 1 | Server_Closed \<Rightarrow> 0 | Signal_Received \<Rightarrow> 0)"

definition main ::
  "environment \<Rightarrow> (config \<Rightarrow> go_error + config) \<Rightarrow> string \<Rightarrow> nat + launched" where
  "main env parse_flags version =
    (case parse_flags default_config of Inl e \<Rightarrow> Inl 1 | Inr cfg \<Rightarrow> run env version cfg)"

section \<open>Requests\<close>

fun process_serve ::
  "environment \<Rightarrow> codec \<Rightarrow> launched \<Rightarrow> upstream \<Rightarrow> request \<Rightarrow> process \<Rightarrow> reply \<times> process" where
  "process_serve env cd l up r (Static_Process s) =
    (let (reply, s) = ServeHTTP (Instrumented StaticAllowed (la_mode l)) cd (la_proxy l) up r s
     in (reply, Static_Process s))"
| "process_serve env cd l up r (Rbac_Process s) =
    (let (reply, s) = ServeHTTP (Instrumented (RbacAllowed (en_kube env)) (la_mode l)) cd (la_proxy l) up r s
     in (reply, Rbac_Process s))"

section \<open>Background work\<close>

text \<open>
  A goroutine that \<^verbatim>\<open>run\<close> starts may panic as soon as it runs, which ends the process whatever the
  others do.
\<close>

fun background_panics :: "background \<Rightarrow> process \<Rightarrow> bool" where
  "background_panics Bg_ChannelSweeper (Static_Process s) \<longleftrightarrow> RunSweeper [] s = Panics"
| "background_panics Bg_ChannelSweeper (Rbac_Process s) \<longleftrightarrow> RunSweeper [] s = Panics"
| "background_panics Bg_ScopeSweeper (Rbac_Process s) \<longleftrightarrow> RunScopeSweeper [] s = Panics"
| "background_panics _ _ \<longleftrightarrow> False"

text \<open>
  One step of a running process: a request is answered, or one of the goroutines that were started
  does one round of its work. A request is taken as a whole here; requests that overlap are the
  subject of \<open>Rbac_Process\<close> and \<open>File_Process\<close>, which show what a request that meets no other does
  to be this step.
\<close>

inductive step :: "environment \<Rightarrow> codec \<Rightarrow> launched \<Rightarrow> process \<Rightarrow> process \<Rightarrow> bool"
  for env cd l where
  serve: "backend_path up = bu_path (la_backend l) \<Longrightarrow>
    step env cd l P (snd (process_serve env cd l up r P))"
| sweep_static: "Bg_ChannelSweeper \<in> set (la_background l) \<Longrightarrow>
    step env cd l (Static_Process s) (Static_Process (sweep s))"
| sweep_rbac: "Bg_ChannelSweeper \<in> set (la_background l) \<Longrightarrow>
    step env cd l (Rbac_Process s) (Rbac_Process (sweep s))"
| remap: "Bg_Reloader d \<in> set (la_background l) \<Longrightarrow>
    step env cd l (Static_Process s)
      (Static_Process (RunReloader (en_sha256 env) (en_unmarshal env) d [File_Tick found] s))"
| expire: "Bg_ScopeSweeper \<in> set (la_background l) \<Longrightarrow>
    step env cd l (Rbac_Process s) (Rbac_Process (sweepScopes s))"
| notified: "Bg_Watch \<in> set (la_background l) \<Longrightarrow>
    step env cd l (Rbac_Process s) (Rbac_Process (handle ls w n s))"
| watch_status: "Bg_Watch \<in> set (la_background l) \<Longrightarrow>
    step env cd l (Rbac_Process s) (Rbac_Process (set_watch_active k s))"

inductive reachable :: "environment \<Rightarrow> codec \<Rightarrow> launched \<Rightarrow> process \<Rightarrow> bool" for env cd l where
  start: "reachable env cd l (la_process l)"
| next_step: "reachable env cd l P \<Longrightarrow> step env cd l P P' \<Longrightarrow> reachable env cd l P'"

inductive_cases step_StaticE: "step env cd l (Static_Process s) P'"
inductive_cases step_RbacE: "step env cd l (Rbac_Process s) P'"

end
