(* ===== verification/Rbac_Laws.thy ===== *)
theory Rbac_Laws
  imports Rbac_Authorizer
begin

text \<open>
  What the RBAC authorizer keeps and changes: where the grants of a resolution come from, and the
  invariant of the scope cache of \<^verbatim>\<open>internal/authz/rbac/rbac.go\<close>. \<open>Rbac_Calls\<close> has whole calls.
\<close>

section \<open>Frames\<close>

definition rbac_frame :: "'b rbac_state \<Rightarrow> 'b rbac_state \<Rightarrow> bool" where
  "rbac_frame s s' \<longleftrightarrow>
     auth_state.more s' = auth_state.more s \<and> ra_ttl (auth s') = ra_ttl (auth s)
     \<and> ra_maxCache (auth s') = ra_maxCache (auth s)
     \<and> RequestsTotal (met s') = RequestsTotal (met s) \<and> RequestDuration (met s') = RequestDuration (met s)
     \<and> EventsTotal (met s') = EventsTotal (met s) \<and> TrackedChannels (met s') = TrackedChannels (met s)
     \<and> RBACWatchActive (met s') = RBACWatchActive (met s)
     \<and> now_at (rt s') = now_at (rt s) \<and> ticks (rt s) \<le> ticks (rt s')"

definition consults :: "'b rbac_state \<Rightarrow> 'b rbac_state \<Rightarrow> bool" where
  "consults s s' \<longleftrightarrow> rbac_frame s s' \<and> auth s' = auth s"

lemma rbac_frame_refl [simp]: "rbac_frame s s"
  by (simp add: rbac_frame_def)

lemma rbac_frame_trans: "rbac_frame s s1 \<Longrightarrow> rbac_frame s1 s2 \<Longrightarrow> rbac_frame s s2"
  by (simp add: rbac_frame_def)

lemma consults_refl [simp]: "consults s s"
  by (simp add: consults_def)

lemma consults_trans: "consults s s1 \<Longrightarrow> consults s1 s2 \<Longrightarrow> consults s s2"
  unfolding consults_def using rbac_frame_trans by metis

lemma consults_rt [simp]:
  "now_at r = now_at (rt s) \<Longrightarrow> ticks (rt s) \<le> ticks r \<Longrightarrow> consults s (s\<lparr>rt := r\<rparr>)"
  by (simp add: consults_def rbac_frame_def)

lemma consults_now: "now s = (t, s') \<Longrightarrow> consults s s' \<and> t = now_at (rt s) (ticks (rt s))
    \<and> ticks (rt s') = Suc (ticks (rt s))"
  by (auto simp: now_eq)

lemma consults_range: "range_map m s = (ks, s') \<Longrightarrow> consults s s'"
  by (auto simp: range_map_eq)

lemma consults_lookup [simp]: "consults s (count_lookup r s)"
  by (simp add: consults_def rbac_frame_def count_lookup_def)

lemma frame_set_scopes [simp]: "rbac_frame s (set_scopes m s)"
  by (simp add: rbac_frame_def)

lemma consults_frame: "consults s s' \<Longrightarrow> rbac_frame s s'"
  by (simp add: consults_def)

section \<open>Where grants come from\<close>

text \<open>
  \<open>confirmed kc I d i sc\<close>: every grant of \<open>sc\<close> was answered positively by the API server for the
  identity \<open>i\<close>, under the deadline \<open>d\<close>, at a consultation in \<open>I\<close>.
\<close>

definition reviewed :: "kube \<Rightarrow> nat set \<Rightarrow> int \<Rightarrow> identity \<Rightarrow> string \<Rightarrow> bool" where
  "reviewed kc I d i ns \<longleftrightarrow> (\<exists>n \<in> I. review kc n d (review_of i ns) = Inr True)"

definition confirmed :: "kube \<Rightarrow> nat set \<Rightarrow> int \<Rightarrow> identity \<Rightarrow> scope \<Rightarrow> bool" where
  "confirmed kc I d i sc \<longleftrightarrow>
     (sc_all sc \<longrightarrow> reviewed kc I d i []) \<and> (\<forall>ns. in_scope sc ns \<longrightarrow> reviewed kc I d i ns)"

lemma reviewed_mono: "reviewed kc I d i ns \<Longrightarrow> I \<subseteq> J \<Longrightarrow> reviewed kc J d i ns"
  by (auto simp: reviewed_def)

lemma confirmed_mono: "confirmed kc I d i sc \<Longrightarrow> I \<subseteq> J \<Longrightarrow> confirmed kc J d i sc"
  unfolding confirmed_def using reviewed_mono by metis

lemma canListPods_spec:
  assumes "canListPods kc d i ns s = (res, s')"
  shows "res = review kc (ticks (rt s)) d (review_of i ns)" and "consults s s'"
    and "ticks (rt s') = Suc (ticks (rt s))"
    and "SubjectAccessReviewsTotal (met s') = Suc (SubjectAccessReviewsTotal (met s))"
  using assms by (auto simp: canListPods_def now_eq Let_def consults_def rbac_frame_def)

lemma review_each_spec:
  assumes "review_each kc d i nss err allowed s = (err', allowed', s')"
  shows "consults s s' \<and> (err' = None \<longrightarrow> err = None \<and> (\<forall>ns. get_bool allowed' ns \<longrightarrow> get_bool allowed ns
      \<or> ns \<in> set nss \<and> reviewed kc {ticks (rt s)..<ticks (rt s')} d i ns))
    \<and> SubjectAccessReviewsTotal (met s') = SubjectAccessReviewsTotal (met s) + length nss"
  using assms
proof (induction nss arbitrary: err allowed s)
  case (Cons ns nss)
  obtain res s1 where c: "canListPods kc d i ns s = (res, s1)" by fastforce
  note spec = canListPods_spec [OF c]
  show ?case
  proof (cases res)
    case (Inl e)
    with Cons.prems c have "review_each kc d i nss (Some (case err of None \<Rightarrow> e | Some e' \<Rightarrow> e')) allowed s1
        = (err', allowed', s')"
      by (cases err) simp_all
    from Cons.IH [OF this] spec show ?thesis by (auto intro: consults_trans)
  next
    case (Inr ok)
    with Cons.prems c have "review_each kc d i nss err (if ok then set_true ns allowed else allowed) s1
        = (err', allowed', s')" by simp
    note ih = Cons.IH [OF this]
    have le: "ticks (rt s1) \<le> ticks (rt s')" using ih by (simp add: consults_def rbac_frame_def)
    have here: "reviewed kc {ticks (rt s)..<ticks (rt s')} d i ns" if ok
      using that spec Inr le by (auto simp: reviewed_def)
    have later: "reviewed kc {ticks (rt s1)..<ticks (rt s')} d i n \<Longrightarrow>
        reviewed kc {ticks (rt s)..<ticks (rt s')} d i n" for n
      by (erule reviewed_mono) (simp add: spec(3))
    show ?thesis
      using ih spec(2,4) here later consults_trans by (auto simp: gomap_simps split: if_splits)
  qed
qed simp

lemma resolve_spec:
  assumes run: "resolve kc d i s = (res, s')"
  shows "consults s s' \<and> (case res of Inl e \<Rightarrow> True
    | Inr sc \<Rightarrow> confirmed kc {ticks (rt s)..<ticks (rt s')} d i sc)"
proof -
  obtain r1 s1 where c: "canListPods kc d i [] s = (r1, s1)" by fastforce
  note spec = canListPods_spec [OF c]
  consider (err) e where "r1 = Inl e" | (all) "r1 = Inr True" | (each) "r1 = Inr False"
    by (cases r1) auto
  then show ?thesis
  proof cases
    case err
    with run c spec(2) show ?thesis by (auto simp: resolve_def)
  next
    case all
    with spec have "reviewed kc {ticks (rt s)..<ticks (rt s1)} d i []" by (auto simp: reviewed_def)
    with run c spec(2) all show ?thesis by (auto simp: resolve_def confirmed_def)
  next
    case each
    obtain t s2 where n: "now s1 = (t, s2)" by fastforce
    have s2: "consults s s2" "ticks (rt s) \<le> ticks (rt s2)"
      using consults_now [OF n] spec(2,3) consults_trans by (auto simp: consults_def rbac_frame_def)
    show ?thesis
    proof (cases "list_namespaces kc (ticks (rt s1)) d")
      case (Inl e)
      with run c each n s2 show ?thesis by (auto simp: resolve_def)
    next
      case (Inr names)
      obtain order s3 where o: "range_map (map (\<lambda>name. (name, ())) names) s2 = (order, s3)" by fastforce
      obtain err allowed s4 where r: "review_each kc d i order None [] s3 = (err, allowed, s4)"
        by (metis prod_cases3)
      note r_spec = review_each_spec [OF r]
      have s3: "consults s s3" "ticks (rt s) \<le> ticks (rt s3)"
        using consults_range [OF o] s2 consults_trans by (auto simp: consults_def rbac_frame_def)
      have later: "reviewed kc {ticks (rt s3)..<ticks (rt s4)} d i ns \<Longrightarrow>
          reviewed kc {ticks (rt s)..<ticks (rt s4)} d i ns" for ns
        by (erule reviewed_mono) (simp add: s3(2))
      show ?thesis
      proof (cases err)
        case (Some e)
        with run c each n Inr o r r_spec consults_trans [OF s3(1)] show ?thesis
          by (auto simp: resolve_def)
      next
        case None
        with run c each n Inr o r have "res = Inr \<lparr>sc_all = False, sc_namespaces = allowed\<rparr>" "s' = s4"
          by (auto simp: resolve_def)
        with r_spec None later consults_trans [OF s3(1)] show ?thesis by (auto simp: confirmed_def)
      qed
    qed
  qed
qed

section \<open>The cache\<close>

text \<open>
  An entry is filed under the key of its identity; its grants were confirmed between the
  consultation \<open>n\<^sub>0\<close> that set the deadline and the consultation \<open>m\<close> that set the expiry.
\<close>

definition entry_ok :: "kube \<Rightarrow> 'b rbac_state \<Rightarrow> string \<Rightarrow> cachedScope \<Rightarrow> bool" where
  "entry_ok kc s key c \<longleftrightarrow> key = cacheKey (cs_id c)
     \<and> (\<exists>n\<^sub>0 m. n\<^sub>0 < m \<and> m < ticks (rt s) \<and> cs_expires c = now_at (rt s) m + ra_ttl (auth s)
          \<and> confirmed kc {n\<^sub>0<..<m} (now_at (rt s) n\<^sub>0 + ra_ttl (auth s)) (cs_id c) (cs_scope c))"

definition rbac_ok :: "kube \<Rightarrow> 'b rbac_state \<Rightarrow> bool" where
  "rbac_ok kc s \<longleftrightarrow> wf_map (scopes s)
     \<and> (\<forall>key c. map_of (scopes s) key = Some c \<longrightarrow> entry_ok kc s key c)
     \<and> (0 < ra_maxCache (auth s) \<longrightarrow> int (length (scopes s)) \<le> ra_maxCache (auth s))"

lemma entry_ok_frame: "rbac_frame s s' \<Longrightarrow> entry_ok kc s key c \<Longrightarrow> entry_ok kc s' key c"
  unfolding entry_ok_def rbac_frame_def by (metis order_less_le_trans)

lemma rbac_ok_consults:
  assumes "consults s s'" and "rbac_ok kc s"
  shows "rbac_ok kc s'"
  using assms entry_ok_frame [OF consults_frame [OF assms(1)], of kc]
  by (auto simp: rbac_ok_def consults_def)

lemma rbac_ok_shrink:
  assumes "rbac_ok kc s" and "wf_map m" and "length m \<le> length (scopes s)"
    and "\<And>k c. map_of m k = Some c \<Longrightarrow> map_of (scopes s) k = Some c"
  shows "rbac_ok kc (set_scopes m s)"
  using assms entry_ok_frame [OF frame_set_scopes, of kc s]
  unfolding rbac_ok_def by fastforce

lemma cached_spec:
  assumes "cached key s = (hit, s')"
  shows "consults s s' \<and> (case hit of None \<Rightarrow> True
    | Some sc \<Rightarrow> (\<exists>c. map_of (scopes s) key = Some c \<and> sc = cs_scope c
        \<and> now_at (rt s) (ticks (rt s)) < cs_expires c \<and> ticks (rt s') = Suc (ticks (rt s))))"
  using assms by (auto simp: cached_def now_eq Let_def split: option.splits if_splits)

lemma evictExpired_spec:
  assumes "rbac_ok kc s"
  shows "rbac_ok kc (evictExpired s) \<and> rbac_frame s (evictExpired s)
    \<and> length (scopes (evictExpired s)) \<le> length (scopes s)
    \<and> map_of (scopes (evictExpired s)) k = (case map_of (scopes s) k of None \<Rightarrow> None
        | Some c \<Rightarrow> if now_at (rt s) (ticks (rt s)) < cs_expires c then Some c else None)"
proof -
  define t where "t = now_at (rt s) (ticks (rt s))"
  obtain s1 where n: "now s = (t, s1)" by (simp add: now_eq t_def)
  note spec = consults_now [OF n]
  from spec rbac_ok_consults assms have ok1: "rbac_ok kc s1" by blast
  have same: "scopes s1 = scopes s" using spec by (simp add: consults_def)
  let ?m = "filter (\<lambda>(k, c). t < cs_expires c) (scopes s)"
  have wf: "wf_map (scopes s)" using assms by (simp add: rbac_ok_def)
  have ev: "evictExpired s = set_scopes ?m s1" by (simp add: evictExpired_def n same)
  have lk: "map_of ?m k = (case map_of (scopes s) k of None \<Rightarrow> None
        | Some c \<Rightarrow> if t < cs_expires c then Some c else None)" for k
    by (rule map_of_filter_wf [OF wf])
  have "rbac_ok kc (set_scopes ?m s1)"
    by (rule rbac_ok_shrink [OF ok1])
      (auto simp: same lk wf wf_map_filter split: option.splits if_splits)
  with spec lk show ?thesis
    using rbac_frame_trans [OF consults_frame frame_set_scopes, of s s1 ?m]
    by (simp add: ev t_def [symmetric] split: option.split)
qed

lemma drop_arbitrary_spec:
  assumes "wf_map m"
  shows "wf_map (drop_arbitrary b ks m) \<and> length (drop_arbitrary b ks m) \<le> length m
    \<and> (\<forall>k c. map_of (drop_arbitrary b ks m) k = Some c \<longrightarrow> map_of m k = Some c)
    \<and> (0 < b \<longrightarrow> fst ` set m \<subseteq> set ks \<longrightarrow> int (length (drop_arbitrary b ks m)) < b)"
  using assms
proof (induction b ks m rule: drop_arbitrary.induct)
  case (2 b k ks m)
  show ?case
  proof (cases "int (length m) < b")
    case False
    note ih = "2.IH" [OF False wf_map_delete [OF "2.prems"]]
    have "length (AList.delete k m) \<le> length m" by (simp add: AList.delete_eq)
    moreover have "map_of (AList.delete k m) x = Some c \<Longrightarrow> map_of m x = Some c" for x c
      by (simp add: gomap_simps split: if_splits)
    moreover have "fst ` set (AList.delete k m) \<subseteq> set ks" if "fst ` set m \<subseteq> set (k # ks)"
      using that by (auto simp: AList.delete_eq)
    ultimately show ?thesis
      using ih False by (simp only: drop_arbitrary.simps if_False) (meson order_trans)
  qed (use "2.prems" in simp)
qed auto


text \<open>Storing: room is made first, then the clock is read, then the entry is written.\<close>

lemma store_stages:
  assumes ok: "rbac_ok kc s"
  obtains s1 s2 where "rbac_ok kc s1" and "rbac_frame s s1"
    and "0 < ra_maxCache (auth s) \<Longrightarrow> int (length (scopes s1)) < ra_maxCache (auth s)"
    and "\<And>k c. map_of (scopes s1) k = Some c \<Longrightarrow> map_of (scopes s) k = Some c"
    and "now s1 = (now_at (rt s1) (ticks (rt s1)), s2)"
    and "store key sc i s = set_scopes (AList.update key \<lparr>cs_scope = sc,
          cs_expires = now_at (rt s1) (ticks (rt s1)) + ra_ttl (auth s2), cs_id = i\<rparr> (scopes s2)) s2"
proof -
  define s1 where "s1 = (if ra_maxCache (auth s) \<le> int (length (scopes s)) then
      let s = evictExpired s; (ks, s) = range_map (scopes s) s
      in set_scopes (drop_arbitrary (ra_maxCache (auth s)) ks (scopes s)) s else s)"
  have s1: "rbac_ok kc s1 \<and> rbac_frame s s1
      \<and> (0 < ra_maxCache (auth s) \<longrightarrow> int (length (scopes s1)) < ra_maxCache (auth s))
      \<and> (\<forall>k c. map_of (scopes s1) k = Some c \<longrightarrow> map_of (scopes s) k = Some c)"
  proof (cases "ra_maxCache (auth s) \<le> int (length (scopes s))")
    case True
    let ?e = "evictExpired s"
    obtain ks s2 where r: "range_map (scopes ?e) ?e = (ks, s2)" by fastforce
    note e = evictExpired_spec [OF ok] and c = consults_range [OF r]
    let ?m = "drop_arbitrary (ra_maxCache (auth s2)) ks (scopes s2)"
    have same: "scopes s2 = scopes ?e" using c by (simp add: consults_def)
    have s1_eq: "s1 = set_scopes ?m s2" using True r by (simp add: s1_def)
    have ok2: "rbac_ok kc s2" using rbac_ok_consults [OF c] e by blast
    then have wf: "wf_map (scopes s2)" by (simp add: rbac_ok_def)
    note d = drop_arbitrary_spec [OF wf, of "ra_maxCache (auth s2)" ks]
    have "rbac_ok kc s1" unfolding s1_eq using d by (intro rbac_ok_shrink [OF ok2]) auto
    moreover have f: "rbac_frame s s2" using e rbac_frame_trans [OF _ consults_frame [OF c]] by blast
    moreover have "rbac_frame s s1" unfolding s1_eq by (rule rbac_frame_trans [OF f frame_set_scopes])
    moreover have "ra_maxCache (auth s2) = ra_maxCache (auth s)" using f by (simp add: rbac_frame_def)
    moreover have "fst ` set (scopes s2) \<subseteq> set ks" using range_map_set [OF r] same by simp
    moreover have "map_of (scopes s) k = Some c'" if "map_of (scopes s1) k = Some c'" for k c'
    proof -
      from that d have "map_of (scopes ?e) k = Some c'" by (simp add: s1_eq same)
      with e [of k] show ?thesis by (auto split: option.splits if_splits)
    qed
    ultimately show ?thesis using d by (simp add: s1_eq)
  qed (use ok in \<open>simp add: s1_def\<close>)
  obtain s2 where n: "now s1 = (now_at (rt s1) (ticks (rt s1)), s2)" by (simp add: now_eq)
  then have "store key sc i s = set_scopes (AList.update key \<lparr>cs_scope = sc,
      cs_expires = now_at (rt s1) (ticks (rt s1)) + ra_ttl (auth s2), cs_id = i\<rparr> (scopes s2)) s2"
    by (simp add: store_def s1_def [symmetric] Let_def)
  with s1 n that show ?thesis by blast
qed

lemma store_spec:
  assumes ok: "rbac_ok kc s" and key: "key = cacheKey i" and n\<^sub>0: "n\<^sub>0 < ticks (rt s)"
    and conf: "confirmed kc {n\<^sub>0<..<ticks (rt s)} (now_at (rt s) n\<^sub>0 + ra_ttl (auth s)) i sc"
  shows "rbac_ok kc (store key sc i s)" and "rbac_frame s (store key sc i s)"
proof -
  obtain s1 s2 where s1: "rbac_ok kc s1" "rbac_frame s s1"
      "0 < ra_maxCache (auth s) \<Longrightarrow> int (length (scopes s1)) < ra_maxCache (auth s)"
    and n: "now s1 = (now_at (rt s1) (ticks (rt s1)), s2)"
    and st: "store key sc i s = set_scopes (AList.update key \<lparr>cs_scope = sc,
        cs_expires = now_at (rt s1) (ticks (rt s1)) + ra_ttl (auth s2), cs_id = i\<rparr> (scopes s2)) s2"
    by (rule store_stages [OF ok, of key sc i]) blast
  define m where "m = ticks (rt s1)"
  note c2 = consults_now [OF n]
  have f2: "rbac_frame s s2" using s1 c2 rbac_frame_trans consults_frame by blast
  let ?c = "\<lparr>cs_scope = sc, cs_expires = now_at (rt s1) m + ra_ttl (auth s2), cs_id = i\<rparr>"
  show frame: "rbac_frame s (store key sc i s)"
    unfolding st by (rule rbac_frame_trans [OF f2 frame_set_scopes])
  have le: "ticks (rt s) \<le> m" using s1 by (simp add: m_def rbac_frame_def)
  have "confirmed kc {n\<^sub>0<..<m} (now_at (rt s) n\<^sub>0 + ra_ttl (auth s)) i sc"
    by (rule confirmed_mono [OF conf]) (use le in auto)
  then have entry: "entry_ok kc (store key sc i s) key ?c"
    using c2 f2 s1 n\<^sub>0 le unfolding st entry_ok_def
    by (intro conjI exI [of _ n\<^sub>0] exI [of _ m])
      (auto simp: key rbac_frame_def consults_def m_def)
  have ok2: "rbac_ok kc s2" using rbac_ok_consults c2 s1 by blast
  then show "rbac_ok kc (store key sc i s)"
    using entry entry_ok_frame [OF frame_set_scopes, of kc s2] s1 c2 f2
    by (auto simp: rbac_ok_def st gomap_simps gomap_wf length_update consults_def rbac_frame_def m_def)
qed

text \<open>Storing writes one entry, whose TTL runs from the last consultation, and may drop others.\<close>

lemma store_entries:
  assumes ok: "rbac_ok kc s"
  obtains m where "ticks (rt (store key sc i s)) = Suc m" and "ticks (rt s) \<le> m"
    and "\<And>k c. map_of (scopes (store key sc i s)) k = Some c \<Longrightarrow> map_of (scopes s) k = Some c
      \<or> k = key \<and> c = \<lparr>cs_scope = sc, cs_expires = now_at (rt s) m + ra_ttl (auth s), cs_id = i\<rparr>"
proof -
  obtain s1 s2 where s1: "rbac_frame s s1" "\<And>k c. map_of (scopes s1) k = Some c \<Longrightarrow> map_of (scopes s) k = Some c"
    and n: "now s1 = (now_at (rt s1) (ticks (rt s1)), s2)"
    and st: "store key sc i s = set_scopes (AList.update key \<lparr>cs_scope = sc,
        cs_expires = now_at (rt s1) (ticks (rt s1)) + ra_ttl (auth s2), cs_id = i\<rparr> (scopes s2)) s2"
    by (rule store_stages [OF ok, of key sc i]) blast
  have s2: "scopes s2 = scopes s1" "ra_ttl (auth s2) = ra_ttl (auth s)" "now_at (rt s1) = now_at (rt s)"
      "ticks (rt s2) = Suc (ticks (rt s1))" "ticks (rt s) \<le> ticks (rt s1)"
    using consults_now [OF n] s1(1) by (auto simp: consults_def rbac_frame_def)
  show ?thesis
    by (rule that [of "ticks (rt s1)"]) (use s1(2) in \<open>auto simp: st s2 gomap_simps split: if_splits\<close>)
qed

text \<open>The frame does not depend on the invariant.\<close>

lemma evictExpired_frame: "rbac_frame s (evictExpired s)"
proof -
  obtain t s1 where n: "now s = (t, s1)" by fastforce
  show ?thesis
    unfolding evictExpired_def n Let_def prod.case
    by (rule rbac_frame_trans [OF consults_frame frame_set_scopes]) (use consults_now [OF n] in blast)
qed

lemma store_frame: "rbac_frame s (store key sc i s)"
proof -
  define s1 where "s1 = (if ra_maxCache (auth s) \<le> int (length (scopes s)) then
      let s = evictExpired s; (ks, s) = range_map (scopes s) s
      in set_scopes (drop_arbitrary (ra_maxCache (auth s)) ks (scopes s)) s else s)"
  obtain ks s2 where r: "range_map (scopes (evictExpired s)) (evictExpired s) = (ks, s2)" by fastforce
  have "rbac_frame s s2"
    by (rule rbac_frame_trans [OF evictExpired_frame consults_frame [OF consults_range [OF r]]])
  then have s1: "rbac_frame s s1"
    using rbac_frame_trans [OF _ frame_set_scopes, of s s2] r by (auto simp: s1_def)
  obtain t s3 where n: "now s1 = (t, s3)" by fastforce
  have "rbac_frame s s3" using s1 consults_now [OF n] rbac_frame_trans consults_frame by blast
  then show ?thesis
    using n rbac_frame_trans [OF _ frame_set_scopes, of s s3]
    by (simp add: store_def s1_def [symmetric] Let_def)
qed

end
