(* ===== verification/Rbac_Watch_Laws.thy ===== *)
theory Rbac_Watch_Laws
  imports Rbac_Watch Rbac_Laws
begin

text \<open>
  What eviction does to the cache, exactly; that it keeps the cache's invariant; and that the
  trimming of watched objects loses nothing the handlers read.
\<close>

section \<open>Eviction\<close>

definition evicts_exactly ::
  "(cachedScope \<Rightarrow> bool) \<Rightarrow> string \<Rightarrow> 'b rbac_state \<Rightarrow> 'b rbac_state \<Rightarrow> bool" where
  "evicts_exactly matched resource s s' \<longleftrightarrow> rbac_frame s s'
     \<and> (\<forall>k. map_of (scopes s') k = (case map_of (scopes s) k of None \<Rightarrow> None
           | Some c \<Rightarrow> if matched c then None else Some c))
     \<and> vec_value (RBACCacheInvalidationsTotal (met s')) [resource] + length (scopes s')
         = vec_value (RBACCacheInvalidationsTotal (met s)) [resource] + length (scopes s)
     \<and> wf_map (scopes s')"

lemma count_invalidation_simps [simp]:
  "scopes (count_invalidation r s) = scopes s" "rt (count_invalidation r s) = rt s"
  "auth (count_invalidation r s) = auth s"
  "rbac_frame s (count_invalidation r s')  \<longleftrightarrow> rbac_frame s s'"
  "RBACCacheInvalidationsTotal (met (count_invalidation r s))
     = vec_inc [r] (RBACCacheInvalidationsTotal (met s))"
  by (simp_all add: count_invalidation_def rbac_frame_def)

lemma evict_matching_spec:
  assumes "wf_map (scopes s)"
  shows "rbac_frame s (evict_matching matched r ks s) \<and> wf_map (scopes (evict_matching matched r ks s))
    \<and> (\<forall>k. map_of (scopes (evict_matching matched r ks s)) k = (case map_of (scopes s) k of None \<Rightarrow> None
          | Some c \<Rightarrow> if k \<in> set ks \<and> matched c then None else Some c))
    \<and> vec_value (RBACCacheInvalidationsTotal (met (evict_matching matched r ks s))) [r]
        + length (scopes (evict_matching matched r ks s))
      = vec_value (RBACCacheInvalidationsTotal (met s)) [r] + length (scopes s)"
  using assms
proof (induction matched r ks s rule: evict_matching.induct)
  case (1 matched r s)
  then show ?case by (simp split: option.split)
next
  case (2 matched r k ks s)
  show ?case
  proof (cases "map_of (scopes s) k")
    case None
    with "2.IH"(1) "2.prems" show ?thesis by (auto split: option.split)
  next
    case (Some c)
    show ?thesis
    proof (cases "matched c")
      case False
      with Some "2.IH"(3) "2.prems" show ?thesis by (auto split: option.split)
    next
      case True
      let ?s1 = "count_invalidation r (set_scopes (AList.delete k (scopes s)) s)"
      have k: "k \<in> fst ` set (scopes s)"
        using Some by (metis map_of_eq_None_iff option.distinct(1))
      have wf1: "wf_map (scopes ?s1)" using "2.prems" by (simp add: gomap_wf)
      note ih = "2.IH"(2) [OF Some True wf1]
      have len: "Suc (length (AList.delete k (scopes s))) = length (scopes s)"
        by (rule length_delete_in [OF "2.prems" k])
      have f: "rbac_frame s ?s1" by simp
      have "\<forall>x. map_of (scopes (evict_matching matched r ks ?s1)) x = (case map_of (scopes s) x of None \<Rightarrow> None
          | Some c \<Rightarrow> if x \<in> set (k # ks) \<and> matched c then None else Some c)"
        using ih Some True by (auto simp: gomap_simps split: option.split)
      with ih Some True len rbac_frame_trans [OF f] show ?thesis
        by (simp add: vec_value_inc)
    qed
  qed
qed

lemma evict_all_spec:
  assumes "wf_map (scopes s)" and r: "range_map (scopes s) s = (ks, s1)"
  shows "evicts_exactly matched res s (evict_matching matched res ks s1)"
proof -
  have c: "consults s s1" by (rule consults_range [OF r])
  have same: "scopes s1 = scopes s" "met s1 = met s"
    using r by (auto simp: range_map_eq)
  have wf1: "wf_map (scopes s1)" using assms(1) same by simp
  have keys: "map_of (scopes s) k = Some x \<Longrightarrow> k \<in> set ks" for k x
    using range_map_set [OF r] by (metis map_of_eq_None_iff option.distinct(1))
  from evict_matching_spec [OF wf1, of matched res ks] keys same
    rbac_frame_trans [OF consults_frame [OF c]] show ?thesis
    unfolding evicts_exactly_def by (auto split: option.split)
qed

lemma evicts_exactly_ok:
  assumes ok: "rbac_ok kc s" and ev: "evicts_exactly matched res s s'"
  shows "rbac_ok kc s'"
proof -
  have le: "length (scopes s') \<le> length (scopes s)"
  proof -
    have "set (map fst (scopes s')) \<subseteq> set (map fst (scopes s))"
    proof
      fix k
      assume "k \<in> set (map fst (scopes s'))"
      then have "map_of (scopes s') k \<noteq> None" by (simp add: map_of_eq_None_iff)
      with ev have "map_of (scopes s) k \<noteq> None" by (auto simp: evicts_exactly_def split: option.splits)
      then show "k \<in> set (map fst (scopes s))" by (simp add: map_of_eq_None_iff)
    qed
    moreover have "distinct (map fst (scopes s'))" "distinct (map fst (scopes s))"
      using ok ev by (simp_all add: rbac_ok_def evicts_exactly_def wf_map_def)
    ultimately show ?thesis
      by (metis card_mono distinct_card finite_set length_map)
  qed
  have f: "rbac_frame s s'" using ev by (simp add: evicts_exactly_def)
  have "entry_ok kc s' k c" if "map_of (scopes s') k = Some c" for k c
  proof -
    from that ev have "map_of (scopes s) k = Some c"
      by (auto simp: evicts_exactly_def split: option.splits if_splits)
    with ok have "entry_ok kc s k c" by (simp add: rbac_ok_def)
    with f show ?thesis by (rule entry_ok_frame)
  qed
  with ok ev le f show ?thesis by (auto simp: rbac_ok_def evicts_exactly_def rbac_frame_def)
qed

text \<open>Who is affected by a change of some subjects.\<close>

definition affected :: "subject list \<Rightarrow> identity \<Rightarrow> bool" where
  "affected subjects i \<longleftrightarrow>
     (\<exists>x \<in> set subjects. su_kind x = rbacKindUser \<and> su_name x = firstNonEmpty (id_user i) (id_email i)
        \<or> su_kind x = rbacKindGroup \<and> su_name x \<in> set (id_groups i))"

lemma get_bool_subject_names:
  "get_bool (subject_names kind subjects) n \<longleftrightarrow> (\<exists>x \<in> set subjects. su_kind x = kind \<and> su_name x = n)"
  by (auto simp: subject_names_def gomap_simps)

lemma subject_matched_affected:
  "subject_matched (subject_names rbacKindUser subjects) (subject_names rbacKindGroup subjects) c
     \<longleftrightarrow> affected subjects (cs_id c)"
  by (auto simp: subject_matched_def affected_def get_bool_subject_names list_ex_iff)

lemma subject_names_Nil: "subject_names kind subjects = [] \<longleftrightarrow> (\<forall>x \<in> set subjects. su_kind x \<noteq> kind)"
proof -
  have upd: "set_true k m \<noteq> []" for k and m :: "bool gomap"
    by (cases m) (auto simp: set_true_def)
  have "fold set_true ks m \<noteq> []" if "m \<noteq> []" for ks and m :: "bool gomap"
    using that upd by (induction ks arbitrary: m) auto
  then have "fold set_true ks [] = [] \<longleftrightarrow> ks = []" for ks
    using upd by (cases ks) auto
  then show ?thesis
    by (simp add: subject_names_def set_all_true_def filter_empty_conv)
qed

lemma invalidateSubjects_spec:
  assumes ok: "rbac_ok kc s"
  shows "evicts_exactly (\<lambda>c. affected subjects (cs_id c)) res s (invalidateSubjects subjects res s)"
proof (cases "subject_names rbacKindUser subjects = [] \<and> subject_names rbacKindGroup subjects = []")
  case True
  then have none: "\<not> affected subjects i" for i
    by (auto simp: subject_names_Nil affected_def)
  from True ok show ?thesis
    by (auto simp: invalidateSubjects_def evicts_exactly_def none rbac_ok_def split: option.split)
next
  case False
  obtain ks s1 where r: "range_map (scopes s) s = (ks, s1)" by fastforce
  have "subject_matched (subject_names rbacKindUser subjects) (subject_names rbacKindGroup subjects)
      = (\<lambda>c. affected subjects (cs_id c))"
    by (simp add: fun_eq_iff subject_matched_affected)
  with False r evict_all_spec [OF _ r] ok show ?thesis
    by (auto simp: invalidateSubjects_def rbac_ok_def Let_def)
qed

lemma invalidateNamespace_spec:
  assumes ok: "rbac_ok kc s"
  shows "evicts_exactly (\<lambda>c. \<not> sc_all (cs_scope c) \<and> in_scope (cs_scope c) ns) ResourceNamespace s
    (invalidateNamespace ns s)"
proof -
  obtain ks s1 where r: "range_map (scopes s) s = (ks, s1)" by fastforce
  with evict_all_spec [OF _ r] ok show ?thesis by (simp add: invalidateNamespace_def rbac_ok_def)
qed


section \<open>Handlers\<close>

lemma affected_append: "affected (xs @ ys) i \<longleftrightarrow> affected xs i \<or> affected ys i"
  by (auto simp: affected_def)

lemma affected_bound:
  "affected (bound_subjects kind name bs) i \<longleftrightarrow>
     (\<exists>b \<in> set bs. rr_kind (bo_role_ref b) = kind \<and> rr_name (bo_role_ref b) = name
        \<and> affected (bo_subjects b) i)"
  by (auto simp: affected_def bound_subjects_def)

text \<open>Every handler evicts by some test, or does nothing; so the invariant is kept throughout.\<close>

definition evicts :: "'b rbac_state \<Rightarrow> 'b rbac_state \<Rightarrow> bool" where
  "evicts s s' \<longleftrightarrow> (\<exists>matched res. evicts_exactly matched res s s')"

lemma handle_evicts:
  assumes ok: "rbac_ok kc s"
  shows "evicts s (handle ls w n s)"
proof -
  have unchanged: "evicts s s"
    using ok unfolding evicts_def by (intro exI [of _ "\<lambda>_. False"])
      (auto simp: evicts_exactly_def rbac_ok_def split: option.split)
  have subjects: "evicts s (invalidateSubjects xs r s)" for xs r
    using invalidateSubjects_spec [OF ok] unfolding evicts_def by blast
  have ns: "evicts s (invalidateNamespace n s)" for n
    using invalidateNamespace_spec [OF ok] unfolding evicts_def by blast
  have role: "evicts s (onRoleChanged ls ns name s)" for ns name
    by (cases "role_bindings_in ls ns") (simp_all add: onRoleChanged_def unchanged subjects)
  have cluster_role: "evicts s (onClusterRoleChanged ls name s)" for name
    by (cases "role_bindings ls"; cases "cluster_role_bindings ls")
      (simp_all add: onClusterRoleChanged_def unchanged subjects)
  show ?thesis
    by (cases "(ls, w, n, s)" rule: handle.cases)
      (simp_all add: unchanged subjects ns role cluster_role split: obj.split)
qed

lemma evicts_exactly_Some:
  assumes "evicts_exactly matched res s s'" and "map_of (scopes s') k = Some c"
  shows "map_of (scopes s) k = Some c" and "\<not> matched c"
proof -
  have "map_of (scopes s') k = (case map_of (scopes s) k of None \<Rightarrow> None
      | Some c \<Rightarrow> if matched c then None else Some c)"
    using assms(1) by (simp add: evicts_exactly_def)
  with assms(2) show "map_of (scopes s) k = Some c" and "\<not> matched c"
    by (auto split: option.splits if_splits)
qed

lemma handle_ok: "rbac_ok kc s \<Longrightarrow> rbac_ok kc (handle ls w n s)"
  using handle_evicts evicts_exactly_ok unfolding evicts_def by metis

lemma handle_frame: "rbac_ok kc s \<Longrightarrow> rbac_frame s (handle ls w n s)"
  using handle_evicts [of kc s ls w n] by (auto simp: evicts_def evicts_exactly_def)

lemma deliver_ok: "rbac_ok kc s \<Longrightarrow> rbac_ok kc (deliver ns s)"
  unfolding deliver_def by (induction ns arbitrary: s) (auto simp: handle_ok)

lemma deliver_frame: "rbac_ok kc s \<Longrightarrow> rbac_frame s (deliver ns s)"
proof (induction ns arbitrary: s)
  case (Cons x ns)
  obtain ls w n where x: "x = (ls, w, n)" by (metis prod_cases3)
  have "deliver (x # ns) s = deliver ns (handle ls w n s)" by (simp add: deliver_def x)
  with Cons.IH [OF handle_ok [OF Cons.prems]] handle_frame [OF Cons.prems] rbac_frame_trans
  show ?case by metis
qed (simp add: deliver_def)

lemma deliver_shrinks:
  "rbac_ok kc s \<Longrightarrow> map_of (scopes (deliver ns s)) k = Some c \<Longrightarrow> map_of (scopes s) k = Some c"
proof (induction ns arbitrary: s)
  case (Cons x ns)
  obtain ls w n where x: "x = (ls, w, n)" by (metis prod_cases3)
  have "deliver (x # ns) s = deliver ns (handle ls w n s)" by (simp add: deliver_def x)
  with Cons.IH [OF handle_ok [OF Cons.prems(1)]] Cons.prems(2)
  have "map_of (scopes (handle ls w n s)) k = Some c" by simp
  with handle_evicts [OF Cons.prems(1), of ls w n] evicts_exactly_Some(1) show ?case
    unfolding evicts_def by blast
qed (simp add: deliver_def)

section \<open>Trimming\<close>

definition trimmed_obj :: "obj \<Rightarrow> obj" where
  "trimmed_obj x = projr (trimForWatchCache x)"

definition trimmed_binding :: "binding_obj \<Rightarrow> binding_obj" where
  "trimmed_binding b = b\<lparr>bo_meta := trimMeta (bo_meta b)\<rparr>"

definition trimmed_listers :: "listers \<Rightarrow> listers" where
  "trimmed_listers ls = \<lparr>
     role_bindings_in = (\<lambda>ns. map_sum id (map trimmed_binding) (role_bindings_in ls ns)),
     role_bindings = map_sum id (map trimmed_binding) (role_bindings ls),
     cluster_role_bindings = map_sum id (map trimmed_binding) (cluster_role_bindings ls)\<rparr>"

fun trimmed_notice :: "notice \<Rightarrow> notice" where
  "trimmed_notice (Added x) = Added (trimmed_obj x)"
| "trimmed_notice (Updated x y) = Updated (trimmed_obj x) (trimmed_obj y)"
| "trimmed_notice (Deleted x) = Deleted (trimmed_obj x)"

lemma trimmed_obj_simps [simp]:
  "trimmed_obj (O_Namespace n) = O_Namespace (n\<lparr>no_meta := trimMeta (no_meta n), no_spec := [], no_status := []\<rparr>)"
  "trimmed_obj (O_Role r) = O_Role (r\<lparr>ro_meta := trimMeta (ro_meta r), ro_rules := None\<rparr>)"
  "trimmed_obj (O_ClusterRole c) = O_ClusterRole
     (c\<lparr>cro_meta := trimMeta (cro_meta c), cro_rules := None, cro_aggregation := None\<rparr>)"
  "trimmed_obj (O_RoleBinding b) = O_RoleBinding (trimmed_binding b)"
  "trimmed_obj (O_ClusterRoleBinding b) = O_ClusterRoleBinding (trimmed_binding b)"
  "trimmed_obj (O_DeletedFinalStateUnknown t) = O_DeletedFinalStateUnknown t"
  "trimmed_obj (O_Other u) = O_Other u"
  by (simp_all add: trimmed_obj_def trimForWatchCache_def trimmed_binding_def)

lemma bound_subjects_trimmed: "bound_subjects k n (map trimmed_binding bs) = bound_subjects k n bs"
  by (induction bs) (auto simp: bound_subjects_def trimmed_binding_def)

lemma onRoleChanged_trimmed: "onRoleChanged (trimmed_listers ls) ns n s = onRoleChanged ls ns n s"
  by (simp add: onRoleChanged_def trimmed_listers_def bound_subjects_trimmed split: sum.split)

lemma onClusterRoleChanged_trimmed:
  "onClusterRoleChanged (trimmed_listers ls) n s = onClusterRoleChanged ls n s"
  by (simp add: onClusterRoleChanged_def trimmed_listers_def bound_subjects_trimmed split: sum.split)

lemmas trimmed_changes = onRoleChanged_trimmed onClusterRoleChanged_trimmed

text \<open>What the handlers read of an object survives.\<close>

lemma trimMeta_fields [simp]: "om_name (trimMeta m) = om_name m" "om_namespace (trimMeta m) = om_namespace m"
  by (simp_all add: trimMeta_def)

lemma trimmed_binding_subjects [simp]: "bo_subjects (trimmed_binding b) = bo_subjects b"
  by (simp add: trimmed_binding_def)

lemma case_trimmed:
  "case_obj f1 f2 f3 f4 f5 f6 f7 (trimmed_obj x) = case_obj
     (\<lambda>n. f1 (n\<lparr>no_meta := trimMeta (no_meta n), no_spec := [], no_status := []\<rparr>))
     (\<lambda>r. f2 (r\<lparr>ro_meta := trimMeta (ro_meta r), ro_rules := None\<rparr>))
     (\<lambda>c. f3 (c\<lparr>cro_meta := trimMeta (cro_meta c), cro_rules := None, cro_aggregation := None\<rparr>))
     (\<lambda>b. f4 (trimmed_binding b)) (\<lambda>b. f5 (trimmed_binding b)) f6 f7 x"
  by (cases x) simp_all

end
