(* ===== verification/Rbac_Calls.thy ===== *)
theory Rbac_Calls
  imports Rbac_Laws
begin

text \<open>
  A whole call of \<^verbatim>\<open>AllowedNamespaces\<close> (\<^verbatim>\<open>internal/authz/rbac/rbac.go\<close>): what it is answered from,
  which call a cached entry goes back to, and the \<open>authorizer\<close> contract.
\<close>

section \<open>The cases of a call\<close>

lemma RbacAllowed_cases:
  assumes run: "RbacAllowed kc i s = (res, s')"
  obtains (hit) c k where "map_of (scopes s) (cacheKey i) = Some c" and "res = Inr (cs_scope c)"
      and "now_at (rt s) k < cs_expires c" and "ticks (rt s) \<le> k" and "k < ticks (rt s')"
      and "consults s s'"
  | (failed) e where "res = Inl e" and "consults s s'"
  | (fresh) sc n\<^sub>0 s1 where "res = Inr sc" and "s' = store (cacheKey i) sc i s1" and "consults s s1"
      and "ticks (rt s) \<le> n\<^sub>0" and "n\<^sub>0 < ticks (rt s1)"
      and "confirmed kc {n\<^sub>0<..<ticks (rt s1)} (now_at (rt s) n\<^sub>0 + ra_ttl (auth s)) i sc"
proof -
  obtain found s1 where h: "cached (cacheKey i) s = (found, s1)" by fastforce
  note h_spec = cached_spec [OF h]
  then have c1: "consults s s1" by blast
  let ?s1 = "count_lookup ''miss'' s1"
  obtain again s2 where a: "cached (cacheKey i) ?s1 = (again, s2)" by fastforce
  have cm: "consults s ?s1" by (rule consults_trans [OF c1 consults_lookup])
  note a_spec = cached_spec [OF a]
  have c2: "consults s s2" using consults_trans [OF cm] a_spec by blast
  show ?thesis
  proof (cases found)
    case (Some sc)
    with h_spec obtain c where c: "map_of (scopes s) (cacheKey i) = Some c" "sc = cs_scope c"
        "now_at (rt s) (ticks (rt s)) < cs_expires c" "ticks (rt s1) = Suc (ticks (rt s))"
      by auto
    from run h Some have r: "res = Inr sc" "s' = count_lookup ''hit'' s1"
      by (simp_all add: RbacAllowed_def)
    have "consults s s'" unfolding r(2) by (rule consults_trans [OF c1 consults_lookup])
    with c r show ?thesis by (intro hit [OF c(1) _ c(3)]) (simp_all add: count_lookup_def)
  next
    case miss: None
    show ?thesis
    proof (cases again)
      case (Some sc)
      have same: "scopes ?s1 = scopes s" "now_at (rt ?s1) = now_at (rt s)" "ticks (rt s) \<le> ticks (rt ?s1)"
        using cm by (simp_all add: consults_def rbac_frame_def)
      with Some a_spec obtain c where c: "map_of (scopes s) (cacheKey i) = Some c" "sc = cs_scope c"
          "now_at (rt s) (ticks (rt ?s1)) < cs_expires c" "ticks (rt s2) = Suc (ticks (rt ?s1))"
        by auto
      from run h miss a Some have r: "res = Inr sc" "s' = s2" by (simp_all add: RbacAllowed_def)
      from c r same(3) c2 show ?thesis by (intro hit [OF c(1) _ c(3)]) simp_all
    next
      case None
      define n\<^sub>0 where "n\<^sub>0 = ticks (rt s2)"
      obtain s3 where n: "now s2 = (now_at (rt s2) n\<^sub>0, s3)" by (simp add: now_eq n\<^sub>0_def)
      note n_spec = consults_now [OF n]
      obtain res' s4 where r: "resolve kc (now_at (rt s2) n\<^sub>0 + ra_ttl (auth s3)) i s3 = (res', s4)"
        by fastforce
      note r_spec = resolve_spec [OF r]
      have c4: "consults s s4" using c2 n_spec r_spec consults_trans by blast
      show ?thesis
      proof (cases res')
        case (Inl e)
        with run h miss a None n r have "res = Inl e" "s' = s4" by (simp_all add: RbacAllowed_def)
        with c4 show ?thesis by (intro failed) simp_all
      next
        case (Inr sc)
        with run h miss a None n r have res: "res = Inr sc" "s' = store (cacheKey i) sc i s4"
          by (simp_all add: RbacAllowed_def)
        have eqs: "now_at (rt s2) = now_at (rt s)" "ra_ttl (auth s3) = ra_ttl (auth s)"
            "ticks (rt s) \<le> n\<^sub>0" "n\<^sub>0 < ticks (rt s3)" "ticks (rt s3) \<le> ticks (rt s4)"
          using c2 n_spec r_spec by (auto simp: consults_def rbac_frame_def n\<^sub>0_def)
        have "confirmed kc {n\<^sub>0<..<ticks (rt s4)} (now_at (rt s) n\<^sub>0 + ra_ttl (auth s)) i sc"
          using r_spec Inr eqs by (auto intro: confirmed_mono)
        with eqs show ?thesis by (intro fresh [OF res c4]) simp_all
      qed
    qed
  qed
qed

section \<open>The collectors play no part\<close>

lemma blind_steps:
  "now s = (t, s') \<Longrightarrow> now (s\<lparr>met := m\<rparr>) = (t, s'\<lparr>met := m\<rparr>)"
  "range_map xs s = (ks, s') \<Longrightarrow> range_map xs (s\<lparr>met := m\<rparr>) = (ks, s'\<lparr>met := m\<rparr>)"
  "set_scopes c (s\<lparr>met := m\<rparr>) = (set_scopes c s)\<lparr>met := m\<rparr>"
  "cached key s = (hit, s') \<Longrightarrow> cached key (s\<lparr>met := m\<rparr>) = (hit, s'\<lparr>met := m\<rparr>)"
  by (auto simp: now_eq range_map_eq set_scopes_def cached_def split: option.splits if_splits)

lemma blind_evict: "evictExpired (s\<lparr>met := m\<rparr>) = (evictExpired s)\<lparr>met := m\<rparr>"
  by (simp add: evictExpired_def now_eq set_scopes_def)

lemma blind_store: "store key sc i (s\<lparr>met := m\<rparr>) = (store key sc i s)\<lparr>met := m\<rparr>"
  by (simp add: store_def blind_evict now_eq range_map_eq set_scopes_def Let_def)

lemma blind_review:
  "canListPods kc d i ns s = (res, s') \<Longrightarrow> \<exists>m'. canListPods kc d i ns (s\<lparr>met := m\<rparr>) = (res, s'\<lparr>met := m'\<rparr>)"
  by (rule exI [of _ "m\<lparr>SubjectAccessReviewsTotal := Suc (SubjectAccessReviewsTotal m)\<rparr>"])
    (auto simp: canListPods_def now_eq observe_def Let_def)

lemma blind_reviews:
  "review_each kc d i nss err allowed s = (e, a, s') \<Longrightarrow>
    \<exists>m'. review_each kc d i nss err allowed (s\<lparr>met := m\<rparr>) = (e, a, s'\<lparr>met := m'\<rparr>)"
proof (induction nss arbitrary: err allowed s m)
  case (Cons ns nss)
  obtain res s1 where c: "canListPods kc d i ns s = (res, s1)" by fastforce
  from blind_review [OF this] obtain m1 where "canListPods kc d i ns (s\<lparr>met := m\<rparr>) = (res, s1\<lparr>met := m1\<rparr>)" ..
  with Cons.prems c Cons.IH show ?case by (cases res) simp_all
qed auto

lemma blind_resolve:
  assumes run: "resolve kc d i s = (res, s')"
  shows "\<exists>m'. resolve kc d i (s\<lparr>met := m\<rparr>) = (res, s'\<lparr>met := m'\<rparr>)"
proof -
  obtain r1 s1 where c: "canListPods kc d i [] s = (r1, s1)" by fastforce
  from blind_review [OF this] obtain m1 where c': "canListPods kc d i [] (s\<lparr>met := m\<rparr>) = (r1, s1\<lparr>met := m1\<rparr>)" ..
  obtain t s2 where n: "now s1 = (t, s2)" by fastforce
  note n' = blind_steps(1) [OF n, of m1]
  show ?thesis
  proof (cases "r1 = Inr False")
    case False
    with run c c' show ?thesis by (cases r1) (auto simp: resolve_def)
  next
    case True
    show ?thesis
    proof (cases "list_namespaces kc (ticks (rt s1)) d")
      case (Inl e)
      with run c c' n n' True show ?thesis by (auto simp: resolve_def)
    next
      case (Inr names)
      obtain order s3 where o: "range_map (map (\<lambda>name. (name, ())) names) s2 = (order, s3)" by fastforce
      note o' = blind_steps(2) [OF o, of m1]
      obtain err allowed s4 where r: "review_each kc d i order None [] s3 = (err, allowed, s4)"
        by (metis prod_cases3)
      from blind_reviews [OF r, of m1] obtain m2 where
        "review_each kc d i order None [] (s3\<lparr>met := m1\<rparr>) = (err, allowed, s4\<lparr>met := m2\<rparr>)" ..
      with run c c' n n' True Inr o o' r show ?thesis by (cases err) (auto simp: resolve_def)
    qed
  qed
qed

text \<open>What a call does never depends on the collectors.\<close>

lemma RbacAllowed_blind:
  assumes run: "RbacAllowed kc i s = (res, s')"
  shows "\<exists>m'. RbacAllowed kc i (s\<lparr>met := m\<rparr>) = (res, s'\<lparr>met := m'\<rparr>)"
proof -
  let ?k = "cacheKey i"
  have look: "\<exists>m'. count_lookup r (x\<lparr>met := m\<rparr>) = (count_lookup r x)\<lparr>met := m'\<rparr>"
    for r m and x :: "'a rbac_state"
    by (rule exI [of _ "m\<lparr>ScopeCacheTotal := vec_inc [r] (ScopeCacheTotal m)\<rparr>"])
      (simp add: count_lookup_def observe_def)
  obtain hit s1 where h: "cached ?k s = (hit, s1)" by fastforce
  note h' = blind_steps(4) [OF h, of m]
  show ?thesis
  proof (cases hit)
    case (Some sc)
    with run h h' look [of "''hit''" m s1] show ?thesis by (auto simp: RbacAllowed_def)
  next
    case miss: None
    from look [of "''miss''" m s1] obtain m1 where
      l: "count_lookup ''miss'' (s1\<lparr>met := m\<rparr>) = (count_lookup ''miss'' s1)\<lparr>met := m1\<rparr>" by blast
    obtain again s2 where a: "cached ?k (count_lookup ''miss'' s1) = (again, s2)" by fastforce
    note a' = blind_steps(4) [OF a, of m1]
    show ?thesis
    proof (cases again)
      case (Some sc)
      with run h h' miss l a a' show ?thesis by (auto simp: RbacAllowed_def)
    next
      case None
      obtain t s3 where n: "now s2 = (t, s3)" by fastforce
      note n' = blind_steps(1) [OF n, of m1]
      obtain res' s4 where r: "resolve kc (t + ra_ttl (auth s3)) i s3 = (res', s4)" by fastforce
      from blind_resolve [OF r, of m1] obtain m2 where
        "resolve kc (t + ra_ttl (auth s3)) i (s3\<lparr>met := m1\<rparr>) = (res', s4\<lparr>met := m2\<rparr>)" ..
      with run h h' miss l a a' None n n' r show ?thesis
        by (cases res') (auto simp: RbacAllowed_def blind_store)
    qed
  qed
qed

section \<open>Which call an entry goes back to\<close>

text \<open>
  \<open>resolves kc i sc s m\<close>: a call of \<open>i\<close> at \<open>s\<close> has the result \<open>sc\<close> from reviews of its own, and
  \<open>m\<close>, its last consultation of the environment, is the one that set the expiry of its entry.
\<close>

definition resolves :: "kube \<Rightarrow> identity \<Rightarrow> scope \<Rightarrow> 'b rbac_state \<Rightarrow> nat \<Rightarrow> bool" where
  "resolves kc i sc s m \<longleftrightarrow>
     (\<exists>s' n\<^sub>0. RbacAllowed kc i s = (Inr sc, s') \<and> ticks (rt s') = Suc m
        \<and> ticks (rt s) \<le> n\<^sub>0 \<and> n\<^sub>0 < m
        \<and> confirmed kc {n\<^sub>0<..<m} (now_at (rt s) n\<^sub>0 + ra_ttl (auth s)) i sc)"

lemma resolves_observe [simp]: "resolves kc i sc (observe f s) m \<longleftrightarrow> resolves kc i sc s m"
proof -
  have "resolves kc i sc (s\<lparr>met := x\<rparr>) m" if "resolves kc i sc s m"
    for x and s :: "'a rbac_state"
  proof -
    from that obtain s' n\<^sub>0 where r: "RbacAllowed kc i s = (Inr sc, s')" "ticks (rt s') = Suc m"
      and n: "ticks (rt s) \<le> n\<^sub>0" "n\<^sub>0 < m"
        "confirmed kc {n\<^sub>0<..<m} (now_at (rt s) n\<^sub>0 + ra_ttl (auth s)) i sc"
      unfolding resolves_def by blast
    from RbacAllowed_blind [OF r(1), of x] obtain y where
      "RbacAllowed kc i (s\<lparr>met := x\<rparr>) = (Inr sc, s'\<lparr>met := y\<rparr>)" ..
    with r(2) n show ?thesis unfolding resolves_def
      by (intro exI [of _ "s'\<lparr>met := y\<rparr>"] exI [of _ n\<^sub>0]) simp
  qed
  from this [of s "f (met s)"] this [of "observe f s" "met s"] show ?thesis by (auto simp: observe_def)
qed

lemma fresh_resolves:
  assumes ok: "rbac_ok kc s" and run: "RbacAllowed kc i s = (Inr sc, s')"
    and st: "s' = store (cacheKey i) sc i s1" and s1: "consults s s1"
    and n\<^sub>0: "ticks (rt s) \<le> n\<^sub>0" "n\<^sub>0 < ticks (rt s1)"
    and conf: "confirmed kc {n\<^sub>0<..<ticks (rt s1)} (now_at (rt s) n\<^sub>0 + ra_ttl (auth s)) i sc"
  obtains m where "resolves kc i sc s m" and "m < ticks (rt s')"
    and "\<And>k c. map_of (scopes s') k = Some c \<Longrightarrow> map_of (scopes s) k = Some c
      \<or> k = cacheKey i \<and> c = \<lparr>cs_scope = sc, cs_expires = now_at (rt s) m + ra_ttl (auth s), cs_id = i\<rparr>"
proof (rule store_entries [OF rbac_ok_consults [OF s1 ok], of "cacheKey i" sc i])
  fix m
  assume m: "ticks (rt (store (cacheKey i) sc i s1)) = Suc m" "ticks (rt s1) \<le> m"
    and entries: "\<And>k c. map_of (scopes (store (cacheKey i) sc i s1)) k = Some c \<Longrightarrow>
      map_of (scopes s1) k = Some c \<or> k = cacheKey i
        \<and> c = \<lparr>cs_scope = sc, cs_expires = now_at (rt s1) m + ra_ttl (auth s1), cs_id = i\<rparr>"
  have "confirmed kc {n\<^sub>0<..<m} (now_at (rt s) n\<^sub>0 + ra_ttl (auth s)) i sc"
    by (rule confirmed_mono [OF conf]) (use m(2) in auto)
  then have "resolves kc i sc s m"
    unfolding resolves_def using run m n\<^sub>0 by (intro exI [of _ s'] exI [of _ n\<^sub>0]) (simp add: st)
  moreover have "scopes s1 = scopes s" "now_at (rt s1) = now_at (rt s)" "ra_ttl (auth s1) = ra_ttl (auth s)"
    using s1 by (simp_all add: consults_def rbac_frame_def)
  ultimately show thesis using that m(1) entries by (simp add: st)
qed

text \<open>
  A scope is served either from reviews of this very call, or from an entry that had not expired
  when it was read at \<open>k\<close>.
\<close>

definition served_from ::
  "kube \<Rightarrow> identity \<Rightarrow> scope \<Rightarrow> 'b rbac_state \<Rightarrow> 'b rbac_state \<Rightarrow> bool" where
  "served_from kc i sc s s' \<longleftrightarrow>
     (\<exists>m. resolves kc i sc s m \<and> m < ticks (rt s'))
     \<or> (\<exists>c k. map_of (scopes s) (cacheKey i) = Some c \<and> sc = cs_scope c
          \<and> ticks (rt s) \<le> k \<and> k < ticks (rt s') \<and> now_at (rt s) k < cs_expires c)"

lemma served_from_later:
  "served_from kc i sc s s' \<Longrightarrow> ticks (rt s') \<le> ticks (rt s'') \<Longrightarrow> served_from kc i sc s s''"
  unfolding served_from_def by (elim disjE exE conjE) (blast intro: order_less_le_trans)+

lemma RbacAllowed_spec:
  assumes ok: "rbac_ok kc s" and run: "RbacAllowed kc i s = (res, s')"
  shows "rbac_ok kc s' \<and> rbac_frame s s'
    \<and> (case res of Inl e \<Rightarrow> scopes s' = scopes s | Inr sc \<Rightarrow> served_from kc i sc s s')"
  using run
proof (cases rule: RbacAllowed_cases)
  case (hit c k)
  then have "served_from kc i (cs_scope c) s s'" unfolding served_from_def by blast
  with hit rbac_ok_consults [OF hit(6) ok] show ?thesis by (simp add: consults_def)
next
  case (failed e)
  with rbac_ok_consults [OF _ ok] show ?thesis by (simp add: consults_def)
next
  case (fresh sc n\<^sub>0 s1)
  have same: "now_at (rt s1) = now_at (rt s)" "ra_ttl (auth s1) = ra_ttl (auth s)"
    using fresh(3) by (simp_all add: consults_def rbac_frame_def)
  note st = store_spec [OF rbac_ok_consults [OF fresh(3) ok] refl fresh(5) fresh(6) [folded same]]
  from fresh_resolves [OF ok run [unfolded fresh(1)] fresh(2-6)] have "served_from kc i sc s s'"
    unfolding served_from_def by blast
  with st rbac_frame_trans [OF consults_frame [OF fresh(3)] st(2)] show ?thesis
    by (simp add: fresh(1,2))
qed

text \<open>The entries after a call are those before it, but for the one it may have stored.\<close>

lemma RbacAllowed_entries:
  assumes ok: "rbac_ok kc s" and run: "RbacAllowed kc i s = (res, s')"
    and entry: "map_of (scopes s') key = Some c"
  shows "map_of (scopes s) key = Some c
    \<or> (key = cacheKey i \<and> (\<exists>m. resolves kc i (cs_scope c) s m \<and> cs_expires c = now_at (rt s) m + ra_ttl (auth s)))"
  using run
proof (cases rule: RbacAllowed_cases)
  case (fresh sc n\<^sub>0 s1)
  show ?thesis
  proof (rule fresh_resolves [OF ok run [unfolded fresh(1)] fresh(2-6)])
    fix m
    assume m: "resolves kc i sc s m"
      and "\<And>k c. map_of (scopes s') k = Some c \<Longrightarrow> map_of (scopes s) k = Some c
        \<or> k = cacheKey i \<and> c = \<lparr>cs_scope = sc, cs_expires = now_at (rt s) m + ra_ttl (auth s), cs_id = i\<rparr>"
    from this(2) [OF entry] m show ?thesis by auto
  qed
qed (use entry in \<open>simp_all add: consults_def\<close>)

lemma RbacAllowed_frame:
  assumes run: "RbacAllowed kc i s = (res, s')"
  shows "rbac_frame s s'"
  using run
proof (cases rule: RbacAllowed_cases)
  case (fresh sc n\<^sub>0 s1)
  from rbac_frame_trans [OF consults_frame [OF fresh(3)] store_frame] show ?thesis by (simp add: fresh(2))
qed (simp_all add: consults_frame)

section \<open>The contract\<close>

text \<open>
  A granted scope was confirmed by the API server during this very call, or it is the one of an
  entry under the caller's cache key that had not expired at some moment of this call.
\<close>

interpretation rbac_az: authorizer "RbacAllowed kc" "rbac_ok kc" "\<lambda>s s' i sc. served_from kc i sc s s'" for kc
proof (unfold_locales, goal_cases)
  case (1 s i sc s')
  with RbacAllowed_spec [OF 1] show ?case by simp
next
  case (2 s i res s')
  then show ?case using RbacAllowed_spec by blast
next
  case (3 i s res s')
  with RbacAllowed_frame [OF 3] show ?case by (simp add: rbac_frame_def)
next
  case (4 i s res s')
  with RbacAllowed_frame [OF 4] show ?case by (simp add: rbac_frame_def)
qed

section \<open>Grants that go back to a call\<close>

text \<open>
  \<open>granted_at kc j ns s m\<close>: a call of \<open>j\<close> at \<open>s\<close> resolved a scope with \<open>ns\<close>, the empty name standing
  for all namespaces; during it, at \<open>n\<close>, the API server allowed \<open>j\<close> to list pods there; and the
  expiry of its entry was set at \<open>m\<close>, later than \<open>n\<close>, as the last thing it did.
\<close>

definition granted_at :: "kube \<Rightarrow> identity \<Rightarrow> string \<Rightarrow> 'b rbac_state \<Rightarrow> nat \<Rightarrow> bool" where
  "granted_at kc j ns s m \<longleftrightarrow>
     (\<exists>sc s'. RbacAllowed kc j s = (Inr sc, s') \<and> ticks (rt s') = Suc m
        \<and> (in_scope sc ns \<or> ns = [] \<and> sc_all sc)
        \<and> (\<exists>d n. ticks (rt s) < n \<and> n < m \<and> review kc n d (review_of j ns) = Inr True))"

lemma resolves_grants:
  assumes "resolves kc j sc s m"
  shows "sc_all sc \<Longrightarrow> granted_at kc j [] s m" and "in_scope sc ns \<Longrightarrow> granted_at kc j ns s m"
proof -
  from assms obtain s' n\<^sub>0 where r: "RbacAllowed kc j s = (Inr sc, s')" "ticks (rt s') = Suc m" "ticks (rt s) \<le> n\<^sub>0"
    and conf: "confirmed kc {n\<^sub>0<..<m} (now_at (rt s) n\<^sub>0 + ra_ttl (auth s)) j sc"
    unfolding resolves_def by blast
  have "granted_at kc j ns s m" if "in_scope sc ns \<or> ns = [] \<and> sc_all sc" for ns
  proof -
    from that conf have "reviewed kc {n\<^sub>0<..<m} (now_at (rt s) n\<^sub>0 + ra_ttl (auth s)) j ns"
      by (auto simp: confirmed_def)
    then obtain n where "n\<^sub>0 < n" "n < m" "review kc n (now_at (rt s) n\<^sub>0 + ra_ttl (auth s)) (review_of j ns) = Inr True"
      by (auto simp: reviewed_def)
    moreover from this(1) r(3) have "ticks (rt s) < n" by simp
    ultimately show ?thesis using r(1,2) that unfolding granted_at_def by blast
  qed
  then show "sc_all sc \<Longrightarrow> granted_at kc j [] s m" and "in_scope sc ns \<Longrightarrow> granted_at kc j ns s m" by blast+
qed

end
