(* ===== verification/Rbac_Properties.thy ===== *)
theory Rbac_Properties
  imports Rbac_Watch_Laws Rbac_Calls Proxy_Properties
begin

text \<open>
  The properties of the RBAC authorizer: what its scopes mean, how its cache is keyed, bounded
  and aged, what the watch evicts, and what the proxy relays when it is the configured
  authorizer.
\<close>

section \<open>The cache key\<close>

definition key_safe :: "identity \<Rightarrow> bool" where
  "key_safe i \<longleftrightarrow> nul \<notin> set (id_user i) \<and> nul \<notin> set (id_email i)
     \<and> [] \<notin> set (id_groups i) \<and> list_all (\<lambda>g. nul \<notin> set g) (id_groups i)"

lemma split_at_nul:
  assumes "a @ nul # b = c @ nul # d" and "nul \<notin> set a" and "nul \<notin> set c"
  shows "a = c \<and> b = d"
  using assms
proof (induction a arbitrary: c)
  case Nil
  then show ?case by (cases c) auto
next
  case (Cons x a)
  then show ?case by (cases c) auto
qed

lemma join_eq_Nil: "join_with sep gs = [] \<Longrightarrow> [] \<notin> set gs \<Longrightarrow> gs = []"
  by (induction sep gs rule: join_with.induct) auto

text \<open>
  C27. The cache never mixes callers up: two identities as they come from request headers, without
  NUL bytes and without empty groups, share a cache key exactly when they have the same user, the same email and the same groups, whatever
  the order the groups were presented in.
\<close>

theorem cacheKey_identifies:
  assumes "key_safe i" and "key_safe j"
  shows "cacheKey i = cacheKey j \<longleftrightarrow>
    id_user i = id_user j \<and> id_email i = id_email j \<and> mset (id_groups i) = mset (id_groups j)"
proof
  assume key: "cacheKey i = cacheKey j"
  let ?gi = "sort (id_groups i)" and ?gj = "sort (id_groups j)"
  from key have "id_user i @ nul # (id_email i @ nul # join_with [nul] ?gi)
      = id_user j @ nul # (id_email j @ nul # join_with [nul] ?gj)"
    by (simp add: cacheKey_def)
  from split_at_nul [OF this] assms have u: "id_user i = id_user j"
      and "id_email i @ nul # join_with [nul] ?gi = id_email j @ nul # join_with [nul] ?gj"
    by (auto simp: key_safe_def)
  from split_at_nul [OF this(2)] assms have e: "id_email i = id_email j"
      and g: "join_with [nul] ?gi = join_with [nul] ?gj"
    by (auto simp: key_safe_def)
  have safe: "\<forall>w \<in> set ?gi. nul \<notin> set w" "\<forall>w \<in> set ?gj. nul \<notin> set w"
    "[] \<notin> set ?gi" "[] \<notin> set ?gj"
    using assms by (auto simp: key_safe_def list_all_iff)
  have "?gi = ?gj"
  proof (cases "?gi = [] \<or> ?gj = []")
    case True
    with g safe(3,4) join_eq_Nil show ?thesis by (metis join_with.simps(1))
  next
    case False
    with join_with_inj [OF safe(1,2) g] show ?thesis by blast
  qed
  with u e show "id_user i = id_user j \<and> id_email i = id_email j \<and> mset (id_groups i) = mset (id_groups j)"
    by (metis mset_sort)
next
  assume same: "id_user i = id_user j \<and> id_email i = id_email j \<and> mset (id_groups i) = mset (id_groups j)"
  then have "sort (id_groups i) = sort (id_groups j)"
    by (metis mset_sort properties_for_sort sorted_sort)
  with same show "cacheKey i = cacheKey j" by (simp add: cacheKey_def)
qed

definition alice :: "string list \<Rightarrow> identity" where
  "alice gs = \<lparr>id_user = ''alice'', id_email = ''alice@example.com'', id_groups = gs\<rparr>"

theorem cacheKey_identifies_witness:
  "cacheKey (alice [''b'', ''a'']) = cacheKey (alice [''a'', ''b''])
   \<and> cacheKey (alice [''a'', ''b'']) \<noteq> cacheKey (alice [''ab''])"
proof -
  have "key_safe (alice gs)" if "gs = [''b'', ''a''] \<or> gs = [''a'', ''b''] \<or> gs = [''ab'']" for gs
    using that by (auto simp: key_safe_def alice_def nul_def)
  then show ?thesis
    by (simp add: cacheKey_identifies) (simp add: alice_def)
qed

section \<open>What a scope means\<close>

text \<open>A resolution that succeeds has an answer for every listed namespace.\<close>

lemma review_each_exact:
  assumes "review_each kc d i nss err allowed s = (None, allowed', s')" and "distinct nss"
  shows "get_bool allowed' ns = get_bool allowed ns \<or> ns \<in> set nss"
    and "ns \<in> set nss \<Longrightarrow> \<not> get_bool allowed ns \<Longrightarrow>
      \<exists>n. review kc n d (review_of i ns) = Inr (get_bool allowed' ns)"
proof -
  have "(get_bool allowed' ns = get_bool allowed ns \<or> ns \<in> set nss)
    \<and> (ns \<in> set nss \<longrightarrow> \<not> get_bool allowed ns \<longrightarrow>
        (\<exists>n. review kc n d (review_of i ns) = Inr (get_bool allowed' ns)))"
    using assms
  proof (induction nss arbitrary: err allowed s)
    case (Cons x nss)
    obtain res s1 where c: "canListPods kc d i x s = (res, s1)" by fastforce
    note spec = canListPods_spec(1) [OF c]
    show ?case
    proof (cases res)
      case (Inl e)
      with Cons.prems(1) c have "review_each kc d i nss (Some (case err of None \<Rightarrow> e | Some e' \<Rightarrow> e'))
          allowed s1 = (None, allowed', s')" by (cases err) simp_all
      with review_each_spec [OF this] show ?thesis by simp
    next
      case (Inr ok)
      with Cons.prems(1) c have r: "review_each kc d i nss err (if ok then set_true x allowed else allowed) s1
          = (None, allowed', s')" by simp
      have dist: "distinct nss" "x \<notin> set nss" using Cons.prems(2) by simp_all
      from Cons.IH [OF r dist(1)] show ?thesis
        using spec Inr dist(2) by (cases "ns = x") (auto simp: gomap_simps split: if_splits)
    qed
  qed simp
  then show "get_bool allowed' ns = get_bool allowed ns \<or> ns \<in> set nss"
    and "ns \<in> set nss \<Longrightarrow> \<not> get_bool allowed ns \<Longrightarrow>
      \<exists>n. review kc n d (review_of i ns) = Inr (get_bool allowed' ns)" by blast+
qed

text \<open>The API server lists every namespace once.\<close>

definition lists_once :: "kube \<Rightarrow> bool" where
  "lists_once kc \<longleftrightarrow> (\<forall>n d names. list_namespaces kc n d = Inr names \<longrightarrow> distinct names)"

definition answered :: "kube \<Rightarrow> int \<Rightarrow> identity \<Rightarrow> scope \<Rightarrow> string set" where
  "answered kc d i sc = {ns. \<exists>n. review kc n d (review_of i ns) = Inr (in_scope sc ns)}"

lemma resolve_complete:
  assumes run: "resolve kc d i s = (Inr sc, s')" and once: "lists_once kc"
  shows "sc_all sc \<and> {ns. in_scope sc ns} = {} \<or>
    (\<exists>names n. list_namespaces kc n d = Inr names \<and> {ns. in_scope sc ns} \<subseteq> set names
       \<and> set names \<subseteq> answered kc d i sc \<and> \<not> sc_all sc)"
proof -
  obtain r1 s1 where c: "canListPods kc d i [] s = (r1, s1)" by fastforce
  obtain t s2 where n: "now s1 = (t, s2)" by fastforce
  from run c consider "r1 = Inr True" | "r1 = Inr False" by (cases r1) (auto simp: resolve_def)
  then show ?thesis
  proof cases
    case 1
    with run c show ?thesis by (auto simp: resolve_def)
  next
    case each: 2
    with run c n obtain names where names: "list_namespaces kc (ticks (rt s1)) d = Inr names"
      by (cases "list_namespaces kc (ticks (rt s1)) d") (auto simp: resolve_def)
    obtain order s3 where o: "range_map (map (\<lambda>name. (name, ())) names) s2 = (order, s3)" by fastforce
    obtain err allowed s4 where r: "review_each kc d i order None [] s3 = (err, allowed, s4)"
      by (metis prod_cases3)
    from run c each n names o r have none: "err = None"
        and sc: "sc = \<lparr>sc_all = False, sc_namespaces = allowed\<rparr>"
      by (auto simp: resolve_def split: option.splits)
    have order: "set order = set names" "distinct order"
      using range_map_set [OF o] o names once by (force, auto simp: range_map_eq lists_once_def comp_def)
    note exact = review_each_exact [OF r [unfolded none] order(2)]
    have "{ns. in_scope sc ns} \<subseteq> set names" using exact(1) order(1) by (auto simp: sc)
    moreover have "set names \<subseteq> answered kc d i sc"
      using exact(2) order(1) by (auto simp: sc answered_def)
    ultimately show ?thesis using names by (auto simp: sc)
  qed
qed

lemma RbacAllowed_miss:
  assumes "map_of (scopes s) (cacheKey i) = None"
  shows "\<exists>s1. consults s s1 \<and> SubjectAccessReviewsTotal (met s1) = SubjectAccessReviewsTotal (met s)
    \<and> RbacAllowed kc i s =
      (case resolve kc (now_at (rt s) (ticks (rt s)) + ra_ttl (auth s)) i s1 of
         (Inl e, s2) \<Rightarrow> (Inl e, s2)
       | (Inr sc, s2) \<Rightarrow> (Inr sc, store (cacheKey i) sc i s2))"
proof -
  let ?m = "count_lookup ''miss'' s"
  have hit: "cached (cacheKey i) s = (None, s)" "cached (cacheKey i) ?m = (None, ?m)"
    using assms by (simp_all add: cached_def count_lookup_def)
  obtain s1 where n: "now ?m = (now_at (rt s) (ticks (rt s)), s1)"
    by (simp add: now_eq count_lookup_def)
  then have "consults s s1" "SubjectAccessReviewsTotal (met s1) = SubjectAccessReviewsTotal (met s)"
      "ra_ttl (auth s1) = ra_ttl (auth s)"
    by (auto simp: now_eq count_lookup_def consults_def rbac_frame_def)
  with hit n show ?thesis
    by (intro exI [of _ s1]) (auto simp: RbacAllowed_def Let_def split: sum.split prod.split)
qed

text \<open>
  C11. A scope is never partial: a caller resolved afresh either may list pods cluster-wide, or
  the scope agrees with an answer of the API server for every namespace that exists; one review
  that fails makes the whole resolution fail.
\<close>

theorem rbac_never_partial:
  assumes "lists_once kc" and "map_of (scopes s) (cacheKey i) = None"
    and "RbacAllowed kc i s = (Inr sc, s')"
  shows "sc_all sc \<and> {ns. in_scope sc ns} = {} \<or>
    (\<exists>names n d. list_namespaces kc n d = Inr names \<and> {ns. in_scope sc ns} \<subseteq> set names
       \<and> set names \<subseteq> answered kc d i sc \<and> \<not> sc_all sc)"
proof -
  let ?d = "now_at (rt s) (ticks (rt s)) + ra_ttl (auth s)"
  from RbacAllowed_miss [OF assms(2), of kc] obtain s1 where call: "RbacAllowed kc i s =
      (case resolve kc ?d i s1 of
         (Inl e, s2) \<Rightarrow> (Inl e, s2) | (Inr sc, s2) \<Rightarrow> (Inr sc, store (cacheKey i) sc i s2))"
    by blast
  obtain res s2 where "resolve kc ?d i s1 = (res, s2)" by fastforce
  with call assms(3) have "resolve kc ?d i s1 = (Inr sc, s2)" by (cases res) simp_all
  from resolve_complete [OF this assms(1)] show ?thesis by blast
qed

text \<open>A closed instance: an API server that lets alice list pods in \<open>pay\<close> only.\<close>

definition pay_only :: "(nat \<Rightarrow> bool) \<Rightarrow> kube" where
  "pay_only while_ok = \<lparr>review = (\<lambda>n d q. Inr (sar_namespace q = ''pay'' \<and> while_ok n)),
     list_namespaces = (\<lambda>n d. Inr [''db'', ''pay''])\<rparr>"

definition rbac_start :: "(nat \<Rightarrow> int) \<Rightarrow> rbac_authorizer reg_state" where
  "rbac_start clock = \<lparr>rt = \<lparr>now_at = clock, rank_at = (\<lambda>_ _. 0), ticks = 0\<rparr>, met = fresh_metrics,
     auth = newAuthorizer 60, services = new_registry 60 4\<rparr>"

lemma rbac_start_ok: "rbac_ok kc (rbac_start clock)"
  by (simp add: rbac_ok_def rbac_start_def newAuthorizer_def defaultMaxCacheSize_def)

definition rbac_warm :: "rbac_authorizer reg_state" where
  "rbac_warm = snd (RbacAllowed (pay_only (\<lambda>_. True)) (alice []) (rbac_start int))"

lemma pay_only_once: "lists_once (pay_only f)"
  by (simp add: lists_once_def pay_only_def)

definition pay_scope :: scope where
  "pay_scope = \<lparr>sc_all = False, sc_namespaces = [(''pay'', True)]\<rparr>"

lemma alice_resolved:
  "fst (RbacAllowed (pay_only (\<lambda>_. True)) (alice []) (rbac_start int)) = Inr pay_scope"
  by code_simp

theorem rbac_never_partial_witness:
  "\<exists>names n d. list_namespaces (pay_only (\<lambda>_. True)) n d = Inr names
     \<and> {ns. in_scope pay_scope ns} \<subseteq> set names
     \<and> set names \<subseteq> answered (pay_only (\<lambda>_. True)) d (alice []) pay_scope \<and> \<not> sc_all pay_scope"
proof -
  have "map_of (scopes (rbac_start int)) (cacheKey (alice [])) = None"
    by (simp add: rbac_start_def newAuthorizer_def)
  moreover have "RbacAllowed (pay_only (\<lambda>_. True)) (alice []) (rbac_start int)
      = (Inr pay_scope, snd (RbacAllowed (pay_only (\<lambda>_. True)) (alice []) (rbac_start int)))"
    by (simp add: prod_eq_iff alice_resolved)
  ultimately have "sc_all pay_scope \<and> {ns. in_scope pay_scope ns} = {} \<or>
      (\<exists>names n d. list_namespaces (pay_only (\<lambda>_. True)) n d = Inr names
         \<and> {ns. in_scope pay_scope ns} \<subseteq> set names
         \<and> set names \<subseteq> answered (pay_only (\<lambda>_. True)) d (alice []) pay_scope \<and> \<not> sc_all pay_scope)"
    by (rule rbac_never_partial [OF pay_only_once])
  moreover have "\<not> sc_all pay_scope" by (simp add: pay_scope_def)
  ultimately show ?thesis by blast
qed


section \<open>Against an API server whose rules do not change\<close>

definition stable :: "kube \<Rightarrow> (review_request \<Rightarrow> bool) \<Rightarrow> string list \<Rightarrow> bool" where
  "stable kc may names \<longleftrightarrow> distinct names
     \<and> (\<forall>n d q. review kc n d q = Inr (may q)) \<and> (\<forall>n d. list_namespaces kc n d = Inr names)"

lemma review_each_stable:
  assumes "stable kc may names"
  shows "review_each kc d i nss None allowed s = (err, allowed', s') \<Longrightarrow> err = None"
proof (induction nss arbitrary: allowed s)
  case (Cons x nss)
  obtain res s1 where c: "canListPods kc d i x s = (res, s1)" by fastforce
  from canListPods_spec(1) [OF c] assms have "res = Inr (may (review_of i x))"
    by (simp add: stable_def)
  with Cons c show ?case by simp
qed simp

lemma resolved_lockstep:
  assumes st: "stable kc may names" and cold: "map_of (scopes s) (cacheKey i) = None"
  shows "\<exists>sc s1. RbacAllowed kc i s = (Inr sc, store (cacheKey i) sc i s1)
    \<and> (sc_all sc \<longleftrightarrow> may (review_of i []))
    \<and> {ns. in_scope sc ns} =
        (if may (review_of i []) then {} else {ns \<in> set names. may (review_of i ns)})
    \<and> SubjectAccessReviewsTotal (met s1) = SubjectAccessReviewsTotal (met s)
        + (if may (review_of i []) then 1 else 1 + length names)"
proof -
  let ?d = "now_at (rt s) (ticks (rt s)) + ra_ttl (auth s)"
  from RbacAllowed_miss [OF cold, of kc] obtain s0 where
    sars: "SubjectAccessReviewsTotal (met s0) = SubjectAccessReviewsTotal (met s)"
    and call: "RbacAllowed kc i s = (case resolve kc ?d i s0 of
         (Inl e, s2) \<Rightarrow> (Inl e, s2) | (Inr sc, s2) \<Rightarrow> (Inr sc, store (cacheKey i) sc i s2))"
    by blast
  obtain r1 s1 where c: "canListPods kc ?d i [] s0 = (r1, s1)" by fastforce
  note c_spec = canListPods_spec [OF c]
  have r1: "r1 = Inr (may (review_of i []))" using c_spec(1) st by (simp add: stable_def)
  show ?thesis
  proof (cases "may (review_of i [])")
    case True
    with c r1 call have "RbacAllowed kc i s = (Inr \<lparr>sc_all = True, sc_namespaces = []\<rparr>,
        store (cacheKey i) \<lparr>sc_all = True, sc_namespaces = []\<rparr> i s1)"
      by (simp add: resolve_def)
    with True c_spec(4) sars show ?thesis by auto
  next
    case False
    obtain t s2 where n: "now s1 = (t, s2)" by fastforce
    then have m2: "met s2 = met s1" by (auto simp: now_eq)
    obtain order s3 where o: "range_map (map (\<lambda>name. (name, ())) names) s2 = (order, s3)" by fastforce
    then have m3: "met s3 = met s2" by (auto simp: range_map_eq)
    obtain err allowed s4 where r: "review_each kc ?d i order None [] s3 = (err, allowed, s4)"
      by (metis prod_cases3)
    have err: "err = None" by (rule review_each_stable [OF st r])
    have order: "set order = set names" "distinct order" "length order = length names"
      using o st by (auto simp: range_map_eq stable_def comp_def)
    note exact = review_each_exact [OF r [unfolded err] order(2)]
    have "get_bool allowed ns \<longleftrightarrow> ns \<in> set names \<and> may (review_of i ns)" for ns
    proof (cases "ns \<in> set order")
      case True
      then have "\<exists>n. review kc n ?d (review_of i ns) = Inr (get_bool allowed ns)"
        by (rule exact(2)) simp
      with st order(1) True show ?thesis by (auto simp: stable_def)
    qed (use exact(1) [of ns] order(1) in auto)
    moreover have "resolve kc ?d i s0 = (Inr \<lparr>sc_all = False, sc_namespaces = allowed\<rparr>, s4)"
      using c r1 False n o r err st by (simp add: resolve_def stable_def)
    ultimately show ?thesis
      using call False review_each_spec [OF r] c_spec(4) sars m2 m3 order(3)
      by (intro exI [of _ "\<lparr>sc_all = False, sc_namespaces = allowed\<rparr>"] exI [of _ s4]) auto
  qed
qed

text \<open>The rules' answer to: may this caller, with these groups, list the pods of the namespace?\<close>

definition may_list_pods :: "(review_request \<Rightarrow> bool) \<Rightarrow> identity \<Rightarrow> string \<Rightarrow> bool" where
  "may_list_pods may i ns \<longleftrightarrow> may
     \<lparr>sar_user = (if id_user i = [] then id_email i else id_user i), sar_groups = id_groups i,
      sar_namespace = ns, sar_verb = ''list'', sar_api_group = [], sar_resource = ''pods''\<rparr>"

lemma may_review_of: "may (review_of i ns) \<longleftrightarrow> may_list_pods may i ns"
  by (simp add: review_of_def may_list_pods_def firstNonEmpty_def)

text \<open>
  C12. Lockstep with the cluster: against rules that do not change, a caller resolved afresh gets
  everything if and only if the cluster-wide review allows it, and otherwise exactly the existing
  namespaces whose review allows it; this costs one review, plus one for every namespace unless
  the first one already settled the matter.
\<close>

theorem rbac_lockstep:
  assumes st: "stable kc may names" and cold: "map_of (scopes s) (cacheKey i) = None"
  shows "\<exists>sc s1. RbacAllowed kc i s = (Inr sc, store (cacheKey i) sc i s1)
    \<and> (sc_all sc \<longleftrightarrow> may_list_pods may i [])
    \<and> {ns. in_scope sc ns} =
        (if may_list_pods may i [] then {} else {ns \<in> set names. may_list_pods may i ns})
    \<and> SubjectAccessReviewsTotal (met s1) = SubjectAccessReviewsTotal (met s)
        + (if may_list_pods may i [] then 1 else 1 + length names)"
  using resolved_lockstep [OF assms] by (simp only: may_review_of)

theorem rbac_lockstep_witness:
  "\<exists>sc s1. RbacAllowed (pay_only (\<lambda>_. True)) (alice []) (rbac_start int)
      = (Inr sc, store (cacheKey (alice [])) sc (alice []) s1)
    \<and> (sc_all sc \<longleftrightarrow> False) \<and> {ns. in_scope sc ns} = {''pay''}
    \<and> SubjectAccessReviewsTotal (met s1) = 3"
proof -
  have "stable (pay_only (\<lambda>_. True)) (\<lambda>q. sar_namespace q = ''pay'') [''db'', ''pay'']"
    by (simp add: stable_def pay_only_def)
  moreover have "map_of (scopes (rbac_start int)) (cacheKey (alice [])) = None"
    by (simp add: rbac_start_def newAuthorizer_def)
  ultimately obtain sc s1 where
    "RbacAllowed (pay_only (\<lambda>_. True)) (alice []) (rbac_start int)
      = (Inr sc, store (cacheKey (alice [])) sc (alice []) s1)"
    and "sc_all sc \<longleftrightarrow> may_list_pods (\<lambda>q. sar_namespace q = ''pay'') (alice []) []"
    and "{ns. in_scope sc ns} = (if may_list_pods (\<lambda>q. sar_namespace q = ''pay'') (alice []) [] then {}
        else {ns \<in> set [''db'', ''pay'']. may_list_pods (\<lambda>q. sar_namespace q = ''pay'') (alice []) ns})"
    and "SubjectAccessReviewsTotal (met s1) = SubjectAccessReviewsTotal (met (rbac_start int))
      + (if may_list_pods (\<lambda>q. sar_namespace q = ''pay'') (alice []) [] then 1 else 1 + length [''db'', ''pay''])"
    using rbac_lockstep by blast
  moreover have "may_list_pods (\<lambda>q. sar_namespace q = ''pay'') i ns \<longleftrightarrow> ns = ''pay''" for i ns
    by (simp add: may_list_pods_def)
  moreover have "{ns \<in> set [''db'', ''pay'']. ns = ''pay''} = {''pay''}" by auto
  moreover have "SubjectAccessReviewsTotal (met (rbac_start int)) = 0"
    by (simp add: rbac_start_def fresh_metrics_def)
  ultimately show ?thesis by (intro exI [of _ sc] exI [of _ s1]) simp
qed

section \<open>Every execution\<close>

text \<open>
  Lookups, sweeps and watch notices in any order: the steps the cache takes under its mutex.
\<close>

datatype rbac_op =
    Rb_Resolve identity
  | Rb_Sweep
  | Rb_Notice listers informer notice

fun rbac_exec :: "kube \<Rightarrow> rbac_op \<Rightarrow> 'b rbac_state \<Rightarrow> 'b rbac_state" where
  "rbac_exec kc (Rb_Resolve i) s = snd (RbacAllowed kc i s)"
| "rbac_exec kc Rb_Sweep s = sweepScopes s"
| "rbac_exec kc (Rb_Notice ls w n) s = handle ls w n s"

definition rbac_run :: "kube \<Rightarrow> rbac_op list \<Rightarrow> 'b rbac_state \<Rightarrow> 'b rbac_state" where
  "rbac_run kc ops s = fold (rbac_exec kc) ops s"

lemma rbac_exec_ok:
  assumes "rbac_ok kc s"
  shows "rbac_ok kc (rbac_exec kc op s) \<and> rbac_frame s (rbac_exec kc op s)"
proof (cases op)
  case (Rb_Resolve i)
  obtain res s' where "RbacAllowed kc i s = (res, s')" by fastforce
  with RbacAllowed_spec [OF assms this] Rb_Resolve show ?thesis by simp
next
  case Rb_Sweep
  with evictExpired_spec [OF assms] show ?thesis by (simp add: sweepScopes_def)
next
  case (Rb_Notice ls w n)
  with assms show ?thesis by (simp add: handle_ok handle_frame)
qed

lemma rbac_run_ok: "rbac_ok kc s \<Longrightarrow> rbac_ok kc (rbac_run kc ops s) \<and> rbac_frame s (rbac_run kc ops s)"
proof (induction ops arbitrary: s)
  case (Cons op ops)
  have "rbac_run kc (op # ops) s = rbac_run kc ops (rbac_exec kc op s)" by (simp add: rbac_run_def)
  with Cons.IH rbac_exec_ok [OF Cons.prems, of op] rbac_frame_trans show ?case by metis
qed (simp add: rbac_run_def)

text \<open>
  C14. The cache is bounded and honest in every execution: whatever callers resolve, whenever it
  is swept and whatever the watch reports, it holds at most the configured number of entries,
  each under the key of the identity it was resolved for, each grant of it confirmed by a review
  for that identity.
\<close>

theorem rbac_cache_invariant:
  assumes "rbac_ok kc s" and "0 < ra_maxCache (auth s)"
    and "map_of (scopes (rbac_run kc ops s)) key = Some c"
  shows "int (length (scopes (rbac_run kc ops s))) \<le> ra_maxCache (auth s)
    \<and> key = cacheKey (cs_id c) \<and> (\<exists>d. confirmed kc UNIV d (cs_id c) (cs_scope c))"
proof -
  from rbac_run_ok [OF assms(1), of ops] have ok: "rbac_ok kc (rbac_run kc ops s)"
    and "ra_maxCache (auth (rbac_run kc ops s)) = ra_maxCache (auth s)"
    by (simp_all add: rbac_frame_def)
  then have "int (length (scopes (rbac_run kc ops s))) \<le> ra_maxCache (auth s)"
    using assms(2) by (simp add: rbac_ok_def)
  moreover from ok assms(3) have "entry_ok kc (rbac_run kc ops s) key c" by (simp add: rbac_ok_def)
  ultimately show ?thesis
    unfolding entry_ok_def using confirmed_mono by (metis subset_UNIV)
qed

theorem rbac_cache_invariant_witness:
  "int (length (scopes (rbac_run (pay_only (\<lambda>_. True)) [Rb_Resolve (alice [])] (rbac_start int)))) \<le> 2048"
proof -
  have "map_of (scopes (rbac_run (pay_only (\<lambda>_. True)) [Rb_Resolve (alice [])] (rbac_start int)))
      (cacheKey (alice [])) \<noteq> None"
    by code_simp
  then obtain c where c: "map_of (scopes (rbac_run (pay_only (\<lambda>_. True)) [Rb_Resolve (alice [])]
      (rbac_start int))) (cacheKey (alice [])) = Some c" by blast
  have "ra_maxCache (auth (rbac_start int)) = 2048"
    by (simp add: rbac_start_def newAuthorizer_def defaultMaxCacheSize_def)
  with rbac_cache_invariant [OF rbac_start_ok _ c] show ?thesis by simp
qed


section \<open>Staleness\<close>

text \<open>
  Every entry of the cache goes back to a call of the execution: that call resolved its scope, and
  its TTL runs from the end of that call.
\<close>

lemma rbac_entries_origin:
  assumes ok: "rbac_ok kc s\<^sub>0" and empty: "scopes s\<^sub>0 = []"
    and entry: "map_of (scopes (rbac_run kc ops s\<^sub>0)) key = Some c"
  shows "\<exists>before j after m. ops = before @ Rb_Resolve j # after \<and> key = cacheKey j
    \<and> resolves kc j (cs_scope c) (rbac_run kc before s\<^sub>0) m
    \<and> cs_expires c = now_at (rt s\<^sub>0) m + ra_ttl (auth s\<^sub>0)"
  using entry
proof (induction ops rule: rev_induct)
  case Nil
  with empty show ?case by (simp add: rbac_run_def)
next
  case (snoc op ops)
  let ?s = "rbac_run kc ops s\<^sub>0"
  have run: "rbac_run kc (ops @ [op]) s\<^sub>0 = rbac_exec kc op ?s" by (simp add: rbac_run_def)
  from rbac_run_ok [OF ok, of ops] have s: "rbac_ok kc ?s" "now_at (rt ?s) = now_at (rt s\<^sub>0)"
      "ra_ttl (auth ?s) = ra_ttl (auth s\<^sub>0)" by (simp_all add: rbac_frame_def)
  have earlier: ?case if "map_of (scopes ?s) key = Some c" using snoc.IH [OF that] by fastforce
  show ?case
  proof (cases op)
    case (Rb_Resolve i)
    obtain res s' where call: "RbacAllowed kc i ?s = (res, s')" by fastforce
    with snoc.prems run Rb_Resolve have "map_of (scopes s') key = Some c" by simp
    from RbacAllowed_entries [OF s(1) call this] earlier show ?thesis
      unfolding Rb_Resolve by (metis append_Nil2 s(2,3))
  next
    case Rb_Sweep
    with snoc.prems run evictExpired_spec [OF s(1), of key] show ?thesis
      by (intro earlier) (auto simp: sweepScopes_def split: option.splits if_splits)
  next
    case (Rb_Notice ls w n)
    with snoc.prems run deliver_shrinks [OF s(1), of "[(ls, w, n)]" key c] show ?thesis
      by (intro earlier) (simp add: deliver_def)
  qed
qed

text \<open>
  C10. How old a grant can be. Start with an empty cache and let callers resolve, the sweeper run and
  the watch report in any order. Whatever a call then grants, a namespace or, with the empty name,
  all of them, was allowed in a review by this very call; or by an earlier call of the execution,
  for an identity with the same cache key, and then it is served, at \<open>k\<close>, less than a TTL after that
  call had stored its result, at \<open>m\<close>, which was the last thing it did. The review itself is older
  by what that call went on to do after it.
\<close>

theorem rbac_staleness:
  assumes start: "scopes s\<^sub>0 = []" and s: "s = rbac_run kc ops s\<^sub>0"
    and run: "RbacAllowed kc i s = (Inr sc, s')" and grant: "in_scope sc ns \<or> ns = [] \<and> sc_all sc"
  shows "(\<exists>m < ticks (rt s'). granted_at kc i ns s m)
    \<or> (\<exists>before j after m k. ops = before @ Rb_Resolve j # after \<and> cacheKey j = cacheKey i
         \<and> granted_at kc j ns (rbac_run kc before s\<^sub>0) m
         \<and> ticks (rt s) \<le> k \<and> k < ticks (rt s') \<and> now_at (rt s) k < now_at (rt s) m + ra_ttl (auth s))"
proof -
  have ok\<^sub>0: "rbac_ok kc s\<^sub>0" using start by (simp add: rbac_ok_def)
  from rbac_run_ok [OF this, of ops] s have ok: "rbac_ok kc s" and same: "now_at (rt s) = now_at (rt s\<^sub>0)"
      "ra_ttl (auth s) = ra_ttl (auth s\<^sub>0)" by (simp_all add: rbac_frame_def)
  have grants: "granted_at kc j ns t m" if "resolves kc j sc t m" for j m and t :: "'a rbac_state"
    using resolves_grants [OF that] grant by blast
  from RbacAllowed_spec [OF ok run] consider m where "resolves kc i sc s m" "m < ticks (rt s')"
    | c k where "map_of (scopes s) (cacheKey i) = Some c" "sc = cs_scope c"
        "ticks (rt s) \<le> k" "k < ticks (rt s')" "now_at (rt s) k < cs_expires c"
    by (auto simp: served_from_def)
  then show ?thesis
  proof cases
    case (1 m)
    with grants show ?thesis by blast
  next
    case (2 c k)
    from rbac_entries_origin [OF ok\<^sub>0 start 2(1) [unfolded s]] obtain before j after m where
      "ops = before @ Rb_Resolve j # after" "cacheKey i = cacheKey j"
      "resolves kc j sc (rbac_run kc before s\<^sub>0) m" "cs_expires c = now_at (rt s) m + ra_ttl (auth s)"
      unfolding 2(2) same by blast
    with 2(3-5) grants show ?thesis by (intro disjI2) metis
  qed
qed

theorem rbac_staleness_witness:
  "(\<exists>m < ticks (rt (snd (RbacAllowed (pay_only (\<lambda>_. True)) (alice []) rbac_warm))).
       granted_at (pay_only (\<lambda>_. True)) (alice []) ''pay'' rbac_warm m)
    \<or> (\<exists>before j after m k. [Rb_Resolve (alice [])] = before @ Rb_Resolve j # after
         \<and> cacheKey j = cacheKey (alice [])
         \<and> granted_at (pay_only (\<lambda>_. True)) j ''pay'' (rbac_run (pay_only (\<lambda>_. True)) before (rbac_start int)) m
         \<and> ticks (rt rbac_warm) \<le> k
         \<and> k < ticks (rt (snd (RbacAllowed (pay_only (\<lambda>_. True)) (alice []) rbac_warm)))
         \<and> now_at (rt rbac_warm) k < now_at (rt rbac_warm) m + ra_ttl (auth rbac_warm))"
proof (rule rbac_staleness)
  show "scopes (rbac_start int) = []" by (simp add: rbac_start_def newAuthorizer_def)
  show "rbac_warm = rbac_run (pay_only (\<lambda>_. True)) [Rb_Resolve (alice [])] (rbac_start int)"
    by (simp add: rbac_warm_def rbac_run_def)
  have "fst (RbacAllowed (pay_only (\<lambda>_. True)) (alice []) rbac_warm) = Inr pay_scope" by code_simp
  then show "RbacAllowed (pay_only (\<lambda>_. True)) (alice []) rbac_warm
      = (Inr pay_scope, snd (RbacAllowed (pay_only (\<lambda>_. True)) (alice []) rbac_warm))"
    by (simp add: prod_eq_iff)
  show "in_scope pay_scope ''pay'' \<or> ''pay'' = [] \<and> sc_all pay_scope"
    by (simp add: pay_scope_def get_bool_def)
qed

text \<open>
  A clock on which the reviews of a resolution end early and its result is stored just before
  its deadline.
\<close>

definition slow_clock :: "nat \<Rightarrow> int" where
  "slow_clock n = (if n \<le> 5 then int n else if n = 6 then 59 else 105)"

definition rbac_later :: "rbac_authorizer reg_state" where
  "rbac_later = snd (RbacAllowed (pay_only (\<lambda>n. n \<le> 5)) (alice []) (rbac_start slow_clock))"

text \<open>
  It is the resolution that ages, not the review: with a TTL of 60 s, a namespace whose only
  positive review was answered at 5 s, and which every later review denies, is still served at
  105 s, because the resolution stored its result at 59 s.
\<close>

theorem rbac_grant_outlives_ttl:
  "ra_ttl (auth rbac_later) = 60 \<and> slow_clock 5 = 5
   \<and> review (pay_only (\<lambda>n. n \<le> 5)) 5 d (review_of (alice []) ''pay'') = Inr True
   \<and> review (pay_only (\<lambda>n. n \<le> 5)) (6 + n) d (review_of (alice []) ''pay'') = Inr False
   \<and> now_at (rt rbac_later) (ticks (rt rbac_later)) = 105
   \<and> fst (RbacAllowed (pay_only (\<lambda>n. n \<le> 5)) (alice []) rbac_later) = Inr pay_scope"
proof (intro conjI)
  show "ra_ttl (auth rbac_later) = 60" by code_simp
  show "now_at (rt rbac_later) (ticks (rt rbac_later)) = 105" by code_simp
  show "fst (RbacAllowed (pay_only (\<lambda>n. n \<le> 5)) (alice []) rbac_later) = Inr pay_scope" by code_simp
qed (simp_all add: slow_clock_def pay_only_def review_of_def)

section \<open>Failures\<close>

text \<open>
  Errors are never cached: a call that fails leaves every cached scope as it was.
\<close>

theorem rbac_errors_not_cached:
  assumes "rbac_ok kc s" and "RbacAllowed kc i s = (Inl e, s')"
  shows "scopes s' = scopes s \<and> rbac_ok kc s'"
  using RbacAllowed_spec [OF assms] by simp

definition api_down :: kube where
  "api_down = \<lparr>review = (\<lambda>n d q. Inl (Plain ''connection refused'')),
     list_namespaces = (\<lambda>n d. Inl (Plain ''connection refused''))\<rparr>"

theorem rbac_errors_not_cached_witness:
  "scopes (snd (RbacAllowed api_down (alice []) (rbac_start int))) = scopes (rbac_start int)"
proof -
  have "fst (RbacAllowed api_down (alice []) (rbac_start int)) = Inl (Plain ''connection refused'')"
    by code_simp
  then have "RbacAllowed api_down (alice []) (rbac_start int) = (Inl (Plain ''connection refused''),
      snd (RbacAllowed api_down (alice []) (rbac_start int)))" by (simp add: prod_eq_iff)
  from rbac_errors_not_cached [OF rbac_start_ok this] show ?thesis by simp
qed

section \<open>The watch\<close>

text \<open>
  C28. A changed binding evicts the callers it touched and no others: after an update, exactly the
  entries of identities named, as user or through a group, by the old or by the new subjects are
  gone, and the invalidations are counted one by one.
\<close>

theorem binding_update_evicts:
  assumes "rbac_ok kc s"
  shows "map_of (scopes (handle ls I_RoleBindings (Updated (O_RoleBinding old) (O_RoleBinding cur)) s)) k
      = (case map_of (scopes s) k of None \<Rightarrow> None
         | Some c \<Rightarrow> if affected (bo_subjects old) (cs_id c) \<or> affected (bo_subjects cur) (cs_id c)
             then None else Some c)
    \<and> vec_value (RBACCacheInvalidationsTotal (met (handle ls I_RoleBindings
          (Updated (O_RoleBinding old) (O_RoleBinding cur)) s))) [ResourceRoleBinding]
        + length (scopes (handle ls I_RoleBindings (Updated (O_RoleBinding old) (O_RoleBinding cur)) s))
      = vec_value (RBACCacheInvalidationsTotal (met s)) [ResourceRoleBinding] + length (scopes s)"
  using invalidateSubjects_spec [OF assms, of "bo_subjects old @ bo_subjects cur" ResourceRoleBinding]
  by (simp add: evicts_exactly_def affected_append)

definition binding :: "string \<Rightarrow> string \<Rightarrow> subject list \<Rightarrow> binding_obj" where
  "binding kind role subjects = \<lparr>bo_meta = \<lparr>om_name = ''b'', om_namespace = ''pay'',
     om_managed_fields = [], om_annotations = [], om_labels = []\<rparr>, bo_subjects = subjects,
     bo_role_ref = \<lparr>rr_kind = kind, rr_name = role\<rparr>\<rparr>"

definition some_listers :: "binding_obj list \<Rightarrow> listers" where
  "some_listers bs = \<lparr>role_bindings_in = (\<lambda>_. Inr bs), role_bindings = Inr bs, cluster_role_bindings = Inr []\<rparr>"

lemma rbac_warm_ok: "rbac_ok (pay_only (\<lambda>_. True)) rbac_warm"
proof -
  obtain res where "RbacAllowed (pay_only (\<lambda>_. True)) (alice []) (rbac_start int) = (res, rbac_warm)"
    by (simp add: rbac_warm_def prod_eq_iff)
  from RbacAllowed_spec [OF rbac_start_ok this] show ?thesis by simp
qed

lemma rbac_warm_entry:
  obtains c where "map_of (scopes rbac_warm) (cacheKey (alice [])) = Some c" and "cs_id c = alice []"
proof -
  have "map_option cs_id (map_of (scopes rbac_warm) (cacheKey (alice []))) = Some (alice [])"
    by code_simp
  with that show ?thesis by (auto simp: map_option_case split: option.splits)
qed

lemma alice_affected: "affected [\<lparr>su_kind = ''User'', su_name = ''alice''\<rparr>] (alice gs)"
  by (simp add: affected_def rbacKindUser_def alice_def firstNonEmpty_def)

theorem binding_update_evicts_witness:
  "map_of (scopes (handle (some_listers []) I_RoleBindings (Updated
       (O_RoleBinding (binding ''Role'' ''viewer'' [\<lparr>su_kind = ''User'', su_name = ''alice''\<rparr>]))
       (O_RoleBinding (binding ''Role'' ''viewer'' []))) rbac_warm)) (cacheKey (alice [])) = None"
proof (rule rbac_warm_entry)
  fix c
  assume "map_of (scopes rbac_warm) (cacheKey (alice [])) = Some c" and "cs_id c = alice []"
  with binding_update_evicts [OF rbac_warm_ok, of "some_listers []"
      "binding ''Role'' ''viewer'' [\<lparr>su_kind = ''User'', su_name = ''alice''\<rparr>]"
      "binding ''Role'' ''viewer'' []" "cacheKey (alice [])"] alice_affected show ?thesis
    by (simp add: binding_def)
qed

text \<open>
  A changed role evicts exactly the callers bound to it: for a Role the bindings of its own
  namespace that refer to it count, whether the deletion arrives directly or as a tombstone; a
  namespaced binding to a cluster role of the same name does not.
\<close>

theorem role_change_evicts:
  assumes "rbac_ok kc s" and "role_bindings_in ls (om_namespace (ro_meta r)) = Inr bs"
    and "x = O_Role r \<or> x = O_DeletedFinalStateUnknown (O_Role r)"
  shows "map_of (scopes (handle ls I_Roles (Deleted x) s)) k
    = (case map_of (scopes s) k of None \<Rightarrow> None
       | Some c \<Rightarrow> if (\<exists>b \<in> set bs. rr_kind (bo_role_ref b) = ''Role''
             \<and> rr_name (bo_role_ref b) = om_name (ro_meta r) \<and> affected (bo_subjects b) (cs_id c))
           then None else Some c)"
  using assms(2,3) invalidateSubjects_spec [OF assms(1), of "bound_subjects ''Role'' (om_name (ro_meta r)) bs"
      ResourceRole]
  by (auto simp: evicts_exactly_def affected_bound onRoleChanged_def unwrapTombstone_def)

theorem role_change_evicts_witness:
  "map_of (scopes (handle (some_listers [binding ''Role'' ''viewer''
       [\<lparr>su_kind = ''User'', su_name = ''alice''\<rparr>]]) I_Roles (Deleted (O_Role
         \<lparr>ro_meta = \<lparr>om_name = ''viewer'', om_namespace = ''pay'', om_managed_fields = [],
            om_annotations = [], om_labels = []\<rparr>, ro_rules = None\<rparr>)) rbac_warm))
     (cacheKey (alice [])) = None"
proof (rule rbac_warm_entry)
  fix c
  let ?r = "\<lparr>ro_meta = \<lparr>om_name = ''viewer'', om_namespace = ''pay'', om_managed_fields = [],
            om_annotations = [], om_labels = []\<rparr>, ro_rules = None\<rparr>"
    and ?b = "binding ''Role'' ''viewer'' [\<lparr>su_kind = ''User'', su_name = ''alice''\<rparr>]"
  assume "map_of (scopes rbac_warm) (cacheKey (alice [])) = Some c" and "cs_id c = alice []"
  moreover have "role_bindings_in (some_listers [?b]) (om_namespace (ro_meta ?r)) = Inr [?b]"
    by (simp add: some_listers_def)
  ultimately show ?thesis
    using role_change_evicts [OF rbac_warm_ok, of "some_listers [?b]" ?r "[?b]" "O_Role ?r"
        "cacheKey (alice [])"] alice_affected
    by (simp add: binding_def)
qed


text \<open>
  The watch only ever takes away: however a run goes, the invariant holds and every entry
  left was there before; the gauge shows 1 exactly after a completed synchronisation and 0 after
  each way of giving up.
\<close>

theorem RunWatch_only_evicts:
  assumes "rbac_ok kc s" and "map_of (scopes (RunWatch w s)) k = Some c"
  shows "map_of (scopes s) k = Some c \<and> rbac_ok kc (RunWatch w s)
    \<and> RBACWatchActive (met (RunWatch w s)) =
        (if registration_fails w then 0 else case sync_outcome w of
           Synced \<Rightarrow> 1 | Ctx_Ended \<Rightarrow> RBACWatchActive (met s) | _ \<Rightarrow> 0)"
proof -
  have set: "scopes (set_watch_active n t) = scopes t" "RBACWatchActive (met (set_watch_active n t)) = n"
      "rbac_ok kc (set_watch_active n t) = rbac_ok kc t" for n and t :: "'a rbac_state"
    by (simp_all add: set_watch_active_def rbac_ok_def entry_ok_def)
  let ?e = "deliver (early_notices w) s"
  have e: "rbac_ok kc ?e" "RBACWatchActive (met ?e) = RBACWatchActive (met s)"
    using deliver_ok [OF assms(1)] deliver_frame [OF assms(1)] by (simp_all add: rbac_frame_def)
  have l: "rbac_ok kc (set_watch_active 1 ?e)" using e set by simp
  have late: "rbac_ok kc (deliver (late_notices w) (set_watch_active 1 ?e))"
      "RBACWatchActive (met (deliver (late_notices w) (set_watch_active 1 ?e))) = 1"
    using deliver_ok [OF l] deliver_frame [OF l] set by (simp_all add: rbac_frame_def)
  have shrink: "map_of (scopes ?e) k = Some c \<Longrightarrow> map_of (scopes s) k = Some c"
    "map_of (scopes (deliver (late_notices w) (set_watch_active 1 ?e))) k = Some c \<Longrightarrow>
      map_of (scopes s) k = Some c"
    using deliver_shrinks [OF assms(1)] deliver_shrinks [OF l] set by metis+
  show ?thesis
    using assms e late shrink
    by (cases "registration_fails w"; cases "sync_outcome w") (simp_all add: RunWatch_def set Let_def)
qed

definition example_watch :: watch_run where
  "example_watch = \<lparr>registration_fails = False, early_notices = [], sync_outcome = Synced,
     late_notices = []\<rparr>"

theorem RunWatch_only_evicts_witness:
  "RBACWatchActive (met (RunWatch example_watch rbac_warm)) = 1"
proof (rule rbac_warm_entry)
  fix c
  assume "map_of (scopes rbac_warm) (cacheKey (alice [])) = Some c"
  then have "map_of (scopes (RunWatch example_watch rbac_warm)) (cacheKey (alice [])) = Some c"
    by (simp add: RunWatch_def example_watch_def deliver_def set_watch_active_def)
  from RunWatch_only_evicts [OF rbac_warm_ok this] show ?thesis by (simp add: example_watch_def)
qed

section \<open>Sweeping\<close>

text \<open>
  The sweeper drops exactly the expired scopes and changes nothing else; with a TTL that is
  not positive it panics at start-up instead.
\<close>

theorem scope_sweep_exact:
  assumes "rbac_ok kc s"
  shows "map_of (scopes (sweepScopes s)) k = (case map_of (scopes s) k of None \<Rightarrow> None
        | Some c \<Rightarrow> if fst (now s) < cs_expires c then Some c else None)
    \<and> rbac_ok kc (sweepScopes s) \<and> met (sweepScopes s) = met s
    \<and> (RunScopeSweeper evs s = Panics \<longleftrightarrow> ra_ttl (auth s) \<le> 0)"
  using evictExpired_spec [OF assms, of k]
  by (auto simp: sweepScopes_def now_eq RunScopeSweeper_def evictExpired_def split: option.split)

theorem scope_sweep_exact_witness:
  "met (sweepScopes rbac_warm) = met rbac_warm \<and> RunScopeSweeper [Sweep_Tick] rbac_warm \<noteq> Panics"
proof -
  have "ra_ttl (auth rbac_warm) = 60" by code_simp
  with scope_sweep_exact [OF rbac_warm_ok] show ?thesis by simp
qed

section \<open>The proxy under RBAC\<close>

lemma rbac_timer:
  "rbac_ok kc (observe (\<lambda>m. m\<lparr>ScopeResolutionDuration := f m\<rparr>) s) \<longleftrightarrow> rbac_ok kc s"
  "rbac_ok kc (observe (\<lambda>m. m\<lparr>RequestDuration := g m\<rparr>) s) \<longleftrightarrow> rbac_ok kc s"
  by (simp_all add: rbac_ok_def entry_ok_def)

interpretation rbac_timed: authorizer "Instrumented (RbacAllowed kc) ''rbac''" "rbac_ok kc"
    "\<lambda>s s' i sc. served_from kc i sc s s'" for kc
  by (rule rbac_az.Instrumented_contract) (simp_all add: rbac_timer served_from_def)

interpretation rbac_handler: handler_authorizer "Instrumented (RbacAllowed kc) ''rbac''" "rbac_ok kc"
    "\<lambda>s s' i sc. served_from kc i sc s s'" for kc
proof (unfold_locales, goal_cases)
  case (3 s s1 i sc s2)
  then show ?case by (intro served_from_later [OF 3(1)]) (simp add: served_frame_def)
qed (simp_all add: rbac_timer served_from_def)

text \<open>Alice polls through the proxy in RBAC mode.\<close>

definition alice_request :: request where
  "alice_request = \<lparr>rq_path = ''/api/service-map-stream'',
     rq_header = [(''X-Auth-Request-User'', [''alice'']),
       (''X-Auth-Request-Email'', [''alice@example.com''])], rq_rest = []\<rparr>"

definition alice_batch :: events_response where
  "alice_batch = \<lparr>er_events = [service_event ''a'' ''pay'', service_event ''b'' ''db''], er_rest = []\<rparr>"

definition alice_codec :: codec where
  "alice_codec = table_codec [] [(alice_batch, [1]),
       (\<lparr>er_events = [service_event ''a'' ''pay''], er_rest = []\<rparr>, [2])]
     [(bob_message [1], [10, 1]), (bob_message [2], [10, 2])]"

lemma alice_identity: "From (px_headers (example_proxy both)) (rq_header alice_request) = Inr (alice [])"
proof -
  have "px_headers (example_proxy both) = NewHeaders AuthRequestPrefix" by (simp add: example_proxy_def)
  moreover have "From (NewHeaders AuthRequestPrefix) (rq_header alice_request) = Inr (alice [])"
    by code_simp
  ultimately show ?thesis by simp
qed

definition alice_authorized :: "rbac_authorizer reg_state" where
  "alice_authorized = count_request routeServiceMapStre OutcomeFiltered
     (snd (Instrumented (RbacAllowed (pay_only (\<lambda>_. True))) ''rbac'' (alice [])
        (timed (example_proxy True) alice_request (rbac_start int))))"

lemma alice_api: "has_prefix (rq_path alice_request) (apiPrefix (example_proxy both))"
  by (simp add: alice_request_def example_proxy_def has_prefix_def)

lemma alice_route: "request_route (example_proxy both) alice_request = routeServiceMapStre"
  by (simp add: request_route_def alice_request_def example_proxy_def trim_prefix_def has_prefix_def
      knownRoute_def routeServiceMapStre_def)

lemma alice_served:
  "fst (ServeHTTP (Instrumented (RbacAllowed (pay_only (\<lambda>_. True))) ''rbac'') alice_codec
     (example_proxy True) (bob_upstream []) alice_request (rbac_start int)) = Relayed (bob_served [10, 2])"
proof -
  let ?s = "timed (example_proxy True) alice_request (rbac_start int)"
  obtain res s1 where al: "Instrumented (RbacAllowed (pay_only (\<lambda>_. True))) ''rbac'' (alice []) ?s
      = (res, s1)" by fastforce
  have "fst (Instrumented (RbacAllowed (pay_only (\<lambda>_. True))) ''rbac'' (alice []) ?s) = Inr pay_scope"
    unfolding timed_def alice_route by code_simp
  with al have res: "res = Inr pay_scope" by simp
  have "fst (rp_ServeHTTP alice_codec (example_proxy True) (bob_upstream [])
      (Some \<lparr>filtered = True, ri_scope = pay_scope, ri_id = alice []\<rparr>) alice_request alice_authorized)
    = Relayed (bob_served [10, 2])"
    unfolding alice_authorized_def timed_def alice_route by code_simp
  with al res show ?thesis
    by (simp add: ServeHTTP_api [OF alice_api] alice_identity alice_authorized_def alice_route)
qed

end
