(* ===== verification/Exported_Series.thy ===== *)
theory Exported_Series
  imports Rbac_Properties
begin

text \<open>
  Which metric series the process can come to export. \<open>reports m m'\<close> says that between \<open>m\<close> and
  \<open>m'\<close> no series disappears and every new one is among the label combinations declared at
  start-up; every operation of the proxy, the registry and the two authorizers is of that kind.
\<close>

section \<open>Growing within a vocabulary\<close>

definition vec_grows :: "labels set \<Rightarrow> counter_vec \<Rightarrow> counter_vec \<Rightarrow> bool" where
  "vec_grows D v v' \<longleftrightarrow> series v \<subseteq> series v' \<and> series v' \<subseteq> series v \<union> D"

lemma vec_grows_within: "vec_grows D v v' \<Longrightarrow> series v \<subseteq> D \<Longrightarrow> series v' \<subseteq> D"
  by (auto simp: vec_grows_def)

lemma vec_grows_refl [simp]: "vec_grows D v v"
  by (simp add: vec_grows_def)

lemma vec_grows_trans: "vec_grows D v v1 \<Longrightarrow> vec_grows D v1 v2 \<Longrightarrow> vec_grows D v v2"
  by (auto simp: vec_grows_def)

lemma vec_grows_step [simp]:
  "ls \<in> D \<Longrightarrow> vec_grows D v (vec_inc ls v)" "ls \<in> D \<Longrightarrow> vec_grows D v (with_label_values ls v)"
  by (auto simp: vec_grows_def)

definition reports :: "metrics \<Rightarrow> metrics \<Rightarrow> bool" where
  "reports m m' \<longleftrightarrow>
     vec_grows (request_labels KnownRoutes) (RequestsTotal m) (RequestsTotal m')
     \<and> vec_grows (singleton_labels KnownRoutes) (RequestDuration m) (RequestDuration m')
     \<and> vec_grows event_labels (EventsTotal m) (EventsTotal m')
     \<and> vec_grows (singleton_labels [''hit'', ''miss'']) (ScopeCacheTotal m) (ScopeCacheTotal m')
     \<and> vec_grows (singleton_labels [''static'', ''rbac'']) (ScopeResolutionDuration m)
         (ScopeResolutionDuration m')
     \<and> vec_grows (singleton_labels mappingReloadResults) (MappingReloads m) (MappingReloads m')
     \<and> vec_grows (singleton_labels invalidationResources) (RBACCacheInvalidationsTotal m)
         (RBACCacheInvalidationsTotal m')"

lemma reports_refl [simp]: "reports m m"
  by (simp add: reports_def)

lemma reports_trans: "reports m m1 \<Longrightarrow> reports m1 m2 \<Longrightarrow> reports m m2"
  unfolding reports_def using vec_grows_trans by meson

lemma reports_labels: "labels_exactly KnownRoutes m \<Longrightarrow> reports m m' \<Longrightarrow> labels_exactly KnownRoutes m'"
  unfolding labels_exactly_def reports_def vec_grows_def by auto

lemma reports_gauges [simp]:
  "reports m (m\<lparr>TrackedChannels := n\<rparr>)" "reports m (m\<lparr>ChannelEvictionsTotal := n\<rparr>)"
  "reports m (m\<lparr>EmptyScopeNotifications := n\<rparr>)" "reports m (m\<lparr>SubjectAccessReviewsTotal := n\<rparr>)"
  "reports m (m\<lparr>RBACWatchActive := n\<rparr>)" "reports m (m\<lparr>MappingLastReload := t\<rparr>)"
  by (simp_all add: reports_def)

text \<open>The state of a process, seen through its collectors.\<close>

definition reported :: "'a go_state_scheme \<Rightarrow> 'b go_state_scheme \<Rightarrow> bool" where
  "reported s s' \<longleftrightarrow> reports (met s) (met s')"

lemma reported_refl [simp]: "reported s s"
  and reported_trans: "reported s s1 \<Longrightarrow> reported s1 s2 \<Longrightarrow> reported s s2"
  and reported_same: "met s' = met s \<Longrightarrow> reported s s'"
  using reports_trans by (auto simp: reported_def)

lemma reported_counters [simp]:
  "k \<in> set eventKinds \<Longrightarrow> d = ''kept'' \<or> d = ''dropped'' \<Longrightarrow> reported s (count_event k d s)"
  "route \<in> set KnownRoutes \<Longrightarrow> oc \<in> set RequestOutcomes \<Longrightarrow> reported s (count_request route oc s)"
  "reported s (count_request RouteNone OutcomePassthrough s)"
  "route \<in> set KnownRoutes \<Longrightarrow> reported s (observe_duration route s)"
  "r = ''hit'' \<or> r = ''miss'' \<Longrightarrow> reported s (count_lookup r s)"
  "resource \<in> set invalidationResources \<Longrightarrow> reported s (count_invalidation resource s)"
  "res \<in> set mappingReloadResults \<Longrightarrow> reported s (count_reload res s)"
  "reported s (set_last_reload s)" "reported s (set_watch_active n s)"
  by (auto simp: reported_def reports_def count_event_def count_request_def observe_duration_def
      count_lookup_def count_invalidation_def count_reload_def set_last_reload_def set_watch_active_def
      now_eq event_labels_def request_labels_def singleton_labels_def)

lemma reported_timed [simp]: "reported s (timed p r s)"
  by (simp add: timed_def reported_def reports_def singleton_labels_def request_route_def knownRoute_known)

section \<open>The registry and the filters\<close>

lemma reg_frame_reported: "reg_frame s s' \<Longrightarrow> reported s s'"
proof -
  assume "reg_frame s s'"
  then have eq: "(met s')\<lparr>TrackedChannels := 0, ChannelEvictionsTotal := 0\<rparr>
      = (met s)\<lparr>TrackedChannels := 0, ChannelEvictionsTotal := 0\<rparr>"
    by (simp add: reg_frame_def)
  show ?thesis
    unfolding reported_def reports_def
    using arg_cong [OF eq, of RequestsTotal] arg_cong [OF eq, of RequestDuration]
      arg_cong [OF eq, of EventsTotal] arg_cong [OF eq, of ScopeCacheTotal]
      arg_cong [OF eq, of ScopeResolutionDuration] arg_cong [OF eq, of MappingReloads]
      arg_cong [OF eq, of RBACCacheInvalidationsTotal] by simp
qed

lemma Lookup_met [simp]: "Lookup c v s = (a, s') \<Longrightarrow> met s' = met s"
  by (auto simp: Lookup_def now_eq modify_channel_def Let_def split: option.splits)

lemma Remember_reported: "reg_ok s \<Longrightarrow> reported s (Remember c v n s)"
  by (cases "c = [] \<or> v = []") (auto simp: Remember_ignored Remember_spec reg_frame_reported)

lemma RememberPeer_reported: "reg_ok s \<Longrightarrow> reported s (RememberPeer c v s)"
  by (cases "c = [] \<or> v = []") (auto simp: RememberPeer_ignored RememberPeer_spec reg_frame_reported)

lemma learn_services_reported: "reg_ok s \<Longrightarrow> reported s (learn_services c evs s)"
proof (induction c evs s rule: learn_services.induct)
  case (2 c ev evs s)
  then show ?case
    using reported_trans [OF Remember_reported [OF "2.prems"]] ok_Remember [OF "2.prems"]
    by (auto split: option.split)
qed simp

lemma learn_peers_reported: "reg_ok s \<Longrightarrow> reported s (learn_peers c sc evs s)"
proof (induction evs arbitrary: s)
  case (Cons ev evs)
  show ?case
  proof (cases "event_link ev")
    case (Some link)
    obtain a s1 where l1: "Lookup c (sl_source_id link) s = (a, s1)" by fastforce
    obtain b s2 where l2: "Lookup c (sl_destination_id link) s1 = (b, s2)" by fastforce
    from Lookup_twice(3) [OF Cons.prems l1 l2] l1 l2 have s2: "reported s s2" "reg_ok s2"
      by (simp_all add: same_memory_def on_channel_def reported_same)
    define s3 where "s3 = (\<lambda>x y. if in_scope sc x \<and> \<not> in_scope sc y
      then RememberPeer c (sl_destination_id link) s2 else s2)"
    define s4 where "s4 = (\<lambda>x y. if in_scope sc y \<and> \<not> in_scope sc x
      then RememberPeer c (sl_source_id link) (s3 x y) else s3 x y)"
    have s3: "reported s (s3 x y)" "reg_ok (s3 x y)" for x y
      using s2 reported_trans [OF s2(1) RememberPeer_reported [OF s2(2)]] ok_RememberPeer [OF s2(2)]
      by (simp_all add: s3_def)
    have s4: "reported s (s4 x y)" "reg_ok (s4 x y)" for x y
      using s3 reported_trans [OF s3(1) RememberPeer_reported [OF s3(2)]] ok_RememberPeer [OF s3(2)]
      by (simp_all add: s4_def)
    have "learn_peers c sc (ev # evs) s = (case (a, b) of
        (Some x, Some y) \<Rightarrow> learn_peers c sc evs (s4 x y) | _ \<Rightarrow> learn_peers c sc evs s2)"
      using Some l1 l2 by (simp add: s3_def s4_def Let_def split: option.split)
    then show ?thesis
      using reported_trans [OF s2(1) Cons.IH [OF s2(2)]] reported_trans [OF s4(1) Cons.IH [OF s4(2)]]
      by (simp split: option.split)
  qed (use Cons in simp)
qed simp

lemma eventVisible_met: "eventVisible p c ev sc s = (r, s') \<Longrightarrow> met s' = met s"
  by (auto simp: eventVisible_def Let_def split: option.splits event_case.splits if_splits prod.splits)

lemma keep_events_reported: "reported s (snd (keep_events p c sc evs s))"
proof (induction evs arbitrary: s)
  case (Cons ev evs)
  obtain r s1 where v: "eventVisible p c ev sc s = (r, s1)" by fastforce
  have "reported s (count_event (eventKind ev) d s1)" if "d = ''kept'' \<or> d = ''dropped''" for d
    using reported_trans [OF reported_same [OF eventVisible_met [OF v]]
        reported_counters(1) [OF eventKind_known that]] .
  with Cons.IH v reported_trans show ?case
    by (fastforce split: option.split prod.split)
qed simp

lemma keep_namespaces_reported: "reported s (snd (keep_namespaces sc ns s))"
proof (induction ns arbitrary: s)
  case (Cons n ns)
  have "reported s (count_event ''namespace_state'' d s)" if "d = ''kept'' \<or> d = ''dropped''" for d
    using that by (auto simp: eventKinds_def)
  with Cons.IH reported_trans show ?case
    by (fastforce split: prod.split)
qed simp

lemma MarkEmptyScopeNotified_reported:
  assumes "reg_ok s" and "MarkEmptyScopeNotified c s = (b, s')"
  shows "reported s s'"
proof (cases "c = []")
  case True
  with assms(2) show ?thesis by (simp add: MarkEmptyScopeNotified_def)
next
  case False
  from MarkEmptyScopeNotified_spec(3) [OF assms(1) False assms(2)] show ?thesis
    by (rule reg_frame_reported)
qed

lemma keep_namespaces_ok: "reg_ok s \<Longrightarrow> reg_ok (snd (keep_namespaces sc ns s))"
  by (induction sc ns s rule: keep_namespaces.induct)
    (auto simp: reg_ok_def count_event_def split: prod.split)

lemma filterControlStream_reported:
  assumes ok: "reg_ok s" and run: "filterControlStream cd p c body sc i s = (res, s')"
  shows "reported s s'"
proof (cases "unmarshal_control cd body")
  case (Inl e)
  with run show ?thesis by (simp add: filterControlStream_def)
next
  case (Inr resp)
  show ?thesis
  proof (cases "control_namespaces resp")
    case None
    with run Inr show ?thesis by (simp add: filterControlStream_def)
  next
    case (Some states)
    obtain kept s1 where k: "keep_namespaces sc (nss_namespaces states) s = (kept, s1)" by fastforce
    with keep_namespaces_reported [of s sc "nss_namespaces states"]
      keep_namespaces_ok [OF ok, of sc "nss_namespaces states"]
    have s1: "reported s s1" "reg_ok s1" by simp_all
    let ?due = "notifyEmptyScope p \<and> length (sc_namespaces sc) = 0"
    obtain b s2 where m: "(if ?due then MarkEmptyScopeNotified c s1 else (False, s1)) = (b, s2)"
      by fastforce
    then have "reported s1 s2"
      using MarkEmptyScopeNotified_reported [OF s1(2)] by (auto split: if_splits)
    with s1 have s2: "reported s s2" using reported_trans by blast
    have "s' = s2 \<or> s' = observe (\<lambda>m. m\<lparr>EmptyScopeNotifications := Suc (EmptyScopeNotifications m)\<rparr>) s2"
      using run Inr Some k m by (auto simp: filterControlStream_def Let_def split: if_splits)
    with s2 show ?thesis by (auto simp: reported_def reports_def)
  qed
qed

lemma filterServiceMapStream_reported:
  assumes ok: "reg_ok s" and run: "filterServiceMapStream cd p c body sc s = (res, s')"
  shows "reported s s'"
proof (cases "unmarshal_events cd body")
  case (Inl e)
  with run show ?thesis by (simp add: filterServiceMapStream_def)
next
  case (Inr resp)
  let ?s1 = "learned p c sc (er_events resp) s"
  have l: "reported s (learn_services c (er_events resp) s)" "reg_ok (learn_services c (er_events resp) s)"
    using learn_services_reported [OF ok] learn_services_on_channel [OF ok] by (simp_all add: on_channel_def)
  then have "reported s ?s1"
    using reported_trans [OF l(1) learn_peers_reported [OF l(2)]] by (simp add: learned_def Let_def)
  moreover have "s' = snd (keep_events p c sc (er_events resp) ?s1)"
    using run Inr by (auto simp: filterServiceMapStream_def learned_def Let_def split: prod.splits)
  ultimately show ?thesis using reported_trans keep_events_reported by metis
qed

lemma filterBody_reported:
  assumes "reg_ok s" and "filterBody cd p route c body sc i s = (res, s')"
  shows "reported s s'"
  using assms filterControlStream_reported [OF assms(1)] filterServiceMapStream_reported [OF assms(1)]
  by (auto simp: filterBody_def split: if_splits)

section \<open>The handler\<close>

lemma filterResponse_reported:
  assumes ok: "reg_ok s" and run: "filterResponse cd p r ctx up s = (res, s')"
  shows "reported s s'"
proof (cases ctx)
  case None
  with run show ?thesis by (simp add: filterResponse_def)
next
  case (Some info)
  show ?thesis
  proof (cases "filtered info \<and> \<not> passes_unfiltered (ri_scope info) up")
    case False
    with run Some filterResponse_unfiltered [of info up cd p r s] show ?thesis by auto
  next
    case True
    with run Some filterBody_reported [OF ok] show ?thesis
      by (auto simp: filterResponse_filters split: if_splits sum.splits prod.splits)
  qed
qed

lemma ErrorHandler_reported: "reported s (snd (ErrorHandler p r e s))"
  by (simp add: ErrorHandler_def Let_def knownRoute_known)

lemma rp_ServeHTTP_reported:
  assumes ok: "reg_ok s"
  shows "reported s (snd (rp_ServeHTTP cd p up ctx r s))"
proof (cases "round_trip up (Rewrite up r)")
  case (Inl e)
  then show ?thesis by (simp add: rp_ServeHTTP_def ErrorHandler_reported)
next
  case (Inr ur)
  obtain res s1 where fr: "filterResponse cd p (Rewrite up r) ctx ur s = (res, s1)" by fastforce
  have s1: "reported s s1" by (rule filterResponse_reported [OF ok fr])
  with fr Inr reported_trans [OF s1 ErrorHandler_reported] show ?thesis
    by (cases res) (simp_all add: rp_ServeHTTP_def split: option.split)
qed

text \<open>An authorizer that keeps to the vocabulary makes a handler that does.\<close>

locale reporting_authorizer = handler_authorizer allowed inv justified
  for allowed :: "identity \<Rightarrow> ('az, 'b) reg_state_scheme
                    \<Rightarrow> (go_error + scope) \<times> ('az, 'b) reg_state_scheme"
    and inv :: "('az, 'b) reg_state_scheme \<Rightarrow> bool"
    and justified :: "('az, 'b) reg_state_scheme \<Rightarrow> ('az, 'b) reg_state_scheme \<Rightarrow> identity \<Rightarrow> scope \<Rightarrow> bool" +
  assumes allowed_reported: "allowed i s = (res, s') \<Longrightarrow> reported s s'"
begin

lemma ServeHTTP_reported:
  assumes ok: "reg_ok s"
  shows "reported s (snd (ServeHTTP allowed cd p up r s))"
proof (cases "has_prefix (rq_path r) (apiPrefix p)")
  case False
  have "reported s (count_request RouteNone OutcomePassthrough s)" by simp
  from reported_trans [OF this rp_ServeHTTP_reported] ok False show ?thesis
    by (simp add: ServeHTTP_def)
next
  case True
  let ?route = "request_route p r"
  have route: "?route \<in> set KnownRoutes" by (simp add: request_route_def knownRoute_known)
  note last = reported_counters(4) [OF route]
  note outcome = reported_counters(2) [OF route]
  show ?thesis
  proof (cases "From (px_headers p) (rq_header r)")
    case (Inl e)
    have "reported s (observe_duration ?route (count_request ?route OutcomeUnauthenticated (timed p r s)))"
      by (rule reported_trans [OF reported_trans [OF reported_timed outcome] last]) simp
    with Inl show ?thesis by (simp add: ServeHTTP_api [OF True])
  next
    case (Inr i)
    obtain res s1 where al: "allowed i (timed p r s) = (res, s1)" by fastforce
    have s1: "reported s s1" by (rule reported_trans [OF reported_timed allowed_reported [OF al]])
    have ok1: "reg_ok s1" using authorized_registry(1) [OF al] ok by simp
    have s2: "reported s (count_request ?route oc s1)" if "oc \<in> set RequestOutcomes" for oc
      using reported_trans [OF s1 outcome [OF that]] .
    show ?thesis
    proof (cases res)
      case (Inl e)
      have "reported s (observe_duration ?route (count_request ?route OutcomeAuthzError s1))"
        by (rule reported_trans [OF s2 last]) simp
      with Inr al Inl show ?thesis by (simp add: ServeHTTP_api [OF True])
    next
      case (Inr sc)
      let ?s2 = "count_request ?route OutcomeFiltered s1"
      have "reg_ok ?s2" using ok1 by simp
      from reported_trans [OF reported_trans [OF s2 rp_ServeHTTP_reported [OF this]] last]
      show ?thesis using \<open>From (px_headers p) (rq_header r) = Inr i\<close> al Inr
        by (simp add: ServeHTTP_api [OF True] snd_map_prod)
    qed
  qed
qed

end

section \<open>The authorizers\<close>

lemma Instrumented_reported:
  assumes "mode \<in> {''static'', ''rbac''}" and "\<And>s res s'. az i s = (res, s') \<Longrightarrow> reported s s'"
    and "Instrumented az mode i s = (res, s')"
  shows "reported s s'"
  using assms(3)
proof (rule Instrumented_cases)
  fix s1
  let ?s0 = "observe (\<lambda>m. m\<lparr>ScopeResolutionDuration :=
        with_label_values [mode] (ScopeResolutionDuration m)\<rparr>) s"
  assume "az i ?s0 = (res, s1)" and s': "s' = observe (\<lambda>m. m\<lparr>ScopeResolutionDuration :=
        vec_inc [mode] (ScopeResolutionDuration m)\<rparr>) s1"
  then have "reported ?s0 s1" using assms(2) by blast
  moreover have "reported s ?s0" and "reported s1 s'"
    using assms(1) by (auto simp: s' reported_def reports_def singleton_labels_def)
  ultimately show ?thesis using reported_trans by blast
qed

lemma canListPods_reported: "canListPods kc d i ns s = (res, s') \<Longrightarrow> reported s s'"
  by (auto simp: canListPods_def now_eq Let_def reported_def reports_def)

lemma review_each_reported: "review_each kc d i nss err allowed s = (err', allowed', s') \<Longrightarrow> reported s s'"
proof (induction nss arbitrary: err allowed s)
  case (Cons ns nss)
  obtain res s1 where c: "canListPods kc d i ns s = (res, s1)" by fastforce
  obtain e2 a2 where "review_each kc d i nss e2 a2 s1 = (err', allowed', s')"
    using Cons.prems c by (cases res) simp_all
  from reported_trans [OF canListPods_reported [OF c] Cons.IH [OF this]] show ?case .
qed simp

lemma resolve_reported:
  assumes "resolve kc d i s = (res, s')"
  shows "reported s s'"
proof -
  obtain r s1 where c: "canListPods kc d i [] s = (r, s1)" by fastforce
  note first = canListPods_reported [OF c]
  obtain t s2 where n: "now s1 = (t, s2)" by fastforce
  have "reported s1 s2" using n by (intro reported_same) (auto simp: now_eq)
  then have s2: "reported s s2" by (rule reported_trans [OF first])
  show ?thesis
  proof (cases "r = Inr False")
    case False
    with assms c first show ?thesis by (auto simp: resolve_def split: sum.splits bool.splits)
  next
    case True
    show ?thesis
    proof (cases "list_namespaces kc (ticks (rt s1)) d")
      case (Inl e)
      with assms c n True s2 show ?thesis by (simp add: resolve_def)
    next
      case (Inr names)
      obtain order s3 where o: "range_map (map (\<lambda>name. (name, ())) names) s2 = (order, s3)" by fastforce
      obtain err allowed s4 where r: "review_each kc d i order None [] s3 = (err, allowed, s4)"
        by (metis prod_cases3)
      have "reported s2 s3" using o by (auto simp: range_map_eq intro: reported_same)
      from reported_trans [OF reported_trans [OF s2 this] review_each_reported [OF r]]
      show ?thesis using assms c n True Inr o r by (simp add: resolve_def split: option.splits)
    qed
  qed
qed

lemma met_evictExpired [simp]: "met (evictExpired s) = met s"
  by (simp add: evictExpired_def now_eq)

lemma met_store [simp]: "met (store key sc i s) = met s"
  by (simp add: store_def now_eq range_map_eq Let_def)

lemma met_cached: "cached key s = (r, s') \<Longrightarrow> met s' = met s"
  by (auto simp: cached_def now_eq Let_def split: option.splits if_splits)

lemma RbacAllowed_reported:
  assumes "RbacAllowed kc i s = (res, s')"
  shows "reported s s'"
proof -
  obtain hit s1 where h: "cached (cacheKey i) s = (hit, s1)" by fastforce
  have s1: "reported s s1" by (rule reported_same [OF met_cached [OF h]])
  show ?thesis
  proof (cases hit)
    case (Some sc)
    have "reported s (count_lookup ''hit'' s1)" by (rule reported_trans [OF s1]) simp
    with assms h Some show ?thesis by (simp add: RbacAllowed_def)
  next
    case miss: None
    obtain again s2 where a: "cached (cacheKey i) (count_lookup ''miss'' s1) = (again, s2)" by fastforce
    have "reported s (count_lookup ''miss'' s1)" by (rule reported_trans [OF s1]) simp
    from reported_trans [OF this reported_same [OF met_cached [OF a]]] have s2: "reported s s2" .
    show ?thesis
    proof (cases again)
      case (Some sc)
      with assms h miss a s2 show ?thesis by (simp add: RbacAllowed_def)
    next
      case None
      obtain t s3 where n: "now s2 = (t, s3)" by fastforce
      obtain res' s4 where r: "resolve kc (t + ra_ttl (auth s3)) i s3 = (res', s4)" by fastforce
      have "reported s2 s3" using n by (auto simp: now_eq intro: reported_same)
      from reported_trans [OF reported_trans [OF s2 this] resolve_reported [OF r]] have s4: "reported s s4" .
      have "s' = s4 \<or> (\<exists>sc. s' = store (cacheKey i) sc i s4)"
        using assms h miss a None n r by (cases res') (auto simp: RbacAllowed_def)
      with s4 show ?thesis by (auto simp: reported_def)
    qed
  qed
qed

lemma StaticAllowed_state: "StaticAllowed i s = (res, s') \<Longrightarrow> s' = s"
  by (auto simp: StaticAllowed_def Let_def split: if_splits)

interpretation static_reporting: reporting_authorizer "Instrumented StaticAllowed ''static''" "\<lambda>_. True"
    "\<lambda>s s'. static_justified s"
proof (unfold_locales, goal_cases)
  case (1 i s res s')
  then show ?case
    by (rule Instrumented_reported [rotated -1]) (auto dest: StaticAllowed_state)
qed

interpretation rbac_reporting: reporting_authorizer "Instrumented (RbacAllowed kc) ''rbac''" "rbac_ok kc"
    "\<lambda>s s' i sc. served_from kc i sc s s'" for kc
proof (unfold_locales, goal_cases)
  case (1 i s res s')
  then show ?case
    by (rule Instrumented_reported [rotated -1]) (auto dest: RbacAllowed_reported)
qed

section \<open>Background work\<close>

lemma evict_matching_reported:
  "resource \<in> set invalidationResources \<Longrightarrow> reported s (evict_matching matched resource ks s)"
proof (induction matched resource ks s rule: evict_matching.induct)
  case (2 matched r k ks s)
  have "reported s (count_invalidation r (set_scopes m s))" for m
    by (rule reported_trans [OF reported_same reported_counters(6) [OF "2.prems"]]) simp
  with 2 reported_trans show ?case by (fastforce split: option.split)
qed simp

lemma invalidate_reported:
  "resource \<in> set invalidationResources \<Longrightarrow> reported s (invalidateSubjects xs resource s)"
  "reported s (invalidateNamespace ns s)"
proof -
  have range: "reported s s1" if "range_map m s = (ks, s1)" for m :: "cachedScope gomap" and ks s1
    using that by (auto simp: range_map_eq intro: reported_same)
  obtain ks s1 where r: "range_map (scopes s) s = (ks, s1)" by fastforce
  show "resource \<in> set invalidationResources \<Longrightarrow> reported s (invalidateSubjects xs resource s)"
    using r reported_trans [OF range [OF r] evict_matching_reported]
    by (simp add: invalidateSubjects_def Let_def)
  have "ResourceNamespace \<in> set invalidationResources" by (simp add: invalidationResources_def)
  then show "reported s (invalidateNamespace ns s)"
    using r reported_trans [OF range [OF r] evict_matching_reported]
    by (simp add: invalidateNamespace_def)
qed

lemma handle_reported: "reported s (handle ls w n s)"
proof -
  have res: "ResourceRole \<in> set invalidationResources" "ResourceClusterRole \<in> set invalidationResources"
    "ResourceRoleBinding \<in> set invalidationResources" "ResourceClusterRoleBinding \<in> set invalidationResources"
    by (simp_all add: invalidationResources_def)
  have role: "reported s (onRoleChanged ls ns name s)" "reported s (onClusterRoleChanged ls name s)" for ns name
    by (simp_all add: onRoleChanged_def onClusterRoleChanged_def invalidate_reported res split: sum.split)
  show ?thesis
    by (cases "(ls, w, n, s)" rule: handle.cases)
      (simp_all add: invalidate_reported role res split: obj.split)
qed

lemma reload_loop_reported: "reported s (reload_loop h u evs s)"
proof (induction evs arbitrary: s)
  case (Cons ev evs)
  show ?case
  proof (cases ev)
    case (File_Tick found)
    obtain res s1 where r: "reload h u found s = (res, s1)" by fastforce
    have s1: "reported s s1" using reload_met [of h u found s] r by (intro reported_same) simp
    have results: "ReloadError \<in> set mappingReloadResults" "ReloadUnchanged \<in> set mappingReloadResults"
      "ReloadChanged \<in> set mappingReloadResults" by (simp_all add: mappingReloadResults_def)
    have err: "reported s (count_reload ReloadError s1)"
      by (rule reported_trans [OF s1 reported_counters(7)]) (rule results)
    have ok: "reported s (set_last_reload (count_reload x s1))" if "x \<in> set mappingReloadResults" for x
      by (rule reported_trans [OF reported_trans [OF s1 reported_counters(7) [OF that]] reported_counters(8)])
    from Cons.IH reported_trans [OF err] reported_trans [OF ok] results r File_Tick show ?thesis
      by (auto split: sum.split bool.split)
  qed simp
qed simp

lemma RunReloader_reported: "reported s (RunReloader h u d evs s)"
  by (simp add: RunReloader_def reload_loop_reported)

end
