(* ===== verification/Deployment_Laws.thy ===== *)
theory Deployment_Laws
  imports Command Exported_Series
begin

text \<open>
  What holds of a process \<^verbatim>\<open>run\<close> has started, at every point of its life: the configuration it was
  given is the one in force, the invariants of registry and authorizer hold, and the mapping of the
  static mode was parsed from some content of the file.
\<close>

section \<open>What serving a request leaves alone\<close>

context handler_authorizer begin

text \<open>A request changes the authorizer's state by at most one resolution.\<close>

lemma ServeHTTP_frame:
  assumes ok: "reg_ok s"
  obtains "served_frame s (snd (ServeHTTP allowed cd p up r s))"
  | i res s1 where "has_prefix (rq_path r) (apiPrefix p)" and "From (px_headers p) (rq_header r) = Inr i"
      and "allowed i (timed p r s) = (res, s1)"
      and "served_frame s1 (snd (ServeHTTP allowed cd p up r s))"
proof (cases "has_prefix (rq_path r) (apiPrefix p)")
  case False
  have "reg_ok (count_request RouteNone OutcomePassthrough s)" using ok by simp
  from served_frame_trans [OF served_frame_counts(1) rp_ServeHTTP_frame [OF this]] False that(1)
  show ?thesis by (simp add: ServeHTTP_def)
next
  case True
  let ?route = "request_route p r"
  note twice = served_frame_trans [OF served_frame_counts(1) served_frame_counts(2)]
  show ?thesis
  proof (cases "From (px_headers p) (rq_header r)")
    case (Inl e)
    have "served_frame s (snd (ServeHTTP allowed cd p up r s))"
      using served_frame_trans [OF served_frame_counts(3) twice] Inl by (simp add: ServeHTTP_api [OF True])
    then show ?thesis by (rule that(1))
  next
    case (Inr i)
    obtain res s1 where al: "allowed i (timed p r s) = (res, s1)" by fastforce
    have ok1: "reg_ok (count_request ?route oc s1)" for oc
      using authorized_registry(1) [OF al] ok by simp
    show ?thesis
    proof (rule that(2) [OF True Inr al], cases res)
      case (Inl e)
      with Inr al twice show "served_frame s1 (snd (ServeHTTP allowed cd p up r s))"
        by (simp add: ServeHTTP_api [OF True])
    next
      case (Inr sc)
      from served_frame_trans [OF served_frame_trans [OF served_frame_counts(1) rp_ServeHTTP_frame [OF ok1]]
          served_frame_counts(2)]
      show "served_frame s1 (snd (ServeHTTP allowed cd p up r s))"
        using \<open>From (px_headers p) (rq_header r) = Inr i\<close> al Inr
        by (simp add: ServeHTTP_api [OF True])
    qed
  qed
qed

lemma allowed_services:
  assumes "allowed i s = (res, s')"
  shows "services s' = services s"
  using keeps_rest [OF assms] by (cases s; cases s') simp

end

section \<open>The invariant of a deployment\<close>

definition as_configured :: "config \<Rightarrow> ('az, 'b) reg_state_scheme \<Rightarrow> bool" where
  "as_configured cfg s \<longleftrightarrow>
     reg_ttl (services s) = cf_channelTTL cfg \<and> max_channels (services s) = cf_maxChannels cfg"

lemma as_configured_frame: "served_frame s s' \<Longrightarrow> as_configured cfg s \<Longrightarrow> as_configured cfg s'"
  by (simp add: served_frame_def as_configured_def)

fun deployment_ok :: "environment \<Rightarrow> config \<Rightarrow> process \<Rightarrow> bool" where
  "deployment_ok env cfg (Static_Process s) \<longleftrightarrow>
     process_ok s \<and> as_configured cfg s \<and> cf_mode cfg = ''static''
     \<and> (sa_m (auth s) = zero_mapping \<or> (\<exists>b. en_unmarshal env b = Inr (sa_m (auth s))))"
| "deployment_ok env cfg (Rbac_Process s) \<longleftrightarrow>
     process_ok s \<and> as_configured cfg s \<and> cf_mode cfg = ''rbac'' \<and> rbac_ok (en_kube env) s
     \<and> ra_ttl (auth s) = cf_rbacTTL cfg \<and> ra_maxCache (auth s) = defaultMaxCacheSize
     \<and> now_at (rt s) = now_at (en_runtime env)"

fun process_metrics :: "process \<Rightarrow> metrics" where
  "process_metrics (Static_Process s) = met s"
| "process_metrics (Rbac_Process s) = met s"

lemma process_ok_reported: "process_ok s \<Longrightarrow> reg_ok s' \<Longrightarrow> reported s s' \<Longrightarrow> process_ok s'"
  unfolding process_ok_def reported_def reports_def by (meson vec_grows_within)

lemma entry_ok_served:
  assumes "served_frame s s'" and "entry_ok kc s key c"
  shows "entry_ok kc s' key c"
proof -
  from assms(2) obtain n m where "key = cacheKey (cs_id c)" "n < m" "m < ticks (rt s)"
    "cs_expires c = now_at (rt s) m + ra_ttl (auth s)"
    "confirmed kc {n<..<m} (now_at (rt s) n + ra_ttl (auth s)) (cs_id c) (cs_scope c)"
    by (auto simp: entry_ok_def)
  with assms(1) show ?thesis unfolding entry_ok_def
    by (intro conjI exI [of _ n] exI [of _ m]) (simp_all add: served_frame_def)
qed

lemma rbac_ok_served: "served_frame s s' \<Longrightarrow> rbac_ok kc s \<Longrightarrow> rbac_ok kc s'"
  using entry_ok_served [of s s' kc] by (auto simp: rbac_ok_def served_frame_def)

section \<open>Starting\<close>

lemma start_state:
  "reg_ok (blank_process env a\<lparr>services := new_registry ttl cap\<rparr>)"
  by (rule new_registry_ok) (simp_all add: blank_process_def fresh_metrics_def)

lemma NewStaticAuthorizer_cases:
  assumes "NewStaticAuthorizer h u path found s = Inr s'"
  shows "s' = s\<lparr>auth := auth s'\<rparr> \<and> (sa_m (auth s') = zero_mapping \<or> (\<exists>b. u b = Inr (sa_m (auth s'))))"
  using assms
  by (cases s) (auto simp: NewStaticAuthorizer_def reload_def Let_def split: sum.splits if_splits)

lemma process_ok_start:
  assumes "reg_ok s" and "met s = fresh_metrics"
  shows "process_ok s" and "process_ok (observe (NewRegistry version KnownRoutes) s)"
proof -
  show "process_ok s" using assms by (simp add: process_ok_def fresh_metrics_def)
  have "labels_exactly KnownRoutes (NewRegistry version KnownRoutes fresh_metrics)"
    by (rule labels_at_start)
  moreover have "TrackedChannels (NewRegistry version KnownRoutes fresh_metrics) = 0"
    by (simp add: NewRegistry_def initLabelCombinations_def KnownRoutes_def RequestOutcomes_def eventKinds_def
        mappingReloadResults_def invalidationResources_def fresh_metrics_def Let_def)
  ultimately show "process_ok (observe (NewRegistry version KnownRoutes) s)"
    using assms by (simp add: process_ok_def reg_ok_def labels_exactly_def fresh_metrics_def)
qed

text \<open>What a successful start leaves behind, mode by mode.\<close>

lemma run_cases:
  assumes "run env version cfg = Inr l"
  obtains process bg where "start_authorizer env cfg = Inr (process, bg)"
    and "la_proxy l = NewProxy (cf_apiPrefix cfg) (cf_reqBoth cfg) (cf_identityPfx cfg)
          (cf_maxResponse cfg) (cf_notifyEmpty cfg)"
    and "la_mode l = cf_mode cfg" and "en_parse_url env (cf_backendURL cfg) = Inr (la_backend l)"
    and "la_background l = bg @ Bg_ChannelSweeper #
          (if cf_metricsListen cfg \<noteq> [] then [Bg_MetricsListener (cf_metricsListen cfg)] else [])"
    and "la_process l =
          (let P = install_registry (new_registry (cf_channelTTL cfg) (cf_maxChannels cfg)) process
           in if cf_metricsListen cfg \<noteq> [] then observe_process (NewRegistry version KnownRoutes) P else P)"
  using assms that
  by (auto simp: run_def Let_def split: sum.splits if_splits prod.splits)

lemma start_authorizer_cases:
  assumes "start_authorizer env cfg = Inr (P, bg)"
  obtains (static) s where "cf_mode cfg = ''static''" and "P = Static_Process s"
      and "bg = [Bg_Reloader (cf_mapReload cfg)]"
      and "s = blank_process env (auth s)"
      and "sa_m (auth s) = zero_mapping \<or> (\<exists>b. en_unmarshal env b = Inr (sa_m (auth s)))"
  | (rbac) a where "cf_mode cfg = ''rbac''" and "P = Rbac_Process (blank_process env a)"
      and "bg = Bg_ScopeSweeper # (if cf_rbacWatch cfg then [Bg_Watch] else [])"
      and "ra_ttl a = cf_rbacTTL cfg" and "ra_maxCache a = defaultMaxCacheSize" and "ra_cache a = []"
proof (cases "cf_mode cfg = ''static''")
  case True
  let ?z = "blank_process env \<lparr>sa_path = [], sa_m = zero_mapping, sa_sum = replicate 32 0\<rparr>"
  from True assms obtain s where s: "NewStaticAuthorizer (en_sha256 env) (en_unmarshal env) (cf_mapFile cfg)
      (en_read_file env (cf_mapFile cfg)) ?z = Inr s" "P = Static_Process s"
      "bg = [Bg_Reloader (cf_mapReload cfg)]"
    by (auto simp: start_authorizer_def split: sum.splits)
  from NewStaticAuthorizer_cases [OF s(1)] have "s = blank_process env (auth s)"
    "sa_m (auth s) = zero_mapping \<or> (\<exists>b. en_unmarshal env b = Inr (sa_m (auth s)))"
    by (auto simp: blank_process_def)
  with True s(2,3) show ?thesis by (rule static)
next
  case False
  with assms have mode: "cf_mode cfg = ''rbac''" by (auto simp: start_authorizer_def split: if_splits)
  with assms obtain a where a: "NewRbac (en_client env) (cf_rbacTTL cfg) (cf_rbacWorkers cfg) = Inr a"
      "P = Rbac_Process (blank_process env a)" "bg = Bg_ScopeSweeper # (if cf_rbacWatch cfg then [Bg_Watch] else [])"
    by (auto simp: start_authorizer_def split: sum.splits)
  from a(1) have "ra_ttl a = cf_rbacTTL cfg" "ra_maxCache a = defaultMaxCacheSize" "ra_cache a = []"
    by (auto simp: NewRbac_def newAuthorizer_def Let_def split: sum.splits)
  with mode a(2,3) show ?thesis by (rule rbac)
qed

lemma constructed_ok:
  "process_ok (blank_process env a\<lparr>services := new_registry ttl cap\<rparr>)"
  "process_ok (observe (NewRegistry version KnownRoutes) (blank_process env a\<lparr>services := new_registry ttl cap\<rparr>))"
  "labels_exactly KnownRoutes (NewRegistry version KnownRoutes (met (blank_process env a)))"
  using process_ok_start [OF start_state] labels_at_start by (simp_all add: blank_process_def)

lemma constructed_rbac:
  "ra_cache a = [] \<Longrightarrow> rbac_ok kc (observe f (blank_process env a\<lparr>services := r\<rparr>))"
  "ra_cache a = [] \<Longrightarrow> rbac_ok kc (blank_process env a\<lparr>services := r\<rparr>)"
  by (simp_all add: rbac_ok_def blank_process_def)

lemma as_configured_start:
  "as_configured cfg (observe f (s\<lparr>services := new_registry (cf_channelTTL cfg) (cf_maxChannels cfg)\<rparr>))"
  "as_configured cfg (s\<lparr>services := new_registry (cf_channelTTL cfg) (cf_maxChannels cfg)\<rparr>)"
  by (simp_all add: as_configured_def new_registry_def)

lemma auth_blank [simp]: "auth (blank_process env a) = a" "rt (blank_process env a) = en_runtime env"
  by (simp_all add: blank_process_def)

lemma deployment_starts:
  assumes "run env version cfg = Inr l"
  shows "deployment_ok env cfg (la_process l)"
    and "cf_metricsListen cfg \<noteq> [] \<Longrightarrow> labels_exactly KnownRoutes (process_metrics (la_process l))"
proof -
  let ?r = "new_registry (cf_channelTTL cfg) (cf_maxChannels cfg)"
  from assms obtain P bg where P: "start_authorizer env cfg = Inr (P, bg)"
    and l: "la_process l = (if cf_metricsListen cfg \<noteq> []
      then observe_process (NewRegistry version KnownRoutes) (install_registry ?r P) else install_registry ?r P)"
    by (auto elim: run_cases simp: Let_def)
  from P have "deployment_ok env cfg (la_process l)
    \<and> (cf_metricsListen cfg \<noteq> [] \<longrightarrow> labels_exactly KnownRoutes (process_metrics (la_process l)))"
  proof (cases rule: start_authorizer_cases)
    case (static s)
    define a where "a = auth s"
    then have s: "s = blank_process env a" using static(4) by simp
    from static(1,2,5) show ?thesis
      by (simp add: l s constructed_ok as_configured_start)
  next
    case (rbac a)
    then show ?thesis by (simp add: l constructed_ok as_configured_start constructed_rbac)
  qed
  then show "deployment_ok env cfg (la_process l)"
    and "cf_metricsListen cfg \<noteq> [] \<Longrightarrow> labels_exactly KnownRoutes (process_metrics (la_process l))"
    by blast+
qed

section \<open>Every step keeps it\<close>

lemma static_serves:
  assumes "process_ok s"
  shows "let s' = snd (ServeHTTP (Instrumented StaticAllowed ''static'') cd p up r s)
    in process_ok s' \<and> reported s s' \<and> auth s' = auth s \<and> (as_configured cfg s \<longrightarrow> as_configured cfg s')"
proof -
  let ?s' = "snd (ServeHTTP (Instrumented StaticAllowed ''static'') cd p up r s)"
  have reg: "reg_ok s" using assms by (simp add: process_ok_def)
  have "auth ?s' = auth s \<and> (as_configured cfg s \<longrightarrow> as_configured cfg ?s')"
  proof (rule static_handler.ServeHTTP_frame [OF reg])
    assume "served_frame s ?s'"
    then show ?thesis using as_configured_frame by (auto simp: served_frame_def)
  next
    fix i res s1
    assume al: "Instrumented StaticAllowed ''static'' i (timed p r s) = (res, s1)" and f: "served_frame s1 ?s'"
    have "auth s1 = auth s"
      using al by (rule Instrumented_cases) (auto dest: StaticAllowed_state simp: timed_def)
    moreover have "services s1 = services s"
      using static_handler.allowed_services [OF al] by (simp add: timed_def)
    ultimately show ?thesis using f by (auto simp: served_frame_def as_configured_def)
  qed
  then show ?thesis
    using static_handler.ServeHTTP_ok [OF assms] static_reporting.ServeHTTP_reported [OF reg]
    by (simp add: Let_def)
qed

lemma rbac_serves:
  assumes ok: "process_ok s" and rbac: "rbac_ok kc s"
  shows "let s' = snd (ServeHTTP (Instrumented (RbacAllowed kc) ''rbac'') cd p up r s)
    in process_ok s' \<and> reported s s' \<and> rbac_ok kc s' \<and> ra_ttl (auth s') = ra_ttl (auth s)
      \<and> ra_maxCache (auth s') = ra_maxCache (auth s) \<and> now_at (rt s') = now_at (rt s)
      \<and> (as_configured cfg s \<longrightarrow> as_configured cfg s')"
proof -
  let ?s' = "snd (ServeHTTP (Instrumented (RbacAllowed kc) ''rbac'') cd p up r s)"
  have reg: "reg_ok s" using ok by (simp add: process_ok_def)
  have "rbac_ok kc ?s' \<and> ra_ttl (auth ?s') = ra_ttl (auth s) \<and> ra_maxCache (auth ?s') = ra_maxCache (auth s)
      \<and> now_at (rt ?s') = now_at (rt s) \<and> (as_configured cfg s \<longrightarrow> as_configured cfg ?s')"
  proof (rule rbac_handler.ServeHTTP_frame [OF reg, of kc cd p up r])
    assume f: "served_frame s ?s'"
    then show ?thesis using rbac_ok_served [OF f rbac] as_configured_frame by (auto simp: served_frame_def)
  next
    fix i res s1
    assume al: "Instrumented (RbacAllowed kc) ''rbac'' i (timed p r s) = (res, s1)" and f: "served_frame s1 ?s'"
    have t: "rbac_ok kc (timed p r s)" using rbac by (simp add: timed_def rbac_timer)
    have "rbac_ok kc s1" by (rule rbac_timed.keeps_inv [OF t al])
    moreover have "ra_ttl (auth s1) = ra_ttl (auth s)" "ra_maxCache (auth s1) = ra_maxCache (auth s)"
        "now_at (rt s1) = now_at (rt s)"
      using al by (rule Instrumented_cases;
          auto dest!: RbacAllowed_frame simp: timed_def rbac_frame_def)+
    moreover have "services s1 = services s"
      using rbac_handler.allowed_services [OF al] by (simp add: timed_def)
    ultimately show ?thesis
      using f rbac_ok_served [OF f] by (auto simp: served_frame_def as_configured_def)
  qed
  then show ?thesis
    using rbac_handler.ServeHTTP_ok [OF ok] rbac_reporting.ServeHTTP_reported [OF reg]
    by (simp add: Let_def)
qed

lemma static_background:
  assumes "process_ok s"
  shows "process_ok (sweep s) \<and> reported s (sweep s) \<and> auth (sweep s) = auth s
      \<and> (as_configured cfg s \<longrightarrow> as_configured cfg (sweep s))"
proof -
  have "reg_ok s" using assms by (simp add: process_ok_def)
  note sw = sweep_spec(1,2) [OF this]
  from process_ok_reported [OF assms sw(1) reg_frame_reported [OF sw(2)]] reg_frame_reported [OF sw(2)]
    reg_frame_fields(1-3) [OF sw(2)]
  show ?thesis by (simp add: as_configured_def)
qed

lemma reload_loop_state:
  "services (reload_loop h u evs s) = services s
   \<and> TrackedChannels (met (reload_loop h u evs s)) = TrackedChannels (met s)
   \<and> (sa_m (auth (reload_loop h u evs s)) = sa_m (auth s)
      \<or> (\<exists>b. u b = Inr (sa_m (auth (reload_loop h u evs s)))))"
proof (induction evs arbitrary: s)
  case (Cons ev evs)
  show ?case
  proof (cases ev)
    case (File_Tick found)
    have frame: "services (set_last_reload s1) = services s1" "services (count_reload r s1) = services s1"
        "TrackedChannels (met (set_last_reload s1)) = TrackedChannels (met s1)"
        "TrackedChannels (met (count_reload r s1)) = TrackedChannels (met s1)"
      for r and s1 :: "(static_authorizer, 'a) reg_state_scheme"
      by (simp_all add: set_last_reload_def count_reload_def now_eq)
    show ?thesis
    proof (cases rule: reload_cases [of h u found s])
      case (failed e)
      with Cons.IH [of "count_reload ReloadError s"] File_Tick show ?thesis by (simp add: frame)
    next
      case (same b)
      with Cons.IH [of "set_last_reload (count_reload ReloadUnchanged s)"] File_Tick
      show ?thesis by (simp add: frame)
    next
      case (changed b m)
      let ?s1 = "s\<lparr>auth := (auth s)\<lparr>sa_m := m, sa_sum := h b\<rparr>\<rparr>"
      from changed Cons.IH [of "set_last_reload (count_reload ReloadChanged ?s1)"] File_Tick
      show ?thesis by (auto simp: frame)
    qed
  qed simp
qed simp

lemma process_serve_snd:
  "snd (process_serve env cd l up r (Static_Process s)) =
     Static_Process (snd (ServeHTTP (Instrumented StaticAllowed (la_mode l)) cd (la_proxy l) up r s))"
  "snd (process_serve env cd l up r (Rbac_Process t)) = Rbac_Process
     (snd (ServeHTTP (Instrumented (RbacAllowed (en_kube env)) (la_mode l)) cd (la_proxy l) up r t))"
  by (simp_all split: prod.split)

text \<open>The steps of a process, and every state it can reach.\<close>

lemma step_deployment_ok:
  assumes run: "run env version cfg = Inr l" and "step env cd l P P'" and "deployment_ok env cfg P"
  shows "deployment_ok env cfg P' \<and> reports (process_metrics P) (process_metrics P')"
proof -
  have mode: "la_mode l = cf_mode cfg" using run by (auto elim: run_cases)
  from assms(2,3) show ?thesis
  proof (cases rule: step.cases)
    case (serve up r)
    show ?thesis
    proof (cases P)
      case (Static_Process s)
      with assms(3) have "process_ok s" by simp
      from static_serves [OF this, of cd "la_proxy l" up r cfg] assms(3) Static_Process serve(1) mode
      show ?thesis by (simp add: Let_def reported_def process_serve_snd del: process_serve.simps)
    next
      case (Rbac_Process s)
      with assms(3) have "process_ok s" "rbac_ok (en_kube env) s" by simp_all
      from rbac_serves [OF this, of cd "la_proxy l" up r cfg] assms(3) Rbac_Process serve(1) mode
      show ?thesis by (simp add: Let_def reported_def process_serve_snd del: process_serve.simps)
    qed
  next
    case (sweep_static s)
    with assms(3) static_background [of s cfg] show ?thesis by (simp add: reported_def)
  next
    case (sweep_rbac s)
    with assms(3) have ok: "process_ok s" "rbac_ok (en_kube env) s" by simp_all
    then have "reg_ok s" by (simp add: process_ok_def)
    note f = reg_frame_served [OF sweep_spec(2) [OF this]]
    from rbac_ok_served [OF f ok(2)] f static_background [OF ok(1), of cfg] sweep_rbac assms(3)
    show ?thesis by (simp add: reported_def served_frame_def)
  next
    case (remap d s found)
    let ?s' = "RunReloader (en_sha256 env) (en_unmarshal env) d [File_Tick found] s"
    have same: "services ?s' = services s" "TrackedChannels (met ?s') = TrackedChannels (met s)"
        "sa_m (auth ?s') = sa_m (auth s) \<or> (\<exists>b. en_unmarshal env b = Inr (sa_m (auth ?s')))"
      using reload_loop_state [of "en_sha256 env" "en_unmarshal env" "[File_Tick found]" s]
      by (simp_all add: RunReloader_def del: reload_loop.simps)
    have rep: "reported s ?s'" by (rule RunReloader_reported)
    have "process_ok s" using remap assms(3) by simp
    then have "process_ok ?s'"
      using process_ok_reported [OF _ _ rep] same by (simp add: process_ok_def reg_ok_def)
    with same rep remap assms(3) show ?thesis
      by (auto simp: reported_def as_configured_def)
  next
    case (expire s)
    with assms(3) have ok: "process_ok s" "rbac_ok (en_kube env) s" by simp_all
    have f: "rbac_frame s (sweepScopes s)" "met (sweepScopes s) = met s"
      by (simp_all add: sweepScopes_def evictExpired_frame)
    then have "services (sweepScopes s) = services s"
      unfolding rbac_frame_def by (cases s; cases "sweepScopes s") simp
    with f ok evictExpired_spec [OF ok(2)] expire assms(3) show ?thesis
      by (simp add: process_ok_def reg_ok_def as_configured_def rbac_frame_def sweepScopes_def)
  next
    case (notified s ls w n)
    with assms(3) have ok: "process_ok s" "rbac_ok (en_kube env) s" by simp_all
    have f: "rbac_frame s (handle ls w n s)" by (rule handle_frame [OF ok(2)])
    then have "services (handle ls w n s) = services s"
      unfolding rbac_frame_def by (cases s; cases "handle ls w n s") simp
    with f ok handle_ok [OF ok(2)] handle_reported [of s ls w n] notified assms(3) show ?thesis
      by (simp add: process_ok_def reg_ok_def as_configured_def rbac_frame_def reported_def)
  next
    case (watch_status s k)
    have "served_frame s (set_watch_active k s)" by (simp add: served_frame_def set_watch_active_def)
    from rbac_ok_served [OF this] as_configured_frame [OF this] watch_status assms(3) show ?thesis
      by (simp add: process_ok_def reg_ok_def set_watch_active_def)
  qed
qed

lemma reachable_deployment_ok:
  assumes run: "run env version cfg = Inr l" and "reachable env cd l P"
  shows "deployment_ok env cfg P \<and> reports (process_metrics (la_process l)) (process_metrics P)"
  using assms(2)
proof (induction rule: reachable.induct)
  case start
  then show ?case using deployment_starts(1) [OF run] by simp
next
  case (next_step P P')
  with step_deployment_ok [OF run] reports_trans show ?case by blast
qed

end
