(* ===== verification/Deployment_History.thy ===== *)
theory Deployment_History
  imports Deployment_Laws
begin

text \<open>
  Where the entries of the scope cache of a running process (\<^verbatim>\<open>cmd/hubble-authz-proxy/root.go\<close>, in RBAC
  mode) come from: each goes back to a request the process has served.
\<close>

section \<open>Earlier requests\<close>

text \<open>
  \<open>earlier_call env cd l j q P\<close>: the process was in the state \<open>q\<close> when a request on an API path came
  in whose headers identify \<open>j\<close>, and was served as a whole, and it is in the state \<open>P\<close> some time after that request was served.
\<close>

definition earlier_call ::
  "environment \<Rightarrow> codec \<Rightarrow> launched \<Rightarrow> identity \<Rightarrow> rbac_authorizer reg_state \<Rightarrow> process \<Rightarrow> bool" where
  "earlier_call env cd l j q P \<longleftrightarrow> reachable env cd l (Rbac_Process q)
     \<and> (\<exists>up r. backend_path up = bu_path (la_backend l) \<and> has_prefix (rq_path r) (apiPrefix (la_proxy l))
          \<and> From (px_headers (la_proxy l)) (rq_header r) = Inr j
          \<and> (step env cd l)\<^sup>*\<^sup>* (snd (process_serve env cd l up r (Rbac_Process q))) P)"

lemma earlier_call_step: "earlier_call env cd l j q P \<Longrightarrow> step env cd l P P' \<Longrightarrow> earlier_call env cd l j q P'"
  unfolding earlier_call_def by (meson rtranclp.rtrancl_into_rtrancl)

section \<open>The entries of the cache\<close>

lemma start_no_scopes:
  assumes "run env version cfg = Inr l" and "la_process l = Rbac_Process s"
  shows "scopes s = []"
proof -
  from assms(1) obtain P bg where P: "start_authorizer env cfg = Inr (P, bg)"
    and l: "la_process l = (let P = install_registry (new_registry (cf_channelTTL cfg) (cf_maxChannels cfg)) P
      in if cf_metricsListen cfg \<noteq> [] then observe_process (NewRegistry version KnownRoutes) P else P)"
    by (rule run_cases)
  from P show ?thesis
  proof (cases rule: start_authorizer_cases)
    case (static s\<^sub>0)
    with l assms(2) show ?thesis by (simp add: Let_def split: if_splits)
  next
    case (rbac a)
    with l assms(2) show ?thesis by (auto simp: Let_def split: if_splits)
  qed
qed

text \<open>One request stores at most one entry, for its own caller, if it resolved that caller.\<close>

lemma rbac_serve_entries:
  assumes reg: "reg_ok s" and ok: "rbac_ok kc s"
    and entry: "map_of (scopes (snd (ServeHTTP (Instrumented (RbacAllowed kc) mode) cd p up r s))) key = Some c"
    and mode: "mode = ''rbac''"
  shows "map_of (scopes s) key = Some c
    \<or> (\<exists>i m. has_prefix (rq_path r) (apiPrefix p) \<and> From (px_headers p) (rq_header r) = Inr i
         \<and> key = cacheKey i \<and> resolves kc i (cs_scope c) s m
         \<and> cs_expires c = now_at (rt s) m + ra_ttl (auth s))"
proof (rule rbac_handler.ServeHTTP_frame [OF reg, of kc cd p up r])
  assume "served_frame s (snd (ServeHTTP (Instrumented (RbacAllowed kc) ''rbac'') cd p up r s))"
  with entry show ?thesis by (simp add: served_frame_def mode)
next
  fix i res s1
  assume req: "has_prefix (rq_path r) (apiPrefix p)" "From (px_headers p) (rq_header r) = Inr i"
    and al: "Instrumented (RbacAllowed kc) ''rbac'' i (timed p r s) = (res, s1)"
    and f: "served_frame s1 (snd (ServeHTTP (Instrumented (RbacAllowed kc) ''rbac'') cd p up r s))"
  from entry f have e: "map_of (scopes s1) key = Some c" by (simp add: served_frame_def mode)
  show ?thesis
  proof (rule Instrumented_cases [OF al])
    fix s2
    let ?s = "observe (\<lambda>m. m\<lparr>ScopeResolutionDuration :=
        with_label_values [''rbac''] (ScopeResolutionDuration m)\<rparr>) (timed p r s)"
    assume call: "RbacAllowed kc i ?s = (res, s2)"
      and s1: "s1 = observe (\<lambda>m. m\<lparr>ScopeResolutionDuration :=
        vec_inc [''rbac''] (ScopeResolutionDuration m)\<rparr>) s2"
    have "rbac_ok kc ?s" using ok by (simp add: rbac_timer timed_def)
    from RbacAllowed_entries [OF this call, of key c] e s1 req show ?thesis by (auto simp: timed_def)
  qed
qed

lemma entries_origin:
  assumes run: "run env version cfg = Inr l" and "reachable env cd l P"
    and "P = Rbac_Process s" and "map_of (scopes s) key = Some c"
  shows "\<exists>j q m. earlier_call env cd l j q P \<and> key = cacheKey j
    \<and> resolves (en_kube env) j (cs_scope c) q m
    \<and> cs_expires c = now_at (en_runtime env) m + cf_rbacTTL cfg"
  using assms(2-)
proof (induction arbitrary: s rule: reachable.induct)
  case start
  with start_no_scopes [OF run start(1)] show ?case by simp
next
  case (next_step P P')
  note ok = reachable_deployment_ok [OF run next_step.hyps(1)]
  have earlier: ?case if "P = Rbac_Process s'" "map_of (scopes s') key = Some c" for s'
    using next_step.IH [OF that] earlier_call_step [OF _ next_step.hyps(2)] by blast
  from next_step.hyps(2) show ?case
  proof (cases rule: step.cases)
    case (serve up r)
    then obtain s' where P: "P = Rbac_Process s'"
      and s: "s = snd (ServeHTTP (Instrumented (RbacAllowed (en_kube env)) (la_mode l)) cd (la_proxy l) up r s')"
      using next_step.prems(1) by (cases P) (auto split: prod.splits)
    from ok P have reg: "reg_ok s'" "rbac_ok (en_kube env) s'" and clock: "now_at (rt s') = now_at (en_runtime env)"
        "ra_ttl (auth s') = cf_rbacTTL cfg" and mode: "cf_mode cfg = ''rbac''"
      by (simp_all add: process_ok_def)
    have "la_mode l = ''rbac''" using run mode by (auto elim: run_cases)
    from rbac_serve_entries [OF reg next_step.prems(2) [unfolded s] this] show ?thesis
    proof (elim disjE exE conjE)
      fix j m
      assume j: "has_prefix (rq_path r) (apiPrefix (la_proxy l))"
          "From (px_headers (la_proxy l)) (rq_header r) = Inr j"
        and m: "key = cacheKey j" "resolves (en_kube env) j (cs_scope c) s' m"
          "cs_expires c = now_at (rt s') m + ra_ttl (auth s')"
      have "earlier_call env cd l j s' P'"
        unfolding earlier_call_def using next_step.hyps(1) P serve j by auto
      with m clock show ?thesis by auto
    qed (rule earlier [OF P])
  next
    case (sweep_rbac s')
    then have reg: "reg_ok s'" using ok by (simp add: process_ok_def)
    from sweep_rbac next_step.prems reg_frame_served [OF sweep_spec(2) [OF reg]] show ?thesis
      by (intro earlier [of s']) (simp_all add: served_frame_def)
  next
    case (expire s')
    then have "rbac_ok (en_kube env) s'" using ok by simp
    from evictExpired_spec [OF this, of key] expire next_step.prems show ?thesis
      by (intro earlier [of s']) (auto simp: sweepScopes_def split: option.splits if_splits)
  next
    case (notified s' ls w n)
    then have "rbac_ok (en_kube env) s'" using ok by simp
    from deliver_shrinks [OF this, of "[(ls, w, n)]" key c] notified next_step.prems show ?thesis
      by (intro earlier [of s']) (simp_all add: deliver_def)
  next
    case (watch_status s' k)
    with next_step.prems show ?thesis by (intro earlier [of s']) (auto simp: set_watch_active_def)
  qed (use next_step.prems in simp_all)
qed

end
