(* ===== verification/Serving_Properties.thy ===== *)
theory Serving_Properties
  imports Deployment_History
begin

text \<open>
  What clients and operators see of a served request: how it is counted, and that what is served
  reads back. Both hold for every authorizer with the contract of \<open>handler_authorizer\<close>; the
  properties are stated for the process.
\<close>

section \<open>Which series a request is counted under\<close>

definition requests :: "'a go_state_scheme \<Rightarrow> labels \<Rightarrow> nat" where
  "requests s = vec_value (RequestsTotal (met s))"

definition counted :: "labels list \<Rightarrow> 'a go_state_scheme \<Rightarrow> 'a go_state_scheme \<Rightarrow> bool" where
  "counted l s s' \<longleftrightarrow> (\<forall>ls. requests s' ls = requests s ls + count_list l ls)"

lemma counted_same: "RequestsTotal (met s') = RequestsTotal (met s) \<Longrightarrow> counted [] s s'"
  by (simp add: counted_def requests_def)

lemma counted_trans: "counted l s s1 \<Longrightarrow> counted l' s1 s' \<Longrightarrow> counted (l @ l') s s'"
  by (simp add: counted_def)

lemma counted_request: "counted [[route, oc]] s (count_request route oc s)"
  by (simp add: counted_def requests_def count_request_def vec_value_inc)

lemma counted_duration [simp]: "counted l s (observe_duration route s') \<longleftrightarrow> counted l s s'"
  by (simp add: counted_def requests_def observe_duration_def)

text \<open>What the round trip to the backend adds, by the reply the caller gets.\<close>

fun round_trip_counts :: "string \<Rightarrow> reply \<Rightarrow> labels list set" where
  "round_trip_counts route (Relayed resp) = {[]}"
| "round_trip_counts route (Http_Error code text) =
    (if code = StatusBadGateway
     then {[[route, OutcomeResponseTooLarge]], [[route, OutcomeUpstreamError]]} else {})"
| "round_trip_counts route No_Reply = {[[route, OutcomeClientGone]]}"

text \<open>What a request adds, by route, route seen by the error handler, and reply.\<close>

fun request_counts :: "string \<Rightarrow> string \<Rightarrow> reply \<Rightarrow> labels list set" where
  "request_counts route failed (Relayed resp) = {[[route, OutcomeFiltered]]}"
| "request_counts route failed (Http_Error code text) =
    (if code = StatusUnauthorized then {[[route, OutcomeUnauthenticated]]}
     else if code = StatusInternalServerError then {[[route, OutcomeAuthzError]]}
     else (@) [[route, OutcomeFiltered]] ` round_trip_counts failed (Http_Error code text))"
| "request_counts route failed No_Reply =
    insert [[route, OutcomeAuthzError]]
      ((@) [[route, OutcomeFiltered]] ` round_trip_counts failed No_Reply)"

lemma round_trip_in_request:
  "l \<in> round_trip_counts failed reply \<Longrightarrow>
    [[route, OutcomeFiltered]] @ l \<in> request_counts route failed reply"
  by (cases reply)
    (auto simp: StatusBadGateway_def StatusUnauthorized_def StatusInternalServerError_def split: if_splits)

lemma ErrorHandler_counts:
  assumes "ErrorHandler p r e s = (reply, s')"
  shows "\<exists>l \<in> round_trip_counts (request_route p r) reply. counted l s s'"
  using assms counted_request
  by (auto simp: ErrorHandler_def request_route_def Let_def split: if_splits)

lemma filterResponse_counts:
  assumes ok: "reg_ok s" and run: "filterResponse cd p r (Some info) up s = (res, s')"
  shows "counted [] s s'"
proof -
  have step: "counted [] s s2" if "filterBody cd p x c b sc i s = (fr, s2)" for x c b sc i fr s2
    using filterBody_on_channel [OF ok that]
    by (simp add: on_channel_def filter_frame_def counted_same)
  show ?thesis
  proof (cases "filtered info \<and> \<not> passes_unfiltered (ri_scope info) up")
    case False
    with run filterResponse_unfiltered [of info up cd p r s] show ?thesis by (auto intro: counted_same)
  next
    case True
    with run step counted_same [OF refl, of s] show ?thesis
      by (auto simp: filterResponse_filters split: if_splits sum.splits prod.splits)
  qed
qed

lemma rp_ServeHTTP_counts:
  assumes ok: "reg_ok s" and run: "rp_ServeHTTP cd p up (Some info) r s = (reply, s')"
  shows "\<exists>l \<in> round_trip_counts (request_route p (Rewrite up r)) reply. counted l s s'"
proof (cases "round_trip up (Rewrite up r)")
  case (Inl e)
  with run ErrorHandler_counts show ?thesis by (simp add: rp_ServeHTTP_def)
next
  case (Inr ur)
  obtain res s1 where fr: "filterResponse cd p (Rewrite up r) (Some info) ur s = (res, s1)" by fastforce
  note same = filterResponse_counts [OF ok fr]
  show ?thesis
  proof (cases res)
    case (Inl e)
    with run fr \<open>round_trip up (Rewrite up r) = Inr ur\<close>
    have "ErrorHandler p (Rewrite up r) e s1 = (reply, s')" by (simp add: rp_ServeHTTP_def)
    from ErrorHandler_counts [OF this] counted_trans [OF same] show ?thesis by fastforce
  next
    case (Inr ro)
    with run fr same \<open>round_trip up (Rewrite up r) = Inr ur\<close> show ?thesis
      by (auto simp: rp_ServeHTTP_def split: option.splits)
  qed
qed

context handler_authorizer begin

lemma ServeHTTP_counts:
  assumes ok: "reg_ok s" and api: "has_prefix (rq_path r) (apiPrefix p)"
    and run: "ServeHTTP allowed cd p up r s = (reply, s')"
  shows "\<exists>l \<in> request_counts (request_route p r) (request_route p (Rewrite up r)) reply. counted l s s'"
proof (cases "From (px_headers p) (rq_header r)")
  case (Inl e)
  have "counted [[request_route p r, OutcomeUnauthenticated]] s s'"
    using run Inl counted_trans [OF counted_same counted_request, of "timed p r s" s]
    by (auto simp: ServeHTTP_api [OF api] timed_def)
  with run Inl show ?thesis by (auto simp: ServeHTTP_api [OF api])
next
  case (Inr i)
  obtain res s1 where al: "allowed i (timed p r s) = (res, s1)" by fastforce
  have "counted [] s s1" using keeps_counters [OF al] by (intro counted_same) (simp add: timed_def)
  from counted_trans [OF this counted_request]
  have one: "counted [[request_route p r, oc]] s (count_request (request_route p r) oc s1)" for oc by simp
  show ?thesis
  proof (cases res)
    case (Inl e)
    with run Inr al one show ?thesis
      by (auto simp: ServeHTTP_api [OF api] StatusInternalServerError_def StatusUnauthorized_def
          split: if_splits)
  next
    case (Inr sc)
    let ?s = "count_request (request_route p r) OutcomeFiltered s1"
    obtain s2 where rp: "rp_ServeHTTP cd p up (Some \<lparr>filtered = True, ri_scope = sc, ri_id = i\<rparr>) r ?s = (reply, s2)"
      and s': "s' = observe_duration (request_route p r) s2"
      using run al Inr \<open>From (px_headers p) (rq_header r) = Inr i\<close>
      by (auto simp: ServeHTTP_api [OF api] map_prod_def split: prod.splits)
    have "reg_ok ?s" using ok authorized_registry(1) [OF al] by simp
    from rp_ServeHTTP_counts [OF this rp] obtain l where
      "l \<in> round_trip_counts (request_route p (Rewrite up r)) reply" "counted l ?s s2" by blast
    with counted_trans [OF one] round_trip_in_request s' show ?thesis by fastforce
  qed
qed

end

section \<open>What is served reads back\<close>

text \<open>How a client reads the length it is told.\<close>

fun read_decimal :: "nat \<Rightarrow> string \<Rightarrow> nat option" where
  "read_decimal n [] = Some n"
| "read_decimal n (c # cs) =
    (if 48 \<le> (of_char c :: nat) \<and> (of_char c :: nat) \<le> 57
     then read_decimal (10 * n + (of_char c - 48)) cs else None)"

lemma read_digit: "d < 10 \<Longrightarrow> read_decimal n (char_of (48 + d) # cs) = read_decimal (10 * n + d) cs"
  by (simp add: of_char_of)

lemma read_itoa:
  "\<exists>k. \<forall>m cs. read_decimal m (itoa n @ cs) = read_decimal (m * 10 ^ k + n) cs"
proof (induction n rule: itoa.induct)
  case (1 n)
  show ?case
  proof (cases "n < 10")
    case True
    then have "read_decimal m (itoa n @ cs) = read_decimal (m * 10 ^ 1 + n) cs" for m cs
      using read_digit [of n] by (simp add: itoa.simps [of n] mult.commute)
    then show ?thesis by blast
  next
    case False
    from 1 [OF this] obtain k where
      k: "\<And>m cs. read_decimal m (itoa (n div 10) @ cs) = read_decimal (m * 10 ^ k + n div 10) cs"
      by blast
    have "read_decimal m (itoa n @ cs) = read_decimal (m * 10 ^ Suc k + n) cs" for m cs
    proof -
      have shift: "m * 10 ^ Suc k + n = n + 10 * (m * 10 ^ k)" by simp
      show ?thesis
        unfolding itoa.simps [of n] shift using False k read_digit [of "n mod 10"]
        by (simp del: read_decimal.simps(2) power_Suc)
    qed
    then show ?thesis by blast
  qed
qed

lemma read_itoa_0: "read_decimal 0 (itoa n) = Some n"
  using read_itoa [of n] by (metis add_0 append_Nil2 mult_0 read_decimal.simps(1))

text \<open>
  C26. A rebuilt response reads back: the Content-Length header parses to the length of the new body,
  the body decodes, in the encoding the response announces, to the backend's envelope with
  nothing but its content replaced, and every other header and the status are the backend's.
\<close>

theorem served_reads_back:
  assumes "codec_reads_back cd" and "filterResponse cd p r ctx up s = (Inr (Some resp), s')"
  shows "read_decimal 0 (header_get (rs_header resp) ''Content-Length'') = Some (length (rs_body resp))
    \<and> content_length resp = int (length (rs_body resp)) \<and> status resp = status (up_response up)
    \<and> (\<forall>k. canonical_key k \<noteq> canonical_key ''Content-Length'' \<longrightarrow>
          header_get (rs_header resp) k = header_get (rs_header (up_response up)) k)
    \<and> (\<exists>raw msg body. read_limited (maxResponse p + 1) up = Inr raw
          \<and> decodeEnvelope cd raw (is_json resp) = Inr msg
          \<and> decodeEnvelope cd (rs_body resp) (is_json resp) = Inr (with_content body msg))"
proof -
  obtain info where info: "ctx = Some info"
    using assms(2) by (cases ctx) (simp_all add: filterResponse_def)
  from filterResponse_through [OF assms(2) [unfolded info]] obtain raw msg body out where
    raw: "read_limited (maxResponse p + 1) up = Inr raw"
      "decodeEnvelope cd raw (is_json (up_response up)) = Inr msg"
    and enc: "encodeEnvelope cd (with_content body msg) (is_json (up_response up)) = Inr out"
    and resp: "resp = rebuilt (up_response up) out"
    by (auto simp: filtered_reply_def)
  have "decodeEnvelope cd out (is_json (up_response up)) = Inr (with_content body msg)"
    using enc assms(1)
    by (auto simp: encodeEnvelope_def decodeEnvelope_def codec_reads_back_def split: if_splits)
  with raw show ?thesis
    unfolding resp content_type_kept
    by (auto simp: rebuilt_def header_get_set read_itoa_0)
qed

lemma bob_filtered_run: "fst (filterResponse bob_codec (example_proxy True) bob_request
    (Some \<lparr>filtered = True, ri_scope = bob_scope, ri_id = bob\<rparr>)
    (projr (round_trip (bob_upstream []) bob_request)) bob_state) = Inr (Some (bob_served [10, 2]))"
  by code_simp

theorem served_reads_back_witness:
  "read_decimal 0 (header_get (rs_header (bob_served [10, 2])) ''Content-Length'') = Some 2"
proof -
  have "codec_reads_back bob_codec" by (simp add: bob_codec_def table_codec_reads_back)
  from served_reads_back [OF this, of "example_proxy True" bob_request
      "Some \<lparr>filtered = True, ri_scope = bob_scope, ri_id = bob\<rparr>"
      "projr (round_trip (bob_upstream []) bob_request)" bob_state "bob_served [10, 2]"] bob_filtered_run
  show ?thesis by (simp add: prod_eq_iff bob_served_def)
qed

end
