(* ===== verification/Handler_Steps.thy ===== *)
theory Handler_Steps
  imports Concurrent_Properties Serving_Properties
begin

text \<open>
  \<^verbatim>\<open>ServeHTTP\<close> (\<^verbatim>\<open>internal/proxy/proxy.go\<close>) cut where other goroutines may run: from the arrival of a
  request to its call of the authorizer, from the authorizer's answer to the backend's response,
  the steps of \<open>Filter_Steps\<close>, and the reply. What the authorizer does in between is left open: all
  that counts is what it has told a request, and that it told it only what it may.
\<close>

section \<open>A request between arrival and reply\<close>

text \<open>
  A request waits for its scope, or its response is being filtered; it has been answered from the
  backend's response, or without one.
\<close>

datatype connection =
    Authorizing request identity
  | Filtering request task
  | Answered request task reply
  | Refused request reply

text \<open>Up to the call of the authorizer, whose timer starts here.\<close>

definition receive ::
  "codec \<Rightarrow> proxy \<Rightarrow> string \<Rightarrow> upstream \<Rightarrow> request \<Rightarrow> ('az, 'b) reg_state_scheme
   \<Rightarrow> connection \<times> ('az, 'b) reg_state_scheme" where
  "receive cd p mode up r s =
    (if \<not> has_prefix (rq_path r) (apiPrefix p) then
       let (reply, s) = rp_ServeHTTP cd p up
             (Some \<lparr>filtered = False, ri_scope = empty_scope,
                    ri_id = \<lparr>id_user = [], id_email = [], id_groups = []\<rparr>\<rparr>) r
             (count_request RouteNone OutcomePassthrough s)
       in (Refused r reply, s)
     else
       let route = request_route p r; s = timed p r s
       in case From (px_headers p) (rq_header r) of
            Inl e \<Rightarrow>
              (Refused r (Http_Error StatusUnauthorized ''unauthenticated''),
               observe_duration route (count_request route OutcomeUnauthenticated s))
          | Inr i \<Rightarrow>
              (Authorizing r i, observe (\<lambda>m. m\<lparr>ScopeResolutionDuration :=
                 with_label_values [mode] (ScopeResolutionDuration m)\<rparr>) s))"

text \<open>From the authorizer's answer to the backend's response.\<close>

definition authorized ::
  "codec \<Rightarrow> proxy \<Rightarrow> string \<Rightarrow> upstream \<Rightarrow> request \<Rightarrow> identity \<Rightarrow> go_error + scope
   \<Rightarrow> ('az, 'b) reg_state_scheme \<Rightarrow> connection \<times> ('az, 'b) reg_state_scheme" where
  "authorized cd p mode up r i res s =
    (let route = request_route p r;
         s = observe (\<lambda>m. m\<lparr>ScopeResolutionDuration := vec_inc [mode] (ScopeResolutionDuration m)\<rparr>) s
     in case res of
          Inl e \<Rightarrow>
            (Refused r (if clientGone e then No_Reply
               else Http_Error StatusInternalServerError ''authorization backend unavailable''),
             observe_duration route (count_request route OutcomeAuthzError s))
        | Inr sc \<Rightarrow>
            let s = count_request route OutcomeFiltered s; out = Rewrite up r
            in case round_trip up out of
                 Inl e \<Rightarrow> let (reply, s) = ErrorHandler p out e s
                          in (Refused r reply, observe_duration route s)
               | Inr resp \<Rightarrow>
                   (Filtering r (accept cd p out \<lparr>filtered = True, ri_scope = sc, ri_id = i\<rparr> resp), s))"

text \<open>From the filtered response to the reply.\<close>

definition respond ::
  "proxy \<Rightarrow> request \<Rightarrow> task \<Rightarrow> go_error + response option \<Rightarrow> ('az, 'b) reg_state_scheme
   \<Rightarrow> connection \<times> ('az, 'b) reg_state_scheme" where
  "respond p r tk res s =
    (let (reply, s) =
       (case res of
          Inl e \<Rightarrow> ErrorHandler p (tk_request tk) e s
        | Inr None \<Rightarrow> (Relayed (up_response (tk_up tk)), s)
        | Inr (Some resp) \<Rightarrow> (Relayed resp, s))
     in (Answered r tk reply, observe_duration (request_route p r) s))"

text \<open>
  The steps of the requests in flight, and of the sweeper of the registry. \<open>told t i res\<close> is what
  the authorizer answers the \<open>t\<close>th request, for identity \<open>i\<close>. The backend may answer every request
  differently.
\<close>

inductive handler_step ::
  "codec \<Rightarrow> proxy \<Rightarrow> string \<Rightarrow> (nat \<Rightarrow> identity \<Rightarrow> go_error + scope \<Rightarrow> bool)
   \<Rightarrow> ('az, 'b) reg_state_scheme \<times> (nat \<Rightarrow> connection option)
   \<Rightarrow> ('az, 'b) reg_state_scheme \<times> (nat \<Rightarrow> connection option) \<Rightarrow> bool" for cd p mode told where
  arrival: "cs t = None \<Longrightarrow> receive cd p mode up r s = (c, s') \<Longrightarrow>
    handler_step cd p mode told (s, cs) (s', cs(t \<mapsto> c))"
| resolved: "cs t = Some (Authorizing r i) \<Longrightarrow> told t i res \<Longrightarrow>
    authorized cd p mode up r i res s = (c, s') \<Longrightarrow>
    handler_step cd p mode told (s, cs) (s', cs(t \<mapsto> c))"
| filtering: "cs t = Some (Filtering r tk) \<Longrightarrow>
    handle_step cd p (tk_info tk) (tk_up tk) (tk_handling tk) s = (h, s') \<Longrightarrow>
    handler_step cd p mode told (s, cs) (s', cs(t \<mapsto> Filtering r (tk\<lparr>tk_handling := h\<rparr>)))"
| responding: "cs t = Some (Filtering r tk) \<Longrightarrow> tk_handling tk = Handled res \<Longrightarrow>
    respond p r tk res s = (c, s') \<Longrightarrow>
    handler_step cd p mode told (s, cs) (s', cs(t \<mapsto> c))"
| sweeping_channels: "handler_step cd p mode told (s, cs) (sweep s, cs)"

inductive handler_steps ::
  "codec \<Rightarrow> proxy \<Rightarrow> string \<Rightarrow> (nat \<Rightarrow> identity \<Rightarrow> go_error + scope \<Rightarrow> bool)
   \<Rightarrow> ('az, 'b) reg_state_scheme \<times> (nat \<Rightarrow> connection option)
   \<Rightarrow> ('az, 'b) reg_state_scheme \<times> (nat \<Rightarrow> connection option) \<Rightarrow> bool" for cd p mode told where
  at_rest: "handler_steps cd p mode told x x"
| go_on: "handler_steps cd p mode told x y \<Longrightarrow> handler_step cd p mode told y z \<Longrightarrow>
    handler_steps cd p mode told x z"

lemma handler_steps_trans:
  "handler_steps cd p mode told y z \<Longrightarrow> handler_steps cd p mode told x y \<Longrightarrow> handler_steps cd p mode told x z"
  by (induction rule: handler_steps.induct) (auto intro: go_on)

lemma one_handler_step: "handler_step cd p mode told x y \<Longrightarrow> handler_steps cd p mode told x y"
  by (rule go_on [OF at_rest])

fun replied :: "connection \<Rightarrow> (request \<times> reply) option" where
  "replied (Answered r tk reply) = Some (r, reply)"
| "replied (Refused r reply) = Some (r, reply)"
| "replied _ = None"

fun connection_request :: "connection \<Rightarrow> request" where
  "connection_request (Authorizing r i) = r"
| "connection_request (Filtering r tk) = r"
| "connection_request (Answered r tk reply) = r"
| "connection_request (Refused r reply) = r"

section \<open>The filters in it\<close>

text \<open>Seen from the registry, the requests in flight are a server of \<open>Concurrent_Filters\<close>.\<close>

fun connection_task :: "connection \<Rightarrow> task option" where
  "connection_task (Filtering r tk) = Some tk"
| "connection_task (Answered r tk reply) = Some tk"
| "connection_task _ = None"

definition seen :: "('az, 'b) reg_state_scheme \<times> (nat \<Rightarrow> connection option) \<Rightarrow> ('az, 'b) server" where
  "seen x = \<lparr>memory = fst x, tasks = (\<lambda>t. Option.bind (snd x t) connection_task)\<rparr>"

lemma seen_simps [simp]:
  "memory (seen (s, cs)) = s" "tasks (seen (s, cs)) t = Option.bind (cs t) connection_task"
  by (simp_all add: seen_def)

lemma seen_same:
  "connection_task c = Option.bind (cs t) connection_task \<Longrightarrow>
    seen (s', cs(t \<mapsto> c)) = (seen (s, cs))\<lparr>memory := s'\<rparr>"
  by (auto simp: seen_def fun_eq_iff)

lemma seen_task:
  "connection_task c = Some tk \<Longrightarrow>
    seen (s', cs(t \<mapsto> c)) = set_task t tk ((seen (s, cs))\<lparr>memory := s'\<rparr>)"
  by (auto simp: seen_def set_task_def fun_eq_iff)

text \<open>Outside the filters the registry does not change.\<close>

definition apart :: "('az, 'b) reg_state_scheme \<Rightarrow> ('az, 'b) reg_state_scheme \<Rightarrow> bool" where
  "apart s s' \<longleftrightarrow> served_frame s s' \<and> services s' = services s
     \<and> TrackedChannels (met s') = TrackedChannels (met s)"

lemma apart_refl [simp]: "apart s s"
  by (simp add: apart_def)

lemma apart_counts [simp]:
  "apart s (count_request route oc s') = apart s s'" "apart s (observe_duration route s') = apart s s'"
  "apart s (timed p r s') = apart s s'" "apart s (observe (\<lambda>m. m\<lparr>ScopeResolutionDuration := f m\<rparr>) s') = apart s s'"
  by (simp_all add: apart_def served_frame_def count_request_def observe_duration_def timed_def)

lemma apart_error: "ErrorHandler p r e s = (reply, s') \<Longrightarrow> apart s\<^sub>0 s' = apart s\<^sub>0 s"
  by (auto simp: ErrorHandler_def Let_def split: if_splits)

lemma ErrorHandler_refuses [simp]: "ErrorHandler p r e s \<noteq> (Relayed resp, s')"
  by (simp add: ErrorHandler_def Let_def)

lemma rp_unfiltered_apart:
  "rp_ServeHTTP cd p up (Some \<lparr>filtered = False, ri_scope = sc, ri_id = i\<rparr>) r s = (reply, s')
    \<Longrightarrow> apart s\<^sub>0 s' = apart s\<^sub>0 s"
  by (auto simp: rp_ServeHTTP_def Let_def filterResponse_unfiltered apart_error split: sum.splits)

lemma receive_spec:
  "receive cd p mode up r s = (c, s') \<Longrightarrow> apart s s' \<and> connection_task c = None
    \<and> (case c of
         Authorizing r' i \<Rightarrow> r' = r \<and> has_prefix (rq_path r) (apiPrefix p) \<and> From (px_headers p) (rq_header r) = Inr i
       | Refused r' reply \<Rightarrow> r' = r \<and> (has_prefix (rq_path r) (apiPrefix p) \<longrightarrow> (\<forall>resp. reply \<noteq> Relayed resp))
       | _ \<Rightarrow> False)"
  by (auto simp: receive_def Let_def rp_unfiltered_apart split: sum.splits prod.splits if_splits)

lemma authorized_spec:
  "authorized cd p mode up r i res s = (c, s') \<Longrightarrow> apart s s'
    \<and> (case c of
         Filtering r' tk \<Rightarrow> r' = r \<and> (\<exists>sc ur. res = Inr sc
           \<and> tk = accept cd p (Rewrite up r) \<lparr>filtered = True, ri_scope = sc, ri_id = i\<rparr> ur)
       | Refused r' reply \<Rightarrow> r' = r \<and> (\<forall>resp. reply \<noteq> Relayed resp)
       | _ \<Rightarrow> False)"
  by (auto simp: authorized_def Let_def apart_error split: sum.splits prod.splits)

lemma respond_spec:
  "respond p r tk res s = (c, s') \<Longrightarrow> apart s s' \<and> (\<exists>reply. c = Answered r tk reply
    \<and> (\<forall>resp. reply = Relayed resp \<longrightarrow>
         res = Inr None \<and> resp = up_response (tk_up tk) \<or> res = Inr (Some resp)))"
  by (auto simp: respond_def apart_error split: sum.splits option.splits prod.splits)

lemma server_apart:
  assumes "server_ok cd p V" and "apart (memory V) s"
  shows "server_ok cd p (V\<lparr>memory := s\<rparr>)"
  using filter_step_ok [OF elsewhere assms(1)] assms(2) by (auto simp: apart_def)

section \<open>The invariant\<close>

text \<open>
  Every request that is filtered is an authenticated caller's, under a scope that was granted to it;
  \<open>G i sc\<close> says that \<open>sc\<close> was.
\<close>

definition admitted :: "proxy \<Rightarrow> (identity \<Rightarrow> scope \<Rightarrow> bool) \<Rightarrow> request \<Rightarrow> task \<Rightarrow> bool" where
  "admitted p G r tk \<longleftrightarrow> has_prefix (rq_path r) (apiPrefix p)
     \<and> From (px_headers p) (rq_header r) = Inr (ri_id (tk_info tk)) \<and> filtered (tk_info tk)
     \<and> G (ri_id (tk_info tk)) (ri_scope (tk_info tk))"

fun connection_ok :: "proxy \<Rightarrow> (identity \<Rightarrow> scope \<Rightarrow> bool) \<Rightarrow> connection \<Rightarrow> bool" where
  "connection_ok p G (Authorizing r i) \<longleftrightarrow>
     has_prefix (rq_path r) (apiPrefix p) \<and> From (px_headers p) (rq_header r) = Inr i"
| "connection_ok p G (Filtering r tk) \<longleftrightarrow> admitted p G r tk"
| "connection_ok p G (Answered r tk reply) \<longleftrightarrow> admitted p G r tk
     \<and> (\<forall>resp. reply = Relayed resp \<longrightarrow>
          tk_handling tk = Handled (Inr None) \<and> resp = up_response (tk_up tk)
          \<or> tk_handling tk = Handled (Inr (Some resp)))"
| "connection_ok p G (Refused r reply) \<longleftrightarrow>
     (has_prefix (rq_path r) (apiPrefix p) \<longrightarrow> (\<forall>resp. reply \<noteq> Relayed resp))"

lemma connection_ok_mono:
  "(\<And>i sc. G i sc \<Longrightarrow> G' i sc) \<Longrightarrow> connection_ok p G c \<Longrightarrow> connection_ok p G' c"
  by (cases c) (auto simp: admitted_def)

definition requests_ok ::
  "codec \<Rightarrow> proxy \<Rightarrow> (nat \<Rightarrow> identity \<Rightarrow> scope \<Rightarrow> bool)
   \<Rightarrow> ('az, 'b) reg_state_scheme \<times> (nat \<Rightarrow> connection option) \<Rightarrow> bool" where
  "requests_ok cd p G x \<longleftrightarrow> server_ok cd p (seen x)
     \<and> (\<forall>t c. snd x t = Some c \<longrightarrow> connection_ok p (G t) c)"

lemma requests_ok_upd:
  assumes "requests_ok cd p G (s, cs)" and "server_ok cd p (seen (s', cs(t \<mapsto> c)))"
    and "connection_ok p (G t) c"
  shows "requests_ok cd p G (s', cs(t \<mapsto> c))"
  using assms by (auto simp: requests_ok_def)

text \<open>A step of a request keeps the invariant if the authorizer tells it only what it may have.\<close>

lemma handler_step_ok:
  assumes step: "handler_step cd p mode told (s, cs) (s', cs')" and ok: "requests_ok cd p G (s, cs)"
    and grants: "\<And>t r i sc. cs t = Some (Authorizing r i) \<Longrightarrow> told t i (Inr sc) \<Longrightarrow> G t i sc"
  shows "requests_ok cd p G (s', cs') \<and> served_frame s s'"
proof -
  from ok have V: "server_ok cd p (seen (s, cs))"
    and C: "\<And>t c. cs t = Some c \<Longrightarrow> connection_ok p (G t) c"
    by (simp_all add: requests_ok_def)
  note upd = requests_ok_upd [OF ok]
  from step show ?thesis
  proof (cases rule: handler_step.cases)
    case (arrival t up r c)
    note called = receive_spec [OF arrival(3)]
    have "seen (s', cs(t \<mapsto> c)) = (seen (s, cs))\<lparr>memory := s'\<rparr>"
      using arrival(2) called by (intro seen_same) simp
    with server_apart [OF V, of s'] called have "server_ok cd p (seen (s', cs(t \<mapsto> c)))" by simp
    moreover have "connection_ok p (G t) c" using called by (cases c) auto
    ultimately show ?thesis unfolding arrival(1) using upd called by (auto simp: apart_def)
  next
    case (resolved t r i res up c)
    note called = authorized_spec [OF resolved(4)]
    have r: "connection_ok p (G t) (Authorizing r i)" using C resolved(2) by blast
    have V1: "server_ok cd p ((seen (s, cs))\<lparr>memory := s'\<rparr>)" using server_apart [OF V, of s'] called by simp
    have "server_ok cd p (seen (s', cs(t \<mapsto> c))) \<and> connection_ok p (G t) c"
    proof (cases "connection_task c")
      case None
      then have "seen (s', cs(t \<mapsto> c)) = (seen (s, cs))\<lparr>memory := s'\<rparr>"
        using resolved(2) by (intro seen_same) simp
      with V1 None called show ?thesis by (cases c) auto
    next
      case (Some tk)
      with called obtain sc ur where c: "c = Filtering r tk" "res = Inr sc"
          "tk = accept cd p (Rewrite up r) \<lparr>filtered = True, ri_scope = sc, ri_id = i\<rparr> ur"
        by (cases c) auto
      have "filter_step cd p ((seen (s, cs))\<lparr>memory := s'\<rparr>) (set_task t tk ((seen (s, cs))\<lparr>memory := s'\<rparr>))"
        unfolding c(3) by (rule enter) (simp add: resolved(2))
      from conjunct1 [OF filter_step_ok [OF this V1]] seen_task [OF Some, of s' cs t s]
      have "server_ok cd p (seen (s', cs(t \<mapsto> c)))" by simp
      moreover have "G t i sc" using grants resolved(2,3) c(2) by blast
      ultimately show ?thesis using c r by (simp add: admitted_def accept_def)
    qed
    with upd called show ?thesis unfolding resolved(1) by (auto simp: apart_def)
  next
    case (filtering t r tk h)
    let ?c = "Filtering r (tk\<lparr>tk_handling := h\<rparr>)"
    have t: "tasks (seen (s, cs)) t = Some tk" by (simp add: filtering(2))
    have run: "handle_step cd p (tk_info tk) (tk_up tk) (tk_handling tk) (memory (seen (s, cs))) = (h, s')"
      using filtering(3) by simp
    have frame: "filter_frame s s'" using handle_step_ok [OF V t run] by simp
    from conjunct1 [OF filter_step_ok [OF proceed [OF t run] V]]
      seen_task [of ?c "tk\<lparr>tk_handling := h\<rparr>" s' cs t s]
    have "server_ok cd p (seen (s', cs(t \<mapsto> ?c)))" by simp
    moreover have "connection_ok p (G t) ?c" using C [OF filtering(2)] by (simp add: admitted_def)
    ultimately show ?thesis
      unfolding filtering(1) using upd filter_frame_served [OF frame] by blast
  next
    case (responding t r tk res c)
    note called = respond_spec [OF responding(4)]
    have "seen (s', cs(t \<mapsto> c)) = (seen (s, cs))\<lparr>memory := s'\<rparr>"
      using responding(2) called by (intro seen_same) auto
    with server_apart [OF V, of s'] called have "server_ok cd p (seen (s', cs(t \<mapsto> c)))" by simp
    moreover have "connection_ok p (G t) c" using C [OF responding(2)] called responding(3) by auto
    ultimately show ?thesis unfolding responding(1) using upd called by (auto simp: apart_def)
  next
    case sweeping_channels
    have reg: "reg_ok s" using V by (simp add: server_ok_def)
    have "seen (sweep s, cs) = (seen (s, cs))\<lparr>memory := sweep s\<rparr>" by (simp add: seen_def)
    with filter_step_ok [OF filter_step.sweeping V] have "server_ok cd p (seen (sweep s, cs))" by simp
    with ok reg_frame_served [OF sweep_spec(2) [OF reg]] sweeping_channels show ?thesis
      by (simp add: requests_ok_def)
  qed
qed

lemma requests_ok_start:
  assumes "reg_ok s" and "chans s = []"
  shows "requests_ok cd p G (s, Map.empty)"
  using idle_ok [OF assms, of cd p] by (simp add: requests_ok_def seen_def idle_server_def)

text \<open>What the rest of the process does leaves the requests alone.\<close>

lemma requests_ok_apart:
  fixes s s' :: "('az, 'b) reg_state_scheme"
  assumes "requests_ok cd p G (s, cs)" and "services s' = services s"
    and "TrackedChannels (met s') = TrackedChannels (met s)"
  shows "requests_ok cd p G (s', cs)"
proof -
  have "filter_step cd p (seen (s, cs)) ((seen (s, cs))\<lparr>memory := s'\<rparr>)"
    using assms(2,3) by (intro elsewhere) simp_all
  from conjunct1 [OF filter_step_ok [OF this]] assms(1) show ?thesis
    by (simp add: requests_ok_def seen_def)
qed

lemma requests_ok_mono:
  "(\<And>t i sc. G t i sc \<Longrightarrow> G' t i sc) \<Longrightarrow> requests_ok cd p G x \<Longrightarrow> requests_ok cd p G' x"
  using connection_ok_mono unfolding requests_ok_def by blast

text \<open>A request stays the same request.\<close>

lemma handler_step_request:
  assumes "handler_step cd p mode told (s, cs) (s', cs')" and "cs t = Some c"
  shows "\<exists>c'. cs' t = Some c' \<and> connection_request c' = connection_request c"
  using assms(1)
proof (cases rule: handler_step.cases)
  case (resolved u r i res up c')
  from authorized_spec [OF resolved(4)] assms(2) resolved(1,2) show ?thesis
    by (cases c'; cases "u = t") auto
next
  case (responding u r tk res c')
  from respond_spec [OF responding(4)] assms(2) responding(1,2) show ?thesis by (cases "u = t") auto
qed (use assms(2) in auto)

text \<open>What a request that got a successful response can read in it, in strict mode.\<close>

lemma relayed_confined:
  assumes ok: "requests_ok cd p G (s, cs)" and c: "cs t = Some c" "replied c = Some (r, Relayed resp)"
    and api: "has_prefix (rq_path r) (apiPrefix p)" and 200: "status resp = StatusOK"
    and reads: "codec_reads_back cd" and strict: "requireBoth p"
    and K: "\<And>c v n. said cd p (tasks (seen (s, cs))) c v n \<Longrightarrow> K c v = Some n"
  obtains i sc where "From (px_headers p) (rq_header r) = Inr i" and "G t i sc"
    and "sc_all sc \<or> (\<exists>msg. decodeEnvelope cd (rs_body resp) (is_json resp) = Inr msg
      \<and> message_discloses cd (K (message_channel msg)) msg \<subseteq> insert [] (scope_set sc))"
proof -
  from ok c(1) have con: "connection_ok p (G t) c" and V: "server_ok cd p (seen (s, cs))"
    by (simp_all add: requests_ok_def)
  from con c(2) api obtain tk where tk: "c = Answered r tk (Relayed resp)" by (cases c) auto
  with con have adm: "admitted p (G t) r tk"
    and how: "tk_handling tk = Handled (Inr None) \<and> resp = up_response (tk_up tk)
      \<or> tk_handling tk = Handled (Inr (Some resp))" by auto
  let ?sc = "ri_scope (tk_info tk)"
  have t: "tasks (seen (s, cs)) t = Some tk" by (simp add: c(1) tk)
  from how have "sc_all ?sc \<or> (\<exists>msg. decodeEnvelope cd (rs_body resp) (is_json resp) = Inr msg
      \<and> message_discloses cd (K (message_channel msg)) msg \<subseteq> insert [] (scope_set ?sc))"
  proof (elim disjE conjE)
    assume "tk_handling tk = Handled (Inr None)" and resp: "resp = up_response (tk_up tk)"
    moreover have "task_ok cd p (tasks (seen (s, cs))) tk" using V t unfolding server_ok_def by blast
    ultimately have "passes_unfiltered ?sc (tk_up tk)" using adm by (simp add: task_ok_def admitted_def)
    with 200 resp show ?thesis by (auto simp: passes_unfiltered_def)
  next
    assume "tk_handling tk = Handled (Inr (Some resp))"
    from rebuilt_strict [where K = K, OF V t this reads strict K] show ?thesis by (simp add: task_scope_def)
  qed
  with adm that show ?thesis by (auto simp: admitted_def)
qed

end
