(* ===== verification/Handler_Runs.thy ===== *)
theory Handler_Runs
  imports Handler_Steps
begin

text \<open>
  A request whose steps run with nothing in between: the steps of \<open>Handler_Steps\<close> in a row are
  \<^verbatim>\<open>ServeHTTP\<close>, and from wherever a request is, its own steps take it to its reply.
\<close>

section \<open>The filter to its end\<close>

lemma filtering_steps:
  assumes "cs t = Some (Filtering r tk)"
    and "(own_step cd p (tk_info tk) (tk_up tk) ^^ n) (tk_handling tk, s) = (h, s')"
  shows "handler_steps cd p mode told (s, cs) (s', cs(t \<mapsto> Filtering r (tk\<lparr>tk_handling := h\<rparr>)))"
  using assms
proof (induction n arbitrary: s cs tk)
  case 0
  then have "cs(t \<mapsto> Filtering r (tk\<lparr>tk_handling := h\<rparr>)) = cs" "s' = s" by (simp_all add: fun_upd_idem)
  then show ?case by (simp add: at_rest)
next
  case (Suc n)
  obtain h1 s1 where step: "handle_step cd p (tk_info tk) (tk_up tk) (tk_handling tk) s = (h1, s1)"
    by fastforce
  let ?tk = "tk\<lparr>tk_handling := h1\<rparr>"
  have "(own_step cd p (tk_info tk) (tk_up tk) ^^ n) (h1, s1) = (h, s')"
    using Suc.prems(2) step by (simp add: funpow_Suc_right del: funpow.simps)
  then have "handler_steps cd p mode told (s1, cs(t \<mapsto> Filtering r ?tk))
      (s', cs(t \<mapsto> Filtering r (tk\<lparr>tk_handling := h\<rparr>)))"
    using Suc.IH [of "cs(t \<mapsto> Filtering r ?tk)" ?tk s1, OF fun_upd_same] by (simp del: fun_upd_apply)
  from handler_steps_trans [OF this one_handler_step [OF filtering [where cs = cs and t = t, OF Suc.prems(1) step]]]
  show ?case .
qed

lemma filtering_answered:
  assumes "cs t = Some (Filtering r tk)"
  shows "\<exists>s' c x. handler_steps cd p mode told (s, cs) (s', cs(t \<mapsto> c)) \<and> replied c = Some (r, x)"
proof -
  obtain res s1 where "(own_step cd p (tk_info tk) (tk_up tk) ^^ handle_left (tk_handling tk))
      (tk_handling tk, s) = (Handled res, s1)" using handle_finishes by blast
  note run = filtering_steps [where cs = cs and t = t, OF assms this, of mode told]
  let ?tk = "tk\<lparr>tk_handling := Handled res\<rparr>"
  obtain c s2 where reply: "respond p r ?tk res s1 = (c, s2)" by fastforce
  have "handler_step cd p mode told (s1, cs(t \<mapsto> Filtering r ?tk)) (s2, cs(t \<mapsto> c))"
    using responding [OF _ _ reply, of "cs(t \<mapsto> Filtering r ?tk)" t cd mode told] by simp
  with run have "handler_steps cd p mode told (s, cs) (s2, cs(t \<mapsto> c))" by (rule go_on)
  moreover have "\<exists>x. replied c = Some (r, x)"
    using reply by (auto simp: respond_def split: prod.splits)
  ultimately show ?thesis by blast
qed

lemma told_answered:
  assumes t: "cs t = Some (Authorizing r i)" "told t i res"
  shows "\<exists>s' c x. handler_steps cd p mode told (s, cs) (s', cs(t \<mapsto> c)) \<and> replied c = Some (r, x)"
proof -
  obtain c s' where x: "authorized cd p mode down_upstream r i res s = (c, s')" by fastforce
  have "\<exists>y. replied c = Some (r, y)"
    using x by (auto simp: authorized_def down_upstream_def Let_def split: sum.splits prod.splits)
  with one_handler_step [OF resolved [where cs = cs and t = t and told = told, OF t x]] show ?thesis by blast
qed

section \<open>The whole request\<close>

text \<open>The task a request's reply was filtered under, when it was, is the one its backend response gave.\<close>

definition its_task :: "codec \<Rightarrow> proxy \<Rightarrow> upstream \<Rightarrow> request \<Rightarrow> connection \<Rightarrow> bool" where
  "its_task cd p up r c \<longleftrightarrow> (\<forall>tk. connection_task c = Some tk \<longrightarrow>
     (\<exists>info ur h. round_trip up (Rewrite up r) = Inr ur
        \<and> tk = (accept cd p (Rewrite up r) info ur)\<lparr>tk_handling := h\<rparr>))"

definition timer_stops :: "string \<Rightarrow> 'a go_state_scheme \<Rightarrow> 'a go_state_scheme" where
  "timer_stops mode s = observe (\<lambda>m. m\<lparr>ScopeResolutionDuration := vec_inc [mode] (ScopeResolutionDuration m)\<rparr>) s"

definition after_answer ::
  "codec \<Rightarrow> proxy \<Rightarrow> string \<Rightarrow> upstream \<Rightarrow> request \<Rightarrow> identity \<Rightarrow> go_error + scope
   \<Rightarrow> ('az, 'b) reg_state_scheme \<Rightarrow> reply \<times> ('az, 'b) reg_state_scheme" where
  "after_answer cd p mode up r i res s =
    (case res of
        Inl e \<Rightarrow> (if clientGone e then No_Reply
              else Http_Error StatusInternalServerError ''authorization backend unavailable'',
            observe_duration (request_route p r)
              (count_request (request_route p r) OutcomeAuthzError (timer_stops mode s)))
      | Inr sc \<Rightarrow> map_prod id (observe_duration (request_route p r))
            (rp_ServeHTTP cd p up (Some \<lparr>filtered = True, ri_scope = sc, ri_id = i\<rparr>) r
              (count_request (request_route p r) OutcomeFiltered (timer_stops mode s))))"

lemma answered_alone:
  assumes t: "cs t = Some (Authorizing r i)" "told t i res"
    and run: "after_answer cd p mode up r i res s = (reply, s')"
  shows "\<exists>c. handler_steps cd p mode told (s, cs) (s', cs(t \<mapsto> c)) \<and> replied c = Some (r, reply)
    \<and> its_task cd p up r c"
proof -
  obtain c s1 where x: "authorized cd p mode up r i res s = (c, s1)" by fastforce
  note step = one_handler_step [OF resolved [where cs = cs and t = t and told = told, OF t x]]
  note defs = authorized_def after_answer_def timer_stops_def Let_def
  show ?thesis
  proof (cases "connection_task c")
    case None
    with x run have "replied c = Some (r, reply) \<and> s1 = s'"
      by (auto simp: defs rp_ServeHTTP_def split: sum.splits prod.splits)
    with step None show ?thesis by (auto simp: its_task_def)
  next
    case (Some tk)
    with x obtain sc ur where c: "c = Filtering r tk" "res = Inr sc" "round_trip up (Rewrite up r) = Inr ur"
        "tk = accept cd p (Rewrite up r) \<lparr>filtered = True, ri_scope = sc, ri_id = i\<rparr> ur"
        "s1 = count_request (request_route p r) OutcomeFiltered (timer_stops mode s)"
      by (auto simp: defs split: sum.splits prod.splits)
    let ?info = "\<lparr>filtered = True, ri_scope = sc, ri_id = i\<rparr>"
    obtain fr s2 where fr: "filterResponse cd p (Rewrite up r) (Some ?info) ur s1 = (fr, s2)" by fastforce
    let ?tk = "tk\<lparr>tk_handling := Handled fr\<rparr>"
    obtain c2 s3 where r: "respond p r ?tk fr s2 = (c2, s3)" by fastforce
    have "handler_steps cd p mode told (s1, cs(t \<mapsto> c)) (s2, cs(t \<mapsto> Filtering r ?tk))"
      using filtering_steps [where cs = "cs(t \<mapsto> c)" and t = t and r = r and tk = tk and cd = cd and p = p]
        filter_run [where cd = cd and p = p and info = ?info and up = ur and r = "Rewrite up r" and s = s1] fr
      by (simp add: c(1,4) accept_def)
    moreover have "handler_step cd p mode told (s2, cs(t \<mapsto> Filtering r ?tk)) (s3, cs(t \<mapsto> c2))"
      using responding [OF _ _ r, of "cs(t \<mapsto> Filtering r ?tk)" t cd mode told] by simp
    ultimately have "handler_steps cd p mode told (s, cs) (s3, cs(t \<mapsto> c2))"
      using handler_steps_trans [OF _ step] by (auto intro: go_on)
    moreover have "its_task cd p up r c2"
      using respond_spec [OF r] c(3,4) unfolding its_task_def by (auto intro!: exI)
    moreover have "replied c2 = Some (r, reply) \<and> s3 = s'"
      using r run fr by (auto simp: c after_answer_def rp_ServeHTTP_def respond_def accept_def Let_def
          split: sum.splits option.splits prod.splits)
    ultimately show ?thesis by blast
  qed
qed

text \<open>What \<^verbatim>\<open>ServeHTTP\<close> does, seen in these steps.\<close>

lemma ServeHTTP_steps:
  assumes api: "has_prefix (rq_path r) (apiPrefix p)" and i: "From (px_headers p) (rq_header r) = Inr i"
    and run: "ServeHTTP (Instrumented az mode) cd p up r s = (reply, s')"
    and x: "receive cd p mode up r s = (c, s1)" and call: "az i s1 = (res, s2)"
  shows "c = Authorizing r i \<and> after_answer cd p mode up r i res s2 = (reply, s')"
proof -
  from x api i have c: "c = Authorizing r i"
    "s1 = observe (\<lambda>m. m\<lparr>ScopeResolutionDuration :=
        with_label_values [mode] (ScopeResolutionDuration m)\<rparr>) (timed p r s)"
    by (simp_all add: receive_def Let_def)
  with run call i show ?thesis
    by (cases res) (auto simp: ServeHTTP_api [OF api] Instrumented_def after_answer_def timer_stops_def Let_def)
qed

lemma ServeHTTP_refuses:
  assumes "\<nexists>i. has_prefix (rq_path r) (apiPrefix p) \<and> From (px_headers p) (rq_header r) = Inr i"
    and "ServeHTTP az cd p up r s = (reply, s')"
  shows "receive cd p mode up r s = (Refused r reply, s')"
  using assms
  by (auto simp: receive_def ServeHTTP_def request_route_def timed_def Let_def split: sum.splits prod.splits)

end
