(* ===== verification/Rbac_Flight.thy ===== *)
theory Rbac_Flight
  imports Rbac_Laws Rbac_Watch_Laws
begin

text \<open>
  Concurrent callers of \<^verbatim>\<open>AllowedNamespaces\<close> (\<^verbatim>\<open>internal/authz/rbac/rbac.go\<close>): what one call does
  between two points where others may run, and how the calls of several goroutines, the sweeper and
  the watch interleave. \<^verbatim>\<open>singleflight.Group.Do\<close> enters by its documented contract: the first caller
  for a key runs the function, a caller that comes while it runs waits, and all get its result.
\<close>

section \<open>One resolution in small steps\<close>

text \<open>
  Where the caller that runs the function is: the second look at the cache, setting the deadline,
  the cluster-wide review, the list, the reviews still to complete, the store, and the result.
\<close>

datatype phase =
    Recheck
  | Set_Deadline
  | Ask_All int
  | List_Namespaces int
  | Reviewing int "string list" "go_error option" "bool gomap"
  | Storing scope
  | Landing "go_error + scope"

fun advance :: "kube \<Rightarrow> identity \<Rightarrow> phase \<Rightarrow> 'b rbac_state \<Rightarrow> phase \<times> 'b rbac_state" where
  "advance kc i Recheck s =
    (case cached (cacheKey i) s of
       (Some sc, s) \<Rightarrow> (Landing (Inr sc), s)
     | (None, s) \<Rightarrow> (Set_Deadline, s))"
| "advance kc i Set_Deadline s = (let (t, s) = now s in (Ask_All (t + ra_ttl (auth s)), s))"
| "advance kc i (Ask_All d) s =
    (case canListPods kc d i [] s of
       (Inl e, s) \<Rightarrow> (Landing (Inl e), s)
     | (Inr True, s) \<Rightarrow> (Storing \<lparr>sc_all = True, sc_namespaces = []\<rparr>, s)
     | (Inr False, s) \<Rightarrow> (List_Namespaces d, s))"
| "advance kc i (List_Namespaces d) s =
    (let n = ticks (rt s);
         (t, s) = now s
     in case list_namespaces kc n d of
          Inl e \<Rightarrow> (Landing (Inl e), s)
        | Inr names \<Rightarrow>
            let (order, s) = range_map (map (\<lambda>name. (name, ())) names) s
            in (Reviewing d order None [], s))"
| "advance kc i (Reviewing d (ns # nss) err allowed) s =
    (case canListPods kc d i ns s of
       (Inl e, s) \<Rightarrow> (Reviewing d nss (case err of None \<Rightarrow> Some e | Some e' \<Rightarrow> Some e') allowed, s)
     | (Inr ok, s) \<Rightarrow> (Reviewing d nss err (if ok then set_true ns allowed else allowed), s))"
| "advance kc i (Reviewing d [] err allowed) s =
    (case err of
       Some e \<Rightarrow> (Landing (Inl e), s)
     | None \<Rightarrow> (Storing \<lparr>sc_all = False, sc_namespaces = allowed\<rparr>, s))"
| "advance kc i (Storing sc) s = (Landing (Inr sc), store (cacheKey i) sc i s)"
| "advance kc i (Landing res) s = (Landing res, s)"

section \<open>Callers\<close>

datatype caller =
    Idle
  | Arriving identity
  | Missed identity
  | Leading identity phase
  | Waiting identity
  | Returned identity "go_error + scope"

record 'b flights =
  shared :: "'b rbac_state"
  callers :: "nat \<Rightarrow> caller"
  leader :: "string \<Rightarrow> nat option"

definition set_caller :: "nat \<Rightarrow> caller \<Rightarrow> 'b flights \<Rightarrow> 'b flights" where
  "set_caller t c F = F\<lparr>callers := (callers F)(t := c)\<rparr>"

text \<open>The end of a flight: the leader and everyone who waits for its key return with the result.\<close>

definition landed :: "nat \<Rightarrow> identity \<Rightarrow> go_error + scope \<Rightarrow> (nat \<Rightarrow> caller) \<Rightarrow> nat \<Rightarrow> caller" where
  "landed t i res cs u =
    (if u = t then Returned i res
     else case cs u of
         Waiting j \<Rightarrow> if cacheKey j = cacheKey i then Returned j res else cs u
       | _ \<Rightarrow> cs u)"

definition land :: "nat \<Rightarrow> identity \<Rightarrow> go_error + scope \<Rightarrow> 'b flights \<Rightarrow> 'b flights" where
  "land t i res F = F\<lparr>callers := landed t i res (callers F), leader := (leader F)(cacheKey i := None)\<rparr>"

inductive flight_step :: "kube \<Rightarrow> 'b flights \<Rightarrow> 'b flights \<Rightarrow> bool" for kc where
  arrive: "callers F t = Idle \<Longrightarrow> flight_step kc F (set_caller t (Arriving i) F)"
| hit: "callers F t = Arriving i \<Longrightarrow> cached (cacheKey i) (shared F) = (Some sc, s) \<Longrightarrow>
    flight_step kc F (set_caller t (Returned i (Inr sc)) (F\<lparr>shared := count_lookup ''hit'' s\<rparr>))"
| miss: "callers F t = Arriving i \<Longrightarrow> cached (cacheKey i) (shared F) = (None, s) \<Longrightarrow>
    flight_step kc F (set_caller t (Missed i) (F\<lparr>shared := count_lookup ''miss'' s\<rparr>))"
| lead: "callers F t = Missed i \<Longrightarrow> leader F (cacheKey i) = None \<Longrightarrow>
    flight_step kc F (set_caller t (Leading i Recheck) (F\<lparr>leader := (leader F)(cacheKey i := Some t)\<rparr>))"
| join: "callers F t = Missed i \<Longrightarrow> leader F (cacheKey i) = Some u \<Longrightarrow>
    flight_step kc F (set_caller t (Waiting i) F)"
| work: "callers F t = Leading i ph \<Longrightarrow> advance kc i ph (shared F) = (ph', s) \<Longrightarrow>
    flight_step kc F (set_caller t (Leading i ph') (F\<lparr>shared := s\<rparr>))"
| finish: "callers F t = Leading i (Landing res) \<Longrightarrow> flight_step kc F (land t i res F)"
| swept: "flight_step kc F (F\<lparr>shared := sweepScopes (shared F)\<rparr>)"
| noticed: "flight_step kc F (F\<lparr>shared := handle ls w n (shared F)\<rparr>)"

inductive flight_steps :: "kube \<Rightarrow> 'b flights \<Rightarrow> 'b flights \<Rightarrow> bool" for kc where
  none: "flight_steps kc F F"
| more: "flight_steps kc F G \<Longrightarrow> flight_step kc G H \<Longrightarrow> flight_steps kc F H"

definition quiet :: "'b rbac_state \<Rightarrow> 'b flights" where
  "quiet s = \<lparr>shared = s, callers = (\<lambda>_. Idle), leader = (\<lambda>_. None)\<rparr>"

lemma set_caller_simps [simp]:
  "shared (set_caller t c F) = shared F" "leader (set_caller t c F) = leader F"
  "callers (set_caller t c F) = (callers F)(t := c)"
  by (simp_all add: set_caller_def)

lemma land_simps [simp]:
  "shared (land t i res F) = shared F" "leader (land t i res F) = (leader F)(cacheKey i := None)"
  "callers (land t i res F) = landed t i res (callers F)"
  by (simp_all add: land_def)

lemma flight_steps_trans:
  "flight_steps kc G H \<Longrightarrow> flight_steps kc F G \<Longrightarrow> flight_steps kc F H"
  by (induction rule: flight_steps.induct) (auto intro: flight_steps.more)

lemma one_step: "flight_step kc F G \<Longrightarrow> flight_steps kc F G"
  by (rule flight_steps.more [OF flight_steps.none])

section \<open>The invariant\<close>

text \<open>What the caller that leads has established so far.\<close>

definition under_way :: "'b rbac_state \<Rightarrow> int \<Rightarrow> nat \<Rightarrow> bool" where
  "under_way s d n\<^sub>0 \<longleftrightarrow> n\<^sub>0 < ticks (rt s) \<and> d = now_at (rt s) n\<^sub>0 + ra_ttl (auth s)"

text \<open>
  A scope one may be told: the API server has confirmed it by now, in one resolution, for an
  identity with the same cache key.
\<close>

definition shown :: "kube \<Rightarrow> 'b rbac_state \<Rightarrow> identity \<Rightarrow> scope \<Rightarrow> bool" where
  "shown kc s i sc \<longleftrightarrow> (\<exists>j n\<^sub>0. cacheKey j = cacheKey i
     \<and> confirmed kc {n\<^sub>0<..<ticks (rt s)} (now_at (rt s) n\<^sub>0 + ra_ttl (auth s)) j sc)"

fun phase_ok :: "kube \<Rightarrow> 'b rbac_state \<Rightarrow> identity \<Rightarrow> phase \<Rightarrow> bool" where
  "phase_ok kc s i Recheck \<longleftrightarrow> True"
| "phase_ok kc s i Set_Deadline \<longleftrightarrow> True"
| "phase_ok kc s i (Ask_All d) \<longleftrightarrow> (\<exists>n\<^sub>0. under_way s d n\<^sub>0)"
| "phase_ok kc s i (List_Namespaces d) \<longleftrightarrow> (\<exists>n\<^sub>0. under_way s d n\<^sub>0)"
| "phase_ok kc s i (Reviewing d nss err allowed) \<longleftrightarrow>
     (\<exists>n\<^sub>0. under_way s d n\<^sub>0
        \<and> (\<forall>ns. get_bool allowed ns \<longrightarrow> reviewed kc {n\<^sub>0<..<ticks (rt s)} d i ns))"
| "phase_ok kc s i (Storing sc) \<longleftrightarrow>
     (\<exists>n\<^sub>0 d. under_way s d n\<^sub>0 \<and> confirmed kc {n\<^sub>0<..<ticks (rt s)} d i sc)"
| "phase_ok kc s i (Landing (Inl e)) \<longleftrightarrow> True"
| "phase_ok kc s i (Landing (Inr sc)) \<longleftrightarrow> shown kc s i sc"

definition caller_ok :: "kube \<Rightarrow> 'b flights \<Rightarrow> nat \<Rightarrow> bool" where
  "caller_ok kc F t \<longleftrightarrow>
    (case callers F t of
       Leading i ph \<Rightarrow> leader F (cacheKey i) = Some t \<and> phase_ok kc (shared F) i ph
     | Waiting i \<Rightarrow> (\<exists>u. leader F (cacheKey i) = Some u)
     | Returned i (Inr sc) \<Rightarrow> shown kc (shared F) i sc
     | _ \<Rightarrow> True)"

definition leads :: "'b flights \<Rightarrow> string \<Rightarrow> nat \<Rightarrow> bool" where
  "leads F k t \<longleftrightarrow> (\<exists>i ph. callers F t = Leading i ph \<and> cacheKey i = k)"

definition flight_ok :: "kube \<Rightarrow> 'b flights \<Rightarrow> bool" where
  "flight_ok kc F \<longleftrightarrow> rbac_ok kc (shared F) \<and> (\<forall>t. caller_ok kc F t)
     \<and> (\<forall>k t. leader F k = Some t \<longrightarrow> leads F k t)"

lemma flight_ok_leader:
  assumes "flight_ok kc F" and "leader F k = Some t"
  obtains i ph where "callers F t = Leading i ph" and "cacheKey i = k"
  using assms unfolding flight_ok_def leads_def by blast

lemma quiet_ok: "rbac_ok kc s \<Longrightarrow> flight_ok kc (quiet s)"
  by (simp add: flight_ok_def quiet_def caller_ok_def)

text \<open>What it has established depends on the TTL, the clock and the past consultations only.\<close>

definition clock_frame :: "'b rbac_state \<Rightarrow> 'b rbac_state \<Rightarrow> bool" where
  "clock_frame s s' \<longleftrightarrow> ra_ttl (auth s') = ra_ttl (auth s)
     \<and> now_at (rt s') = now_at (rt s) \<and> ticks (rt s) \<le> ticks (rt s')"

lemma rbac_frame_clock: "rbac_frame s s' \<Longrightarrow> clock_frame s s'"
  by (simp add: rbac_frame_def clock_frame_def)

lemma under_way_frame: "clock_frame s s' \<Longrightarrow> under_way s d n \<Longrightarrow> under_way s' d n"
  by (auto simp: under_way_def clock_frame_def)

lemma later_reviews:
  "clock_frame s s' \<Longrightarrow> reviewed kc {n<..<ticks (rt s)} d i ns \<Longrightarrow> reviewed kc {n<..<ticks (rt s')} d i ns"
  by (erule reviewed_mono) (auto simp: clock_frame_def)

lemma later_confirmed:
  "clock_frame s s' \<Longrightarrow> confirmed kc {n<..<ticks (rt s)} d i sc \<Longrightarrow> confirmed kc {n<..<ticks (rt s')} d i sc"
  by (erule confirmed_mono) (auto simp: clock_frame_def)

lemma shown_frame:
  assumes "clock_frame s s'" and "shown kc s i sc"
  shows "shown kc s' i sc"
proof -
  from assms(2) obtain j n where "cacheKey j = cacheKey i"
    and "confirmed kc {n<..<ticks (rt s)} (now_at (rt s) n + ra_ttl (auth s)) j sc" unfolding shown_def by blast
  with later_confirmed [OF assms(1)] assms(1) show ?thesis unfolding shown_def clock_frame_def by metis
qed

lemma phase_ok_frame:
  assumes f: "clock_frame s s'" and ok: "phase_ok kc s i ph"
  shows "phase_ok kc s' i ph"
proof (cases ph)
  case (Reviewing d nss err allowed)
  with ok obtain n where "under_way s d n"
    and "\<And>ns. get_bool allowed ns \<Longrightarrow> reviewed kc {n<..<ticks (rt s)} d i ns" by auto
  with under_way_frame [OF f] later_reviews [OF f] show ?thesis unfolding Reviewing phase_ok.simps by blast
next
  case (Storing sc)
  with ok obtain n d where "under_way s d n" and "confirmed kc {n<..<ticks (rt s)} d i sc" by auto
  with under_way_frame [OF f] later_confirmed [OF f] show ?thesis unfolding Storing phase_ok.simps by blast
next
  case (Landing res)
  with ok shown_frame [OF f] show ?thesis by (cases res) auto
qed (use ok under_way_frame [OF f] in auto)

lemma shown_reviews:
  assumes "shown kc s i sc"
  obtains j d where "cacheKey j = cacheKey i" and "sc_all sc \<Longrightarrow> reviewed kc {..<ticks (rt s)} d j []"
    and "\<And>ns. in_scope sc ns \<Longrightarrow> reviewed kc {..<ticks (rt s)} d j ns"
proof -
  from assms obtain j n where j: "cacheKey j = cacheKey i"
    and conf: "confirmed kc {n<..<ticks (rt s)} (now_at (rt s) n + ra_ttl (auth s)) j sc"
    unfolding shown_def by blast
  have "confirmed kc {..<ticks (rt s)} (now_at (rt s) n + ra_ttl (auth s)) j sc"
    by (rule confirmed_mono [OF conf]) auto
  with that j show ?thesis unfolding confirmed_def by blast
qed

lemma shown_lookup [simp]: "shown kc (count_lookup r s) = shown kc s"
  by (simp add: shown_def count_lookup_def fun_eq_iff)

lemma cached_shown:
  assumes "rbac_ok kc s" and "cached (cacheKey i) s = (Some sc, s')"
  shows "shown kc s' i sc"
proof -
  from assms(2) obtain c where c: "map_of (scopes s) (cacheKey i) = Some c" "sc = cs_scope c"
    by (auto simp: cached_def Let_def split: option.splits if_splits prod.splits)
  with assms(1) obtain n m where "cacheKey i = cacheKey (cs_id c)" "m < ticks (rt s)"
    and conf: "confirmed kc {n<..<m} (now_at (rt s) n + ra_ttl (auth s)) (cs_id c) sc"
    unfolding rbac_ok_def entry_ok_def by blast
  moreover have "confirmed kc {n<..<ticks (rt s)} (now_at (rt s) n + ra_ttl (auth s)) (cs_id c) sc"
    by (rule confirmed_mono [OF conf]) (use calculation in auto)
  ultimately have "shown kc s i sc" unfolding shown_def by metis
  moreover have "clock_frame s s'"
    using cached_spec [OF assms(2)] by (auto intro: rbac_frame_clock consults_frame)
  ultimately show ?thesis using shown_frame by blast
qed

lemma advance_ok:
  assumes ok: "rbac_ok kc s" and ph: "phase_ok kc s i ph" and run: "advance kc i ph s = (ph', s')"
  shows "rbac_ok kc s' \<and> rbac_frame s s' \<and> phase_ok kc s' i ph'"
proof -
  have consulted: "rbac_ok kc t \<and> rbac_frame s t" if "consults s t" for t
    using rbac_ok_consults [OF that ok] consults_frame [OF that] by blast
  show ?thesis
  proof (cases ph)
    case Recheck
    obtain r t where c: "cached (cacheKey i) s = (r, t)" by fastforce
    have "consults s t" using cached_spec [OF c] by blast
    with consulted run Recheck c cached_shown [OF ok] show ?thesis by (cases r) auto
  next
    case Set_Deadline
    obtain x t where n: "now s = (x, t)" by fastforce
    have "under_way t (x + ra_ttl (auth t)) (ticks (rt s))"
      using n by (auto simp: now_eq under_way_def)
    with consulted consults_now [OF n] run Set_Deadline n show ?thesis by auto
  next
    case (Ask_All d)
    obtain r t where c: "canListPods kc d i [] s = (r, t)" by fastforce
    note spec = canListPods_spec [OF c]
    from ph Ask_All obtain n where n: "under_way s d n" by auto
    have t: "under_way t d n" by (rule under_way_frame [OF rbac_frame_clock [OF consults_frame [OF spec(2)]] n])
    consider (err) e where "r = Inl e" | (all) "r = Inr True" | (each) "r = Inr False"
      by (cases r) auto
    then show ?thesis
    proof cases
      case all
      then have "reviewed kc {n<..<ticks (rt t)} d i []"
        using spec(1,3) n by (auto simp: reviewed_def under_way_def)
      then have "confirmed kc {n<..<ticks (rt t)} d i \<lparr>sc_all = True, sc_namespaces = []\<rparr>"
        by (simp add: confirmed_def)
      moreover have "ph' = Storing \<lparr>sc_all = True, sc_namespaces = []\<rparr>" "s' = t"
        using run Ask_All c all by simp_all
      ultimately show ?thesis using t consulted [OF spec(2)] by (auto intro!: exI [of _ n] exI [of _ d])
    qed (use t consulted [OF spec(2)] run Ask_All c in auto)
  next
    case (List_Namespaces d)
    obtain x t where n: "now s = (x, t)" by fastforce
    have c: "consults s t" using consults_now [OF n] by blast
    from ph List_Namespaces obtain n0 where n0: "under_way s d n0" by auto
    show ?thesis
    proof (cases "list_namespaces kc (ticks (rt s)) d")
      case (Inl e)
      with consulted [OF c] run List_Namespaces n show ?thesis by auto
    next
      case (Inr names)
      obtain order u where o: "range_map (map (\<lambda>name. (name, ())) names) t = (order, u)" by fastforce
      have u: "consults s u" by (rule consults_trans [OF c consults_range [OF o]])
      from under_way_frame [OF rbac_frame_clock [OF consults_frame [OF u]] n0] consulted [OF u] run List_Namespaces n Inr o
      show ?thesis by auto
    qed
  next
    case (Reviewing d nss err allowed)
    from ph Reviewing obtain n0 where n0: "under_way s d n0"
      and so_far: "\<And>ns. get_bool allowed ns \<Longrightarrow> reviewed kc {n0<..<ticks (rt s)} d i ns" by auto
    show ?thesis
    proof (cases nss)
      case Nil
      have "confirmed kc {n0<..<ticks (rt s)} d i \<lparr>sc_all = False, sc_namespaces = allowed\<rparr>"
        using so_far by (simp add: confirmed_def)
      with n0 ok run Reviewing Nil show ?thesis
        by (cases err) (auto intro!: exI [of _ n0] exI [of _ d])
    next
      case (Cons ns rest)
      obtain r t where c: "canListPods kc d i ns s = (r, t)" by fastforce
      note spec = canListPods_spec [OF c]
      note f = rbac_frame_clock [OF consults_frame [OF spec(2)]]
      have t: "under_way t d n0" by (rule under_way_frame [OF f n0])
      have old: "reviewed kc {n0<..<ticks (rt t)} d i m" if "get_bool allowed m" for m
        by (rule later_reviews [OF f so_far [OF that]])
      have new: "reviewed kc {n0<..<ticks (rt t)} d i ns" if "r = Inr True"
        using that spec(1,3) n0 by (auto simp: reviewed_def under_way_def)
      show ?thesis
      proof (cases r)
        case (Inl e)
        with run Reviewing Cons c have "ph' = Reviewing d rest (case err of None \<Rightarrow> Some e | Some x \<Rightarrow> Some x) allowed"
          "s' = t" by simp_all
        with t old consulted [OF spec(2)] show ?thesis by auto
      next
        case (Inr b)
        with run Reviewing Cons c have "ph' = Reviewing d rest err (if b then set_true ns allowed else allowed)"
          "s' = t" by simp_all
        with t old new Inr consulted [OF spec(2)] show ?thesis by (auto simp: gomap_simps)
      qed
    qed
  next
    case (Storing sc)
    from ph Storing obtain n0 d where n0: "n0 < ticks (rt s)" and d: "d = now_at (rt s) n0 + ra_ttl (auth s)"
      and conf: "confirmed kc {n0<..<ticks (rt s)} d i sc" by (auto simp: under_way_def)
    have shown: "shown kc s i sc" unfolding shown_def using conf d by blast
    have "rbac_ok kc (store (cacheKey i) sc i s)" "rbac_frame s (store (cacheKey i) sc i s)"
      using store_spec [OF ok refl n0 conf [unfolded d]] by auto
    with shown_frame [OF rbac_frame_clock shown] run Storing show ?thesis by auto
  next
    case (Landing res)
    with run ph ok show ?thesis by auto
  qed
qed

section \<open>Every step keeps it\<close>

lemma caller_ok_shared:
  assumes "clock_frame (shared F) s" and "caller_ok kc F t"
  shows "caller_ok kc (F\<lparr>shared := s\<rparr>) t"
  using assms phase_ok_frame [OF assms(1)] shown_frame [OF assms(1)]
  by (auto simp: caller_ok_def split: caller.splits sum.splits)

lemma flight_ok_shared:
  assumes "flight_ok kc F" and "rbac_ok kc s" and "clock_frame (shared F) s"
  shows "flight_ok kc (F\<lparr>shared := s\<rparr>)"
  using assms caller_ok_shared [OF assms(3)] by (auto simp: flight_ok_def leads_def)

text \<open>Moving a caller that leads nothing to a place where it leads nothing.\<close>

lemma flight_ok_move:
  assumes ok: "flight_ok kc F" and idle: "\<And>i ph. callers F t \<noteq> Leading i ph"
    and "caller_ok kc (set_caller t c F) t"
  shows "flight_ok kc (set_caller t c F)"
proof -
  have "caller_ok kc (set_caller t c F) u" for u
    using ok assms(3) by (cases "u = t") (auto simp: flight_ok_def caller_ok_def split: caller.splits sum.splits)
  moreover have "leads (set_caller t c F) k u" if "leader F k = Some u" for k u
  proof -
    from ok that obtain i ph where i: "callers F u = Leading i ph" "cacheKey i = k"
      by (rule flight_ok_leader)
    with idle have "u \<noteq> t" by metis
    with i show ?thesis by (simp add: leads_def)
  qed
  ultimately show ?thesis using ok by (simp add: flight_ok_def)
qed

lemma flight_step_ok:
  assumes "flight_step kc F G" and ok: "flight_ok kc F"
  shows "flight_ok kc G \<and> rbac_frame (shared F) (shared G)"
  using assms(1)
proof (cases rule: flight_step.cases)
  case (arrive t i)
  with flight_ok_move [OF ok, of t "Arriving i"] show ?thesis by (simp add: caller_ok_def)
next
  case (hit t i sc s)
  have r: "rbac_ok kc (shared F)" using ok by (simp add: flight_ok_def)
  have c: "consults (shared F) (count_lookup ''hit'' s)"
    using cached_spec [OF hit(3)] consults_trans consults_lookup by blast
  have F1: "flight_ok kc (F\<lparr>shared := count_lookup ''hit'' s\<rparr>)"
    by (rule flight_ok_shared [OF ok rbac_ok_consults [OF c r] rbac_frame_clock [OF consults_frame [OF c]]])
  have "flight_ok kc G"
    unfolding hit(1) using hit(2) cached_shown [OF r hit(3)]
    by (intro flight_ok_move [OF F1]) (simp_all add: caller_ok_def)
  with c hit(1) show ?thesis by (simp add: consults_frame)
next
  case (miss t i s)
  have r: "rbac_ok kc (shared F)" using ok by (simp add: flight_ok_def)
  have c: "consults (shared F) (count_lookup ''miss'' s)"
    using cached_spec [OF miss(3)] consults_trans consults_lookup by blast
  have F1: "flight_ok kc (F\<lparr>shared := count_lookup ''miss'' s\<rparr>)"
    by (rule flight_ok_shared [OF ok rbac_ok_consults [OF c r] rbac_frame_clock [OF consults_frame [OF c]]])
  have "flight_ok kc G"
    unfolding miss(1) using miss(2) by (intro flight_ok_move [OF F1]) (simp_all add: caller_ok_def)
  with c miss(1) show ?thesis by (simp add: consults_frame)
next
  case (lead t i)
  have others: "cacheKey j \<noteq> cacheKey i" if "callers F u = Leading j ph" for u j ph
  proof -
    have "caller_ok kc F u" using ok by (simp add: flight_ok_def)
    with that lead(3) show ?thesis by (auto simp: caller_ok_def)
  qed
  have "caller_ok kc G u" for u
    using ok lead others [of u]
    by (cases "u = t") (auto simp: flight_ok_def caller_ok_def split: caller.splits sum.splits)
  moreover have "leads G k u" if "leader G k = Some u" for k u
  proof (cases "k = cacheKey i")
    case True
    with that lead(1) show ?thesis by (simp add: leads_def)
  next
    case False
    with that lead(1) have "leader F k = Some u" by simp
    with ok obtain j ph where j: "callers F u = Leading j ph" "cacheKey j = k" by (rule flight_ok_leader)
    with lead(2) have "u \<noteq> t" by auto
    with j lead(1) show ?thesis by (simp add: leads_def)
  qed
  ultimately show ?thesis using ok lead(1) by (simp add: flight_ok_def)
next
  case (join t i u)
  with flight_ok_move [OF ok, of t "Waiting i"] show ?thesis by (simp add: caller_ok_def)
next
  case (work t i ph ph' s)
  have r: "rbac_ok kc (shared F)" and cok: "caller_ok kc F t" using ok by (simp_all add: flight_ok_def)
  with work(2) have ph: "phase_ok kc (shared F) i ph" and lt: "leader F (cacheKey i) = Some t"
    by (simp_all add: caller_ok_def)
  note adv = advance_ok [OF r ph work(3)]
  have F1: "flight_ok kc (F\<lparr>shared := s\<rparr>)" using flight_ok_shared [OF ok] adv rbac_frame_clock by blast
  have "caller_ok kc G u" for u
    using F1 adv lt work(1) by (cases "u = t") (auto simp: flight_ok_def caller_ok_def split: caller.splits sum.splits)
  moreover have "leads G k u" if "leader G k = Some u" for k u
  proof -
    from that work(1) have "leader F k = Some u" by simp
    with ok obtain j ph where "callers F u = Leading j ph" "cacheKey j = k" by (rule flight_ok_leader)
    with work(1,2) show ?thesis by (cases "u = t") (auto simp: leads_def)
  qed
  ultimately show ?thesis using adv work(1) by (simp add: flight_ok_def)
next
  case (finish t i res)
  have cok: "caller_ok kc F u" for u using ok by (simp add: flight_ok_def)
  from cok [of t] finish(2) have res: "phase_ok kc (shared F) i (Landing res)"
    and lt: "leader F (cacheKey i) = Some t" by (simp_all add: caller_ok_def)
  have shown: "shown kc (shared F) j sc" if "res = Inr sc" "cacheKey j = cacheKey i" for j sc
    using res that by (simp add: shown_def)
  have "caller_ok kc G u" for u
    using cok [of u] shown lt
    by (auto simp: finish(1) caller_ok_def landed_def split: caller.splits sum.splits)
  moreover have "leads G k u" if "leader G k = Some u" for k u
  proof -
    from that have u: "leader F k = Some u" "k \<noteq> cacheKey i" by (auto simp: finish(1) split: if_splits)
    from ok u(1) obtain j ph where "callers F u = Leading j ph" "cacheKey j = k"
      by (rule flight_ok_leader)
    with u(2) finish(2) show ?thesis by (auto simp: finish(1) leads_def landed_def)
  qed
  ultimately show ?thesis using ok finish(1) by (simp add: flight_ok_def)
next
  case swept
  have r: "rbac_ok kc (shared F)" using ok by (simp add: flight_ok_def)
  have "rbac_ok kc (sweepScopes (shared F))" "rbac_frame (shared F) (sweepScopes (shared F))"
    using evictExpired_spec [OF r] by (simp_all add: sweepScopes_def)
  with flight_ok_shared [OF ok this(1) rbac_frame_clock [OF this(2)]] swept show ?thesis by simp
next
  case (noticed ls w n)
  have r: "rbac_ok kc (shared F)" using ok by (simp add: flight_ok_def)
  from flight_ok_shared [OF ok handle_ok [OF r] rbac_frame_clock [OF handle_frame [OF r]]] handle_frame [OF r] noticed
  show ?thesis by simp
qed

lemma flight_steps_ok:
  "flight_steps kc F G \<Longrightarrow> flight_ok kc F \<Longrightarrow> flight_ok kc G \<and> rbac_frame (shared F) (shared G)"
proof (induction rule: flight_steps.induct)
  case (more F G H)
  with flight_step_ok [OF more(2)] rbac_frame_trans show ?case by blast
qed simp

end
