(* ===== verification/Rbac_Flight_Properties.thy ===== *)
theory Rbac_Flight_Properties
  imports Rbac_Flight Rbac_Properties
begin

text \<open>
  What concurrent callers of the RBAC authorizer may rely on: one resolution per key, results that
  are as well founded as sequential ones, no caller left waiting; that a call that meets no other is
  the sequential model of the call; and a revocation that is lost on a resolution in progress.
\<close>

section \<open>A flight run to its end\<close>

fun phase_rank :: "phase \<Rightarrow> nat" where
  "phase_rank Recheck = 6"
| "phase_rank Set_Deadline = 5"
| "phase_rank (Ask_All d) = 4"
| "phase_rank (List_Namespaces d) = 3"
| "phase_rank (Reviewing d nss err allowed) = 2"
| "phase_rank (Storing sc) = 1"
| "phase_rank (Landing res) = 0"

fun pending :: "phase \<Rightarrow> nat" where
  "pending (Reviewing d nss err allowed) = length nss"
| "pending _ = 0"

lemma advance_decreases:
  assumes "phase_rank ph \<noteq> 0"
  shows "phase_rank (fst (advance kc i ph s)) < phase_rank ph
    \<or> phase_rank (fst (advance kc i ph s)) = phase_rank ph \<and> pending (fst (advance kc i ph s)) < pending ph"
  using assms
proof (cases ph)
  case (Reviewing d nss err allowed)
  then show ?thesis by (cases nss) (auto split: sum.split prod.split option.split)
qed (auto simp: Let_def split: sum.split prod.split option.split bool.split)

lemma advance_measured:
  "phase_rank ph \<noteq> 0 \<Longrightarrow> ((kc, i, fst (advance kc i ph s), snd (advance kc i ph s)), (kc, i, ph, s))
     \<in> measures [\<lambda>(kc, i, ph, s). phase_rank ph, \<lambda>(kc, i, ph, s). pending ph]"
  using advance_decreases [of ph kc i s] by (simp add: case_prod_beta del: advance.simps)

function fly :: "kube \<Rightarrow> identity \<Rightarrow> phase \<Rightarrow> 'b rbac_state \<Rightarrow> (go_error + scope) \<times> 'b rbac_state" where
  "fly kc i ph s =
    (case ph of
       Landing res \<Rightarrow> (res, s)
     | _ \<Rightarrow> let x = advance kc i ph s in fly kc i (fst x) (snd x))"
  by pat_completeness auto
termination
  apply (relation "measures [\<lambda>(kc, i, ph, s). phase_rank ph, \<lambda>(kc, i, ph, s). pending ph]")
  apply simp
  apply (hypsubst, rule advance_measured, simp)+
  done

declare fly.simps [simp del]

lemma fly_Landing [simp]: "fly kc i (Landing res) s = (res, s)"
  by (simp add: fly.simps)

lemma fly_eq:
  "phase_rank ph \<noteq> 0 \<Longrightarrow> fly kc i ph s = fly kc i (fst (advance kc i ph s)) (snd (advance kc i ph s))"
  by (subst fly.simps) (cases ph; simp add: Let_def del: advance.simps)

lemma fly_advance: "advance kc i ph s = (ph', s') \<Longrightarrow> fly kc i ph s = fly kc i ph' s'"
  using fly_eq [of ph kc i s] by (cases "phase_rank ph = 0") (auto elim: phase_rank.elims simp del: advance.simps(1-7))

lemma fly_Storing [simp]: "fly kc i (Storing sc) s = (Inr sc, store (cacheKey i) sc i s)"
  by (simp add: fly_eq)

lemma fly_Reviewing:
  "fly kc i (Reviewing d nss err allowed) s =
    (case review_each kc d i nss err allowed s of
       (Some e, allowed, s) \<Rightarrow> (Inl e, s)
     | (None, allowed, s) \<Rightarrow>
         fly kc i (Storing \<lparr>sc_all = False, sc_namespaces = allowed\<rparr>) s)"
proof (induction nss arbitrary: err allowed s)
  case Nil
  show ?case by (subst fly_eq) (auto split: option.split)
next
  case (Cons ns nss)
  show ?case
    by (subst fly_eq) (auto simp: Cons.IH split: sum.split prod.split)
qed

lemma fly_Ask_All:
  "fly kc i (Ask_All d) s =
    (case resolve kc d i s of
       (Inl e, s) \<Rightarrow> (Inl e, s)
     | (Inr sc, s) \<Rightarrow> (Inr sc, store (cacheKey i) sc i s))"
  by (simp add: fly_eq [of "Ask_All d"] fly_eq [of "List_Namespaces d"] fly_Reviewing resolve_def Let_def
    split: sum.split prod.split bool.split option.split)

lemma fly_Recheck:
  "fly kc i Recheck s =
    (case cached (cacheKey i) s of
       (Some sc, s) \<Rightarrow> (Inr sc, s)
     | (None, s) \<Rightarrow> let (t, s) = now s in fly kc i (Ask_All (t + ra_ttl (auth s))) s)"
  by (simp add: fly_eq [of Recheck] fly_eq [of Set_Deadline] Let_def split: prod.split option.split)

lemma RbacAllowed_fly:
  "RbacAllowed kc i s =
    (case cached (cacheKey i) s of
       (Some sc, s) \<Rightarrow> (Inr sc, count_lookup ''hit'' s)
     | (None, s) \<Rightarrow> fly kc i Recheck (count_lookup ''miss'' s))"
  by (simp add: RbacAllowed_def fly_Recheck fly_Ask_All Let_def split: prod.split option.split)

lemma fly_induct [case_names landing working]:
  assumes "\<And>kc i res s. P kc i (Landing res) s"
    and "\<And>kc i ph s. phase_rank ph \<noteq> 0 \<Longrightarrow>
      P kc i (fst (advance kc i ph s)) (snd (advance kc i ph s)) \<Longrightarrow> P kc i ph s"
  shows "P kc i ph s"
proof (induction kc i ph s rule: fly.induct)
  case (1 kc i ph s)
  show ?case
  proof (cases "phase_rank ph = 0")
    case True
    then show ?thesis by (cases ph) (use assms(1) in auto)
  next
    case False
    show ?thesis
      using 1 by (intro assms(2) [OF False]) (cases ph; use False in \<open>simp del: advance.simps\<close>)
  qed
qed

section \<open>A leader can always finish\<close>

lemma set_caller_same: "callers F t = c \<Longrightarrow> set_caller t c F = F"
  by (auto simp: set_caller_def)

lemma set_caller_again [simp]:
  "set_caller t c (set_caller t c' F) = set_caller t c F"
  "(set_caller t c F)\<lparr>shared := s\<rparr> = set_caller t c (F\<lparr>shared := s\<rparr>)"
  by (simp_all add: set_caller_def)

lemma shared_same [simp]: "F\<lparr>shared := shared F\<rparr> = F"
  by (cases F) simp

lemma landed_upd [simp]: "landed t i res (cs(t := c)) = landed t i res cs"
  by (auto simp: landed_def fun_eq_iff split: caller.split)

lemma land_set_caller [simp]: "land t i res (set_caller t c F) = land t i res F"
  by (simp add: land_def set_caller_def)

lemma leader_flies:
  "callers F t = Leading i ph \<Longrightarrow> fly kc i ph (shared F) = (res, s) \<Longrightarrow>
    flight_steps kc F (set_caller t (Leading i (Landing res)) (F\<lparr>shared := s\<rparr>))"
proof (induction kc i ph "shared F" arbitrary: F rule: fly_induct)
  case (landing kc i res')
  then show ?case by (auto simp: set_caller_same intro: flight_steps.none)
next
  case (working kc i ph)
  obtain ph' s' where adv: "advance kc i ph (shared F) = (ph', s')" by fastforce
  define G where "G = set_caller t (Leading i ph') (F\<lparr>shared := s'\<rparr>)"
  have step: "flight_step kc F G" unfolding G_def by (rule work [OF working(3) adv])
  have "fly kc i ph' (shared G) = (res, s)"
    using working(4) fly_advance [OF adv] by (simp add: G_def)
  then have "flight_steps kc G (set_caller t (Leading i (Landing res)) (G\<lparr>shared := s\<rparr>))"
    using working(2) [of G] adv by (simp add: G_def)
  from flight_steps_trans [OF this one_step [OF step]] show ?case by (simp add: G_def)
qed

lemma leader_lands:
  assumes "callers F t = Leading i ph" and "fly kc i ph (shared F) = (res, s)"
  shows "flight_steps kc F (land t i res (F\<lparr>shared := s\<rparr>))"
proof -
  have "flight_step kc (set_caller t (Leading i (Landing res)) (F\<lparr>shared := s\<rparr>))
      (land t i res (set_caller t (Leading i (Landing res)) (F\<lparr>shared := s\<rparr>)))"
    by (rule finish) simp
  with leader_flies [OF assms] show ?thesis by (auto intro: flight_steps.more)
qed

section \<open>What callers may rely on\<close>

lemma call_alone:
  assumes ok: "flight_ok kc F"
    and alone: "callers F t = Idle" "leader F (cacheKey i) = None"
    and call: "RbacAllowed kc i (shared F) = (res, s)"
  shows "flight_steps kc (set_caller t (Arriving i) F) (set_caller t (Returned i res) (F\<lparr>shared := s\<rparr>))"
proof -
  have nobody: "cacheKey j \<noteq> cacheKey i" if "callers F u = Waiting j" for u j
  proof -
    from ok have "caller_ok kc F u" by (simp add: flight_ok_def)
    with that alone(2) show ?thesis by (auto simp: caller_ok_def)
  qed
  define A where "A = set_caller t (Arriving i) F"
  obtain hit s1 where c: "cached (cacheKey i) (shared F) = (hit, s1)" by fastforce
  show ?thesis
  proof (cases hit)
    case (Some sc)
    have "flight_step kc A (set_caller t (Returned i (Inr sc)) (A\<lparr>shared := count_lookup ''hit'' s1\<rparr>))"
      by (rule flight_step.hit) (simp_all add: A_def c Some)
    from one_step [OF this] call c Some show ?thesis
      by (auto simp: RbacAllowed_fly A_def)
  next
    case None
    define M where "M = set_caller t (Missed i) (F\<lparr>shared := count_lookup ''miss'' s1\<rparr>)"
    define L where "L = set_caller t (Leading i Recheck) (M\<lparr>leader := (leader M)(cacheKey i := Some t)\<rparr>)"
    have "flight_step kc A (set_caller t (Missed i) (A\<lparr>shared := count_lookup ''miss'' s1\<rparr>))"
      by (rule flight_step.miss) (simp_all add: A_def c None)
    then have M: "flight_step kc A M" by (simp add: A_def M_def)
    have L: "flight_step kc M L"
      unfolding L_def by (rule lead) (simp_all add: M_def alone(2))
    have "fly kc i Recheck (shared L) = (res, s)"
      using call c None by (simp add: RbacAllowed_fly L_def M_def)
    then have "flight_steps kc L (land t i res (L\<lparr>shared := s\<rparr>))"
      by (intro leader_lands) (simp add: L_def)
    then have "flight_steps kc A (land t i res (L\<lparr>shared := s\<rparr>))"
      using flight_steps_trans flight_steps.more [OF one_step [OF M] L] by blast
    moreover have "land t i res (L\<lparr>shared := s\<rparr>) = set_caller t (Returned i res) (F\<lparr>shared := s\<rparr>)"
      using nobody alone(2)
      by (auto simp: land_def set_caller_def landed_def L_def M_def fun_eq_iff split: caller.split)
    ultimately show ?thesis by (simp add: A_def)
  qed
qed

lemma call_alone_idle:
  assumes "flight_ok kc F" and "callers F t = Idle" and "leader F (cacheKey i) = None"
    and "RbacAllowed kc i (shared F) = (res, s)"
  shows "flight_steps kc F (set_caller t (Returned i res) (F\<lparr>shared := s\<rparr>))"
  using flight_steps_trans [OF call_alone [OF assms] one_step [OF arrive [OF assms(2)]]] .

text \<open>
  C5. A call that meets no other resolution for its key behaves exactly as the sequential model of
  \<^verbatim>\<open>AllowedNamespaces\<close> says: from any reachable situation in which nobody resolves the key, the
  caller's own steps lead to its return with that result, in that state, and to nothing else.
\<close>

theorem call_alone_is_sequential:
  assumes start: "rbac_ok kc s\<^sub>0" "flight_steps kc (quiet s\<^sub>0) F"
    and alone: "callers F t = Idle" "leader F (cacheKey i) = None"
    and call: "RbacAllowed kc i (shared F) = (res, s)"
  shows "flight_steps kc F (set_caller t (Returned i res) (F\<lparr>shared := s\<rparr>))"
  using call_alone_idle [OF _ alone call] flight_steps_ok [OF start(2) quiet_ok [OF start(1)]] by blast

text \<open>Closed instances: alice calls alone, and alice calls twice at the same time.\<close>

abbreviation kube_pay :: kube where
  "kube_pay \<equiv> pay_only (\<lambda>_. True)"

lemma rbac_warm_run: "RbacAllowed kube_pay (alice []) (rbac_start int) = (Inr pay_scope, rbac_warm)"
  using alice_resolved by (simp add: rbac_warm_def prod_eq_iff)

definition alice_done where
  "alice_done = set_caller 0 (Returned (alice []) (Inr pay_scope)) (quiet rbac_warm)"

lemma quiet_simps [simp]:
  "shared (quiet s) = s" "callers (quiet s) t = Idle" "leader (quiet s) k = None"
  "(quiet s)\<lparr>shared := s'\<rparr> = quiet s'"
  by (simp_all add: quiet_def)

lemma alice_done_reached: "flight_steps kube_pay (quiet (rbac_start int)) alice_done"
  using call_alone_idle [OF quiet_ok [OF rbac_start_ok], where t = 0 and i = "alice []"] rbac_warm_run
  by (simp add: alice_done_def)

definition two_callers :: "caller \<Rightarrow> caller \<Rightarrow> nat \<Rightarrow> caller" where
  "two_callers a b = (\<lambda>_. Idle)(0 := a, 1 := b)"

lemma two_callers_simps [simp]:
  "two_callers a b 0 = a" "two_callers a b (Suc 0) = b"
  "(two_callers a b)(0 := c) = two_callers c b" "(two_callers a b)(Suc 0 := c) = two_callers a c"
  by (auto simp: two_callers_def)

definition alice_twice where
  "alice_twice = \<lparr>shared = count_lookup ''miss'' (count_lookup ''miss'' (rbac_start int)),
     callers = two_callers (Leading (alice []) Recheck) (Waiting (alice [])),
     leader = (\<lambda>_. None)(cacheKey (alice []) := Some 0)\<rparr>"

lemma cached_empty: "scopes s = [] \<Longrightarrow> cached k s = (None, s)"
  by (simp add: cached_def)

lemma alice_twice_reached: "flight_steps kc (quiet (rbac_start int)) alice_twice"
proof -
  let ?i = "alice []" and ?s = "rbac_start int"
  let ?s1 = "count_lookup ''miss'' ?s"
  let ?k = "(\<lambda>_. None)(cacheKey ?i := Some (0 :: nat))"
  let ?F = "\<lambda>s a b l. \<lparr>shared = s, callers = two_callers a b, leader = l\<rparr>"
  have empty: "scopes ?s = []" "scopes ?s1 = []"
    by (simp_all add: rbac_start_def newAuthorizer_def count_lookup_def observe_def)
  have 0: "quiet ?s = ?F ?s Idle Idle (\<lambda>_. None)" by (simp add: quiet_def two_callers_def fun_upd_idem)
  have 1: "flight_step kc (quiet ?s) (?F ?s (Arriving ?i) Idle (\<lambda>_. None))"
    unfolding 0 using arrive [of "?F ?s Idle Idle (\<lambda>_. None)" 0 kc ?i] by (simp add: set_caller_def)
  have 2: "flight_step kc (?F ?s (Arriving ?i) Idle (\<lambda>_. None)) (?F ?s1 (Missed ?i) Idle (\<lambda>_. None))"
    using miss [of "?F ?s (Arriving ?i) Idle (\<lambda>_. None)" 0 ?i ?s kc] cached_empty [OF empty(1)]
    by (simp add: set_caller_def)
  have 3: "flight_step kc (?F ?s1 (Missed ?i) Idle (\<lambda>_. None)) (?F ?s1 (Leading ?i Recheck) Idle ?k)"
    using lead [of "?F ?s1 (Missed ?i) Idle (\<lambda>_. None)" 0 ?i kc] by (simp add: set_caller_def)
  have 4: "flight_step kc (?F ?s1 (Leading ?i Recheck) Idle ?k) (?F ?s1 (Leading ?i Recheck) (Arriving ?i) ?k)"
    using arrive [of "?F ?s1 (Leading ?i Recheck) Idle ?k" 1 kc ?i] by (simp add: set_caller_def)
  have 5: "flight_step kc (?F ?s1 (Leading ?i Recheck) (Arriving ?i) ?k)
      (?F (count_lookup ''miss'' ?s1) (Leading ?i Recheck) (Missed ?i) ?k)"
    using miss [of "?F ?s1 (Leading ?i Recheck) (Arriving ?i) ?k" 1 ?i ?s1 kc] cached_empty [OF empty(2)]
    by (simp add: set_caller_def)
  have 6: "flight_step kc (?F (count_lookup ''miss'' ?s1) (Leading ?i Recheck) (Missed ?i) ?k) alice_twice"
    using join [of "?F (count_lookup ''miss'' ?s1) (Leading ?i Recheck) (Missed ?i) ?k" 1 ?i 0 kc]
    by (simp add: alice_twice_def set_caller_def)
  note more = flight_steps.more
  show ?thesis by (rule more [OF more [OF more [OF more [OF more [OF one_step [OF 1] 2] 3] 4] 5] 6])
qed

theorem call_alone_is_sequential_witness:
  "flight_steps kube_pay (quiet (rbac_start int)) alice_done"
  using call_alone_is_sequential [OF rbac_start_ok flight_steps.none _ _ , where t = 0 and i = "alice []"]
    rbac_warm_run
  by (simp add: alice_done_def)

text \<open>
  C15. At most one resolution per cache key is in progress at any time, and whoever waits, waits for
  one that is.
\<close>

theorem one_resolution_per_key:
  assumes "rbac_ok kc s\<^sub>0" and "flight_steps kc (quiet s\<^sub>0) F"
  shows "(leads F k t \<longrightarrow> leads F k u \<longrightarrow> t = u)
    \<and> (callers F v = Waiting i \<longrightarrow> (\<exists>w. leads F (cacheKey i) w))"
proof -
  have ok: "flight_ok kc F" using flight_steps_ok [OF assms(2) quiet_ok [OF assms(1)]] by blast
  have "leader F k = Some t" if "leads F k t" for k t
  proof -
    from ok have "caller_ok kc F t" by (simp add: flight_ok_def)
    with that show ?thesis by (auto simp: leads_def caller_ok_def)
  qed
  moreover have "\<exists>w. leads F (cacheKey i) w" if "callers F v = Waiting i"
  proof -
    from ok have "caller_ok kc F v" by (simp add: flight_ok_def)
    with that ok show ?thesis by (auto simp: caller_ok_def flight_ok_def)
  qed
  ultimately show ?thesis by (metis option.inject)
qed

theorem one_resolution_per_key_witness:
  "callers alice_twice 1 = Waiting (alice []) \<and> (\<exists>w. leads alice_twice (cacheKey (alice [])) w)"
proof -
  have "callers alice_twice 1 = Waiting (alice [])" by (simp add: alice_twice_def)
  with one_resolution_per_key [OF rbac_start_ok alice_twice_reached] show ?thesis by blast
qed

text \<open>
  Whatever the interleaving of callers, sweeps and watch notices, a scope returned to a caller is
  one the API server confirmed, grant by grant, for an identity with the caller's cache key.
\<close>

theorem concurrent_results_confirmed:
  assumes "rbac_ok kc s\<^sub>0" and "flight_steps kc (quiet s\<^sub>0) F" and "callers F t = Returned i (Inr sc)"
  shows "\<exists>j d. cacheKey j = cacheKey i
    \<and> (if sc_all sc then reviewed kc {..<ticks (rt (shared F))} d j []
       else \<forall>ns. get_bool (sc_namespaces sc) ns \<longrightarrow> reviewed kc {..<ticks (rt (shared F))} d j ns)"
proof -
  have "caller_ok kc F t"
    using flight_steps_ok [OF assms(2) quiet_ok [OF assms(1)]] by (simp add: flight_ok_def)
  with assms(3) have "shown kc (shared F) i sc" by (simp add: caller_ok_def)
  then show ?thesis by (rule shown_reviews) auto
qed

theorem concurrent_results_confirmed_witness:
  "\<exists>j d. cacheKey j = cacheKey (alice [])
    \<and> (\<forall>ns. get_bool (sc_namespaces pay_scope) ns
         \<longrightarrow> reviewed kube_pay {..<ticks (rt (shared alice_done))} d j ns)"
proof -
  have "callers alice_done 0 = Returned (alice []) (Inr pay_scope)" by (simp add: alice_done_def)
  from concurrent_results_confirmed [OF rbac_start_ok alice_done_reached this] show ?thesis
    by (simp add: pay_scope_def)
qed

text \<open>Whom a caller asks for.\<close>

fun asks :: "caller \<Rightarrow> identity option" where
  "asks Idle = None"
| "asks (Arriving i) = Some i"
| "asks (Missed i) = Some i"
| "asks (Leading i ph) = Some i"
| "asks (Waiting i) = Some i"
| "asks (Returned i res) = Some i"

text \<open>The steps a caller needs to return start no other call.\<close>

definition no_new_call :: "'b flights \<Rightarrow> 'b flights \<Rightarrow> bool" where
  "no_new_call F G \<longleftrightarrow> (\<forall>u. callers F u = Idle \<longrightarrow> callers G u = Idle)"

definition can_return :: "kube \<Rightarrow> 'b flights \<Rightarrow> nat \<Rightarrow> identity \<Rightarrow> bool" where
  "can_return kc F t i \<longleftrightarrow> (\<exists>G res. flight_steps kc F G \<and> no_new_call F G \<and> callers G t = Returned i res)"

lemma can_return_step:
  assumes "flight_step kc F G" and "no_new_call F G" and "can_return kc G t i"
  shows "can_return kc F t i"
  using assms flight_steps_trans [OF _ one_step [OF assms(1)]]
  unfolding can_return_def no_new_call_def by blast

lemma leader_returns:
  assumes "callers F t = Leading i ph"
  shows "can_return kc F t i"
    and "callers F u = Waiting j \<Longrightarrow> cacheKey j = cacheKey i \<Longrightarrow> can_return kc F u j"
proof -
  obtain res s where fly: "fly kc i ph (shared F) = (res, s)" by fastforce
  let ?G = "land t i res (F\<lparr>shared := s\<rparr>)"
  have "no_new_call F ?G" using assms by (auto simp: no_new_call_def landed_def)
  with leader_lands [OF assms fly] show "can_return kc F t i"
    unfolding can_return_def by (intro exI [of _ ?G] exI [of _ res]) (simp add: landed_def)
  assume u: "callers F u = Waiting j" "cacheKey j = cacheKey i"
  with assms have "u \<noteq> t" by auto
  with u leader_lands [OF assms fly] \<open>no_new_call F ?G\<close> show "can_return kc F u j"
    unfolding can_return_def by (intro exI [of _ ?G] exI [of _ res]) (simp add: landed_def)
qed

lemma missed_returns:
  assumes ok: "flight_ok kc F" and t: "callers F t = Missed i"
  shows "can_return kc F t i"
proof (cases "leader F (cacheKey i)")
  case None
  note step = lead [where kc = kc, OF t None]
  show ?thesis
    by (rule can_return_step [OF step]) (auto simp: no_new_call_def t intro!: leader_returns(1))
next
  case (Some u)
  with ok obtain j ph where j: "callers F u = Leading j ph" "cacheKey j = cacheKey i"
    by (rule flight_ok_leader)
  with t have "u \<noteq> t" by auto
  with j have "can_return kc (set_caller t (Waiting i) F) t i"
    by (intro leader_returns(2) [of _ u j ph]) simp_all
  from can_return_step [OF join [OF t Some] _ this] t show ?thesis by (auto simp: no_new_call_def)
qed

lemma call_returns:
  assumes ok: "flight_ok kc F" and i: "asks (callers F t) = Some i"
  shows "can_return kc F t i"
proof (cases "callers F t")
  case (Arriving j)
  obtain hit s where c: "cached (cacheKey j) (shared F) = (hit, s)" by fastforce
  show ?thesis
  proof (cases hit)
    case (Some sc)
    let ?G = "set_caller t (Returned j (Inr sc)) (F\<lparr>shared := count_lookup ''hit'' s\<rparr>)"
    from one_step [OF flight_step.hit [OF Arriving c [unfolded Some]]] i Arriving
    show ?thesis unfolding can_return_def
      by (intro exI [of _ ?G] exI [of _ "Inr sc"]) (auto simp: no_new_call_def)
  next
    case None
    note m = flight_step.miss [OF Arriving c [unfolded None]]
    from can_return_step [OF m _ missed_returns [OF conjunct1 [OF flight_step_ok [OF m ok]], of t j]] i Arriving
    show ?thesis by (auto simp: no_new_call_def)
  qed
next
  case (Missed j)
  with missed_returns [OF ok Missed] i show ?thesis by simp
next
  case (Leading j ph)
  with leader_returns(1) [OF Leading] i show ?thesis by simp
next
  case (Waiting j)
  from ok have "caller_ok kc F t" by (simp add: flight_ok_def)
  with Waiting obtain u where "leader F (cacheKey j) = Some u" by (auto simp: caller_ok_def)
  with ok obtain k ph where k: "callers F u = Leading k ph" "cacheKey k = cacheKey j"
    by (rule flight_ok_leader)
  with leader_returns(2) [OF k(1) Waiting] i Waiting show ?thesis by simp
next
  case (Returned j res)
  with i show ?thesis
    unfolding can_return_def by (intro exI [of _ F] exI [of _ res]) (simp add: no_new_call_def flight_steps.none)
qed (use i in simp)

text \<open>
  No call hangs in the authorizer: in every reachable situation, whoever has called can still
  return, for the identity it asked about.
\<close>

theorem every_call_can_return:
  assumes "rbac_ok kc s\<^sub>0" and "flight_steps kc (quiet s\<^sub>0) F" and "asks (callers F t) = Some i"
  shows "\<exists>G res. flight_steps kc F G \<and> callers G t = Returned i res"
  using call_returns flight_steps_ok [OF assms(2) quiet_ok [OF assms(1)]] assms(3)
  unfolding can_return_def by blast

theorem every_call_can_return_witness:
  "\<exists>G res. flight_steps kube_pay alice_twice G \<and> callers G 1 = Returned (alice []) res"
proof -
  have "asks (callers alice_twice 1) = Some (alice [])" by (simp add: alice_twice_def)
  from every_call_can_return [OF rbac_start_ok alice_twice_reached this] show ?thesis .
qed

section \<open>A resolution ends after a bounded number of steps\<close>

fun steps_left :: "nat \<Rightarrow> phase \<Rightarrow> nat" where
  "steps_left n Recheck = n + 6"
| "steps_left n Set_Deadline = n + 5"
| "steps_left n (Ask_All d) = n + 4"
| "steps_left n (List_Namespaces d) = n + 3"
| "steps_left n (Reviewing d nss err allowed) = length nss + 2"
| "steps_left n (Storing sc) = 1"
| "steps_left n (Landing res) = 0"

lemma steps_left_advance:
  assumes "\<And>k d names. list_namespaces kc k d = Inr names \<Longrightarrow> length names \<le> n"
  shows "steps_left n (fst (advance kc i ph s)) \<le> steps_left n ph - 1"
proof (cases ph)
  case (List_Namespaces d)
  show ?thesis
  proof (cases "list_namespaces kc (ticks (rt s)) d")
    case (Inr names)
    with assms [OF Inr] List_Namespaces show ?thesis by (simp add: now_eq range_map_eq Let_def)
  qed (simp add: List_Namespaces now_eq)
next
  case (Reviewing d nss err allowed)
  then show ?thesis by (cases nss) (auto split: sum.split prod.split option.split)
qed (auto simp: Let_def split: sum.split prod.split option.split bool.split)

lemma steps_left_fold:
  assumes "\<And>k d names. list_namespaces kc k d = Inr names \<Longrightarrow> length names \<le> n"
  shows "steps_left n (fold (\<lambda>s ph. fst (advance kc i ph s)) ss ph) \<le> steps_left n ph - length ss"
proof (induction ss arbitrary: ph)
  case (Cons s ss)
  have "steps_left n (fold (\<lambda>s ph. fst (advance kc i ph s)) ss (fst (advance kc i ph s)))
      \<le> steps_left n (fst (advance kc i ph s)) - length ss"
    by (rule Cons.IH)
  moreover have "steps_left n (fst (advance kc i ph s)) \<le> steps_left n ph - 1"
    by (rule steps_left_advance [OF assms])
  ultimately show ?case by simp
qed simp

text \<open>
  C16. A resolution terminates: whatever other callers, sweeps and notices have made of the shared
  state at each of its steps, and whatever the API server answers, it has its result after six steps
  and one for every namespace of the list.
\<close>

theorem resolution_steps_bounded:
  assumes "\<And>k d names. list_namespaces kc k d = Inr names \<Longrightarrow> length names \<le> n"
    and "n + 6 \<le> length ss"
  shows "\<exists>res. fold (\<lambda>s ph. fst (advance kc i ph s)) ss Recheck = Landing res"
proof -
  have "steps_left n (fold (\<lambda>s ph. fst (advance kc i ph s)) ss Recheck) = 0"
    using steps_left_fold [OF assms(1), where ss = ss and ph = Recheck and i = i] assms(2) by simp
  then show ?thesis by (auto elim: steps_left.elims)
qed

theorem resolution_steps_bounded_witness:
  "\<exists>res. fold (\<lambda>s ph. fst (advance kube_pay (alice []) ph s)) (replicate 8 (rbac_start int)) Recheck = Landing res"
  by (rule resolution_steps_bounded [where n = 2]) (auto simp: pay_only_def)

section \<open>A revocation during a resolution\<close>

definition advances where
  "advances kc i n s = ((\<lambda>(ph, s). advance kc i ph s) ^^ n) (Recheck, s)"

lemma leader_advances:
  assumes "callers F t = Leading i Recheck"
  shows "flight_steps kc F (set_caller t (Leading i (fst (advances kc i n (shared F))))
    (F\<lparr>shared := snd (advances kc i n (shared F))\<rparr>))"
proof (induction n)
  case 0
  then show ?case using assms by (simp add: advances_def set_caller_same flight_steps.none)
next
  case (Suc n)
  obtain ph s where a: "advances kc i n (shared F) = (ph, s)" by fastforce
  obtain ph' s' where b: "advance kc i ph s = (ph', s')" by fastforce
  let ?G = "set_caller t (Leading i ph) (F\<lparr>shared := s\<rparr>)"
  have "flight_step kc ?G (set_caller t (Leading i ph') (?G\<lparr>shared := s'\<rparr>))"
    using work [of ?G t i ph kc ph' s'] b by simp
  with Suc a b show ?case by (auto simp: advances_def intro: flight_steps.more)
qed

text \<open>The state of the authorizer after alice's reviews, and after her binding was deleted.\<close>

definition kube_revoking :: kube where
  "kube_revoking = pay_only (\<lambda>n. n \<le> 5)"

definition before_notice where
  "before_notice = snd (advances kube_revoking (alice []) 6 (count_lookup ''miss'' (rbac_start int)))"

definition alice_binding :: binding_obj where
  "alice_binding = binding ''Role'' ''reader'' [\<lparr>su_kind = ''User'', su_name = ''alice''\<rparr>]"

definition after_notice where
  "after_notice = handle (some_listers []) I_RoleBindings (Deleted (O_RoleBinding alice_binding)) before_notice"

lemma reviews_done: "fst (advances kube_revoking (alice []) 6 (count_lookup ''miss'' (rbac_start int)))
    = Reviewing 60 [] None [(''pay'', True)]"
  by code_simp

lemma notice_too_early: "fst (fly kube_revoking (alice []) (Reviewing 60 [] None [(''pay'', True)]) after_notice)
    = Inr pay_scope"
  by code_simp

lemma stale_grant_served: "fst (RbacAllowed kube_revoking (alice [])
    (snd (fly kube_revoking (alice []) (Reviewing 60 [] None [(''pay'', True)]) after_notice))) = Inr pay_scope"
  by code_simp

lemma after_notice_denied: "6 \<le> ticks (rt after_notice)"
  by code_simp

text \<open>
  A notice evicts what is cached when it arrives; a resolution in progress is not affected. Alice's
  binding is deleted after her review and before the store: the API server denies her from then on,
  yet the call returns the namespace, and so does the cache afterwards.
\<close>

theorem revocation_lost_in_flight:
  "\<exists>F G H. flight_steps kube_revoking (quiet (rbac_start int)) F
    \<and> flight_step kube_revoking F G
    \<and> shared G = handle (some_listers []) I_RoleBindings (Deleted (O_RoleBinding alice_binding)) (shared F)
    \<and> (\<forall>n d. ticks (rt (shared G)) \<le> n \<longrightarrow>
         review kube_revoking n d (review_of (alice []) ''pay'') = Inr False)
    \<and> flight_steps kube_revoking G H
    \<and> callers H 0 = Returned (alice []) (Inr pay_scope)
    \<and> fst (RbacAllowed kube_revoking (alice []) (shared H)) = Inr pay_scope"
proof -
  let ?i = "alice []" and ?kc = kube_revoking and ?s = "rbac_start int"
  let ?ph = "Reviewing 60 [] None [(''pay'', True)]"
  define L where "L = set_caller 0 (Leading ?i Recheck) ((quiet (count_lookup ''miss'' ?s))
    \<lparr>leader := (\<lambda>_. None)(cacheKey ?i := Some 0)\<rparr>)"
  define F where "F = set_caller 0 (Leading ?i ?ph) (L\<lparr>shared := before_notice\<rparr>)"
  define G where "G = F\<lparr>shared := after_notice\<rparr>"
  have empty: "scopes ?s = []" by (simp add: rbac_start_def newAuthorizer_def)
  have A: "flight_step ?kc (quiet ?s) (set_caller 0 (Arriving ?i) (quiet ?s))"
    by (rule arrive) simp
  have M: "flight_step ?kc (set_caller 0 (Arriving ?i) (quiet ?s))
      (set_caller 0 (Missed ?i) (quiet (count_lookup ''miss'' ?s)))"
    using miss [of "set_caller 0 (Arriving ?i) (quiet ?s)" 0 ?i ?s ?kc] cached_empty [OF empty] by simp
  have Ld: "flight_step ?kc (set_caller 0 (Missed ?i) (quiet (count_lookup ''miss'' ?s))) L"
    using lead [of "set_caller 0 (Missed ?i) (quiet (count_lookup ''miss'' ?s))" 0 ?i ?kc]
    by (simp add: L_def set_caller_def quiet_def)
  have "flight_steps ?kc L F"
    using leader_advances [of L 0 ?i ?kc 6] reviews_done by (simp add: F_def L_def before_notice_def)
  with flight_steps_trans flight_steps.more [OF flight_steps.more [OF one_step [OF A] M] Ld]
  have F: "flight_steps ?kc (quiet ?s) F" by blast
  have G: "flight_step ?kc F G"
    using noticed [of ?kc F "some_listers []" I_RoleBindings "Deleted (O_RoleBinding alice_binding)"]
    by (simp add: G_def F_def after_notice_def)
  have fly: "fly ?kc ?i ?ph (shared G) = (Inr pay_scope, snd (fly ?kc ?i ?ph after_notice))"
    using notice_too_early by (simp add: G_def prod_eq_iff)
  have H: "flight_steps ?kc G (land 0 ?i (Inr pay_scope) (G\<lparr>shared := snd (fly ?kc ?i ?ph after_notice)\<rparr>))"
    by (rule leader_lands [OF _ fly]) (simp add: G_def F_def)
  have "review ?kc n d (review_of ?i ''pay'') = Inr False" if "ticks (rt (shared G)) \<le> n" for n d
    using that after_notice_denied by (simp add: G_def kube_revoking_def pay_only_def)
  with F G H stale_grant_served show ?thesis
    by (intro exI [of _ F] exI [of _ G] exI conjI) (auto simp: G_def F_def after_notice_def landed_def)
qed

end
