(* ===== verification/Rbac_Process.thy ===== *)
theory Rbac_Process
  imports Handler_Runs Rbac_Flight_Properties
begin

text \<open>
  The process in RBAC mode with its requests in flight: the steps of \<open>Handler_Steps\<close> around the calls
  of \<open>Rbac_Flight\<close>, with sweeps of registry and scope cache and watch notices at any point.
\<close>

section \<open>The process\<close>

record 'b world =
  flying :: "'b reg_state_ext flights"
  conns :: "nat \<Rightarrow> connection option"

abbreviation view_of :: "'b world \<Rightarrow> (rbac_authorizer, 'b) reg_state_scheme \<times> (nat \<Rightarrow> connection option)" where
  "view_of W \<equiv> (shared (flying W), conns W)"

definition answers :: "'b world \<Rightarrow> nat \<Rightarrow> identity \<Rightarrow> go_error + scope \<Rightarrow> bool" where
  "answers W t i res \<longleftrightarrow> callers (flying W) t = Returned i res"

definition handled ::
  "(rbac_authorizer, 'b) reg_state_scheme \<times> (nat \<Rightarrow> connection option) \<Rightarrow> 'b world \<Rightarrow> 'b world" where
  "handled x W = W\<lparr>flying := (flying W)\<lparr>shared := fst x\<rparr>, conns := snd x\<rparr>"

text \<open>
  A request that waits for its scope calls the authorizer under its own number; no other calls are
  made.
\<close>

inductive serving :: "kube \<Rightarrow> codec \<Rightarrow> proxy \<Rightarrow> 'b world \<Rightarrow> 'b world \<Rightarrow> bool" for kc cd p where
  handling: "handler_step cd p ''rbac'' (answers W) (view_of W) x \<Longrightarrow> serving kc cd p W (handled x W)"
| calling: "conns W t = Some (Authorizing r i) \<Longrightarrow> callers (flying W) t = Idle \<Longrightarrow>
    serving kc cd p W (W\<lparr>flying := set_caller t (Arriving i) (flying W)\<rparr>)"
| resolving: "flight_step kc (flying W) F \<Longrightarrow> no_new_call (flying W) F \<Longrightarrow>
    serving kc cd p W (W\<lparr>flying := F\<rparr>)"

inductive servings :: "kube \<Rightarrow> codec \<Rightarrow> proxy \<Rightarrow> 'b world \<Rightarrow> 'b world \<Rightarrow> bool" for kc cd p where
  no_serving: "servings kc cd p W W"
| more_serving: "servings kc cd p U V \<Longrightarrow> serving kc cd p V W \<Longrightarrow> servings kc cd p U W"

definition idle_world :: "(rbac_authorizer, 'b) reg_state_scheme \<Rightarrow> 'b world" where
  "idle_world s = \<lparr>flying = quiet s, conns = Map.empty\<rparr>"

lemma handled_simps [simp]:
  "conns (handled x W) = snd x" "flying (handled x W) = (flying W)\<lparr>shared := fst x\<rparr>"
  "handled x (handled y W) = handled x W" "handled (view_of W) W = W"
  by (simp_all add: handled_def)

lemma idle_world_simps [simp]: "flying (idle_world s) = quiet s" "conns (idle_world s) = Map.empty"
  by (simp_all add: idle_world_def)

lemma answers_handled [simp]: "answers (handled x W) = answers W"
  by (simp add: answers_def fun_eq_iff)

lemma servings_trans: "servings kc cd p V W \<Longrightarrow> servings kc cd p U V \<Longrightarrow> servings kc cd p U W"
  by (induction rule: servings.induct) (auto intro: more_serving)

lemma one_serving: "serving kc cd p V W \<Longrightarrow> servings kc cd p V W"
  by (rule more_serving [OF no_serving])

text \<open>Steps of requests, and steps of calls under way, are steps of the process.\<close>

lemma handling_steps:
  "handler_steps cd p ''rbac'' told y x \<Longrightarrow> told = answers W \<Longrightarrow> y = view_of W \<Longrightarrow> servings kc cd p W (handled x W)"
proof (induction rule: handler_steps.induct)
  case (go_on x y z)
  have "serving kc cd p (handled y W) (handled z (handled y W))"
    by (rule handling) (use go_on in simp)
  with go_on show ?case by (auto intro: more_serving)
qed (simp add: no_serving)

lemma stays_called: "flight_step kc F G \<Longrightarrow> callers G u = Idle \<Longrightarrow> callers F u = Idle"
  by (induction rule: flight_step.induct) (auto simp: landed_def split: if_splits caller.splits)

lemma stay_called: "flight_steps kc F G \<Longrightarrow> callers G u = Idle \<Longrightarrow> callers F u = Idle"
  by (induction rule: flight_steps.induct) (auto dest: stays_called)

lemma resolving_steps:
  "flight_steps kc F G \<Longrightarrow> flying W = F \<Longrightarrow> no_new_call F G \<Longrightarrow> servings kc cd p W (W\<lparr>flying := G\<rparr>)"
proof (induction rule: flight_steps.induct)
  case (none F)
  then have "W\<lparr>flying := F\<rparr> = W" by auto
  then show ?case by (simp add: no_serving)
next
  case (more F G H)
  have early: "no_new_call F G"
    using stays_called [OF more(2)] more.prems(2) by (auto simp: no_new_call_def)
  have "no_new_call G H"
    using stay_called [OF more(1)] more.prems(2) by (auto simp: no_new_call_def)
  then have "serving kc cd p (W\<lparr>flying := G\<rparr>) (W\<lparr>flying := H\<rparr>)"
    using resolving [of kc "W\<lparr>flying := G\<rparr>" H cd p] more(2) by simp
  with more.IH [OF more.prems(1) early] show ?case by (rule more_serving)
qed

section \<open>The invariant\<close>

definition world_ok :: "kube \<Rightarrow> codec \<Rightarrow> proxy \<Rightarrow> 'b world \<Rightarrow> bool" where
  "world_ok kc cd p W \<longleftrightarrow> flight_ok kc (flying W) \<and> requests_ok cd p (\<lambda>_ _ _. True) (view_of W)"

lemma flight_ok_served:
  "flight_ok kc F \<Longrightarrow> served_frame (shared F) s \<Longrightarrow> flight_ok kc (F\<lparr>shared := s\<rparr>)"
  by (rule flight_ok_shared) (auto simp: flight_ok_def rbac_ok_served clock_frame_def served_frame_def)

lemma rbac_frame_services:
  fixes s s' :: "(rbac_authorizer, 'b) reg_state_scheme"
  shows "rbac_frame s s' \<Longrightarrow> services s' = services s \<and> TrackedChannels (met s') = TrackedChannels (met s)"
  unfolding rbac_frame_def by (cases s; cases s') simp

lemma told_shown: "flight_ok kc (flying W) \<Longrightarrow> answers W t i (Inr sc) \<Longrightarrow> shown kc (shared (flying W)) i sc"
proof -
  assume "flight_ok kc (flying W)" and a: "answers W t i (Inr sc)"
  then have "caller_ok kc (flying W) t" by (simp add: flight_ok_def)
  with a show ?thesis by (simp add: caller_ok_def answers_def)
qed

lemma serving_ok:
  assumes "serving kc cd p W W'" and ok: "world_ok kc cd p W"
  shows "world_ok kc cd p W'"
proof -
  from ok have F: "flight_ok kc (flying W)" and R: "requests_ok cd p (\<lambda>_ _ _. True) (view_of W)"
    by (simp_all add: world_ok_def)
  from assms(1) show ?thesis
  proof (cases rule: serving.cases)
    case (handling x)
    obtain s cs where x: "x = (s, cs)" by fastforce
    from handler_step_ok [OF handling(2) [unfolded x] R TrueI] flight_ok_served [OF F]
    show ?thesis by (simp add: world_ok_def handling(1) x)
  next
    case (calling t r i)
    from flight_step_ok [OF arrive [OF calling(3)] F] R show ?thesis
      by (simp add: calling(1) world_ok_def)
  next
    case (resolving G)
    note step = flight_step_ok [OF resolving(2) F]
    from requests_ok_apart [OF R] rbac_frame_services [OF conjunct2 [OF step]] step
    show ?thesis by (simp add: resolving(1) world_ok_def)
  qed
qed

lemma servings_ok: "servings kc cd p W W' \<Longrightarrow> world_ok kc cd p W \<Longrightarrow> world_ok kc cd p W'"
  by (induction rule: servings.induct) (auto dest: serving_ok)

lemma idle_world_ok: "rbac_ok kc s \<Longrightarrow> reg_ok s \<Longrightarrow> chans s = [] \<Longrightarrow> world_ok kc cd p (idle_world s)"
  by (simp add: world_ok_def quiet_ok requests_ok_start)

text \<open>
  A scope was told to a request at a moment when it waited for it; the API server had confirmed it
  by then.
\<close>

definition told_meanwhile ::
  "kube \<Rightarrow> codec \<Rightarrow> proxy \<Rightarrow> 'b world \<Rightarrow> 'b world \<Rightarrow> nat \<Rightarrow> identity \<Rightarrow> scope \<Rightarrow> bool"
where
  "told_meanwhile kc cd p U W t i sc \<longleftrightarrow>
    (\<exists>V r. servings kc cd p U V \<and> servings kc cd p V W
       \<and> conns V t = Some (Authorizing r i) \<and> shown kc (shared (flying V)) i sc)"

lemma told_meanwhile_step:
  "serving kc cd p V W \<Longrightarrow> told_meanwhile kc cd p U V t i sc \<Longrightarrow> told_meanwhile kc cd p U W t i sc"
  unfolding told_meanwhile_def by (meson more_serving)

lemma serving_told:
  assumes step: "serving kc cd p V W" and reached: "servings kc cd p U V" and V: "world_ok kc cd p V"
    and ok: "requests_ok cd p (told_meanwhile kc cd p U V) (view_of V)"
  shows "requests_ok cd p (told_meanwhile kc cd p U W) (view_of W)"
proof -
  have later: "requests_ok cd p (told_meanwhile kc cd p U W) (view_of V)"
    by (rule requests_ok_mono [OF told_meanwhile_step [OF step] ok])
  from V have F: "flight_ok kc (flying V)" by (simp add: world_ok_def)
  from step show ?thesis
  proof (cases rule: serving.cases)
    case (handling x)
    obtain s cs where x: "x = (s, cs)" by fastforce
    have "told_meanwhile kc cd p U W t i sc"
      if "conns V t = Some (Authorizing r i)" "answers V t i (Inr sc)" for t r i sc
    proof (rule told_meanwhile_step [OF step])
      show "told_meanwhile kc cd p U V t i sc"
        unfolding told_meanwhile_def using reached that(1) told_shown [OF F that(2)] no_serving by blast
    qed
    with handler_step_ok [OF handling(2) [unfolded x] later] show ?thesis by (simp add: handling(1) x)
  next
    case (resolving G)
    from requests_ok_apart [OF later] rbac_frame_services [OF conjunct2 [OF flight_step_ok [OF resolving(2) F]]]
    show ?thesis by (simp add: resolving(1))
  qed (use later in simp)
qed

lemma servings_told:
  "servings kc cd p U W \<Longrightarrow> world_ok kc cd p U \<Longrightarrow> requests_ok cd p (told_meanwhile kc cd p U U) (view_of U) \<Longrightarrow>
    requests_ok cd p (told_meanwhile kc cd p U W) (view_of W)"
  by (induction rule: servings.induct) (auto intro: serving_told servings_ok)

text \<open>A request stays the same request.\<close>

lemma servings_request:
  "servings kc cd p V W \<Longrightarrow> conns V t = Some c \<Longrightarrow>
    \<exists>c'. conns W t = Some c' \<and> connection_request c' = connection_request c"
proof (induction rule: servings.induct)
  case (more_serving U V W)
  then obtain c' where c': "conns V t = Some c'" "connection_request c' = connection_request c" by blast
  from more_serving(2) show ?case
  proof (cases rule: serving.cases)
    case (handling x)
    obtain s cs where x: "x = (s, cs)" by fastforce
    from handler_step_request [OF handling(2) [unfolded x] c'(1)] c'(2) show ?thesis
      by (simp add: handling(1) x)
  qed (use c' in auto)
qed simp

text \<open>A request that waits for its scope has called for its own identity.\<close>

definition calls_ok :: "'b world \<Rightarrow> bool" where
  "calls_ok W \<longleftrightarrow> (\<forall>t. (conns W t = None \<longrightarrow> callers (flying W) t = Idle)
     \<and> (\<forall>r i. conns W t = Some (Authorizing r i) \<longrightarrow>
          callers (flying W) t = Idle \<or> asks (callers (flying W) t) = Some i))"

lemma keeps_asking:
  "flight_step kc F G \<Longrightarrow> callers F u \<noteq> Idle \<Longrightarrow> callers G u \<noteq> Idle \<and> asks (callers G u) = asks (callers F u)"
  by (induction rule: flight_step.induct) (auto simp: landed_def split: caller.split)

lemma handler_step_authorizing:
  assumes "handler_step cd p mode told (s, cs) (s', cs')"
  shows "cs' t = None \<Longrightarrow> cs t = None"
    and "cs' t = Some (Authorizing r i) \<Longrightarrow> cs t = None \<or> cs t = Some (Authorizing r i)"
  using assms
  by (cases rule: handler_step.cases; auto split: if_splits dest: authorized_spec respond_spec)+

lemma serving_calls:
  assumes "serving kc cd p W W'" and ok: "calls_ok W"
  shows "calls_ok W'"
  using assms(1)
proof (cases rule: serving.cases)
  case (handling x)
  obtain s cs where x: "x = (s, cs)" by fastforce
  from ok handler_step_authorizing [OF handling(2) [unfolded x]] show ?thesis
    unfolding calls_ok_def handling(1) x by (simp; metis)
next
  case (resolving F)
  from ok resolving(2,3) keeps_asking [OF resolving(2)] show ?thesis
    unfolding calls_ok_def no_new_call_def resolving(1) by (simp; metis)
qed (use ok in \<open>auto simp: calls_ok_def\<close>)

lemma servings_calls: "servings kc cd p W W' \<Longrightarrow> calls_ok W \<Longrightarrow> calls_ok W'"
  by (induction rule: servings.induct) (auto dest: serving_calls)

lemma idle_world_calls: "calls_ok (idle_world s)"
  by (simp add: calls_ok_def)

end
