(* ===== verification/Rbac_Process_Properties.thy ===== *)
theory Rbac_Process_Properties
  imports Rbac_Process
begin

text \<open>
  What the whole process in RBAC mode keeps with its requests in flight: a request by itself is
  served exactly as the sequential handler says, every request can still get its reply, and no
  interleaving shows a caller more than the API server confirmed for it.
\<close>

section \<open>A request by itself\<close>

lemma alone_run:
  assumes ok: "world_ok kc cd p W" and calls: "calls_ok W" and new: "conns W t = None"
    and alone: "\<And>i. From (px_headers p) (rq_header r) = Inr i \<Longrightarrow> leader (flying W) (cacheKey i) = None"
    and run: "ServeHTTP (Instrumented (RbacAllowed kc) ''rbac'') cd p up r (shared (flying W)) = (reply, s)"
  shows "\<exists>c W'. servings kc cd p W W' \<and> replied c = Some (r, reply)
    \<and> shared (flying W') = s \<and> conns W' = (conns W)(t \<mapsto> c) \<and> its_task cd p up r c"
proof -
  let ?s = "shared (flying W)"
  have idle: "callers (flying W) t = Idle" using new calls by (auto simp: calls_ok_def)
  obtain c1 s1 where x: "receive cd p ''rbac'' up r ?s = (c1, s1)" by fastforce
  have "handler_step cd p ''rbac'' (answers W) (view_of W) (s1, (conns W)(t \<mapsto> c1))"
    by (rule arrival [where cs = "conns W" and t = t, OF new x])
  note arrive = handling [where kc = kc, OF this]
  show ?thesis
  proof (cases "\<exists>i. has_prefix (rq_path r) (apiPrefix p) \<and> From (px_headers p) (rq_header r) = Inr i")
    case False
    from ServeHTTP_refuses [OF False run] x have "c1 = Refused r reply" "s1 = s" by simp_all
    with one_serving [OF arrive] show ?thesis
      by (intro exI [of _ c1] exI [of _ "handled (s1, (conns W)(t \<mapsto> c1)) W"]) (simp add: its_task_def)
  next
    case True
    then obtain i where api: "has_prefix (rq_path r) (apiPrefix p)"
      and i: "From (px_headers p) (rq_header r) = Inr i" by blast
    obtain res s2 where call: "RbacAllowed kc i s1 = (res, s2)" by fastforce
    note serve = ServeHTTP_steps [OF api i run x call]
    define A where "A = handled (s1, (conns W)(t \<mapsto> c1)) W"
    define B where "B = A\<lparr>flying := set_caller t (Arriving i) (flying A)\<rparr>"
    define C where "C = A\<lparr>flying := set_caller t (Returned i res) ((flying A)\<lparr>shared := s2\<rparr>)\<rparr>"
    have A: "serving kc cd p W A" using arrive by (simp add: A_def)
    have c1: "conns A t = Some (Authorizing r i)" using serve by (simp add: A_def)
    have B: "serving kc cd p A B"
      unfolding B_def by (rule calling [OF c1]) (simp add: A_def idle)
    have "flight_ok kc (flying A)" using serving_ok [OF A ok] by (simp add: world_ok_def)
    from call_alone [OF this, of t i res s2] idle alone [OF i] call
    have calls: "flight_steps kc (flying B) (flying C)" by (simp add: A_def B_def C_def)
    have "servings kc cd p B (B\<lparr>flying := flying C\<rparr>)"
      by (rule resolving_steps [OF calls refl]) (auto simp: no_new_call_def B_def C_def split: if_splits)
    then have C: "servings kc cd p B C" by (simp add: B_def C_def)
    have told: "conns C t = Some (Authorizing r i)" "answers C t i res"
      using c1 by (simp_all add: C_def answers_def)
    have "after_answer cd p ''rbac'' up r i res (shared (flying C)) = (reply, s)"
      using serve by (simp add: C_def)
    from answered_alone [where cs = "conns C" and t = t and told = "answers C", OF told this] obtain c where
      c: "handler_steps cd p ''rbac'' (answers C) (view_of C) (s, (conns C)(t \<mapsto> c))"
        "replied c = Some (r, reply)" "its_task cd p up r c" by blast
    have D: "servings kc cd p C (handled (s, (conns C)(t \<mapsto> c)) C)"
      by (rule handling_steps [OF c(1) refl refl])
    have "servings kc cd p W (handled (s, (conns C)(t \<mapsto> c)) C)"
      by (rule servings_trans [OF servings_trans [OF D C] more_serving [OF one_serving [OF A] B]])
    with c(2,3) show ?thesis
      by (intro exI [of _ c] exI [of _ "handled (s, (conns C)(t \<mapsto> c)) C"]) (simp add: C_def A_def)
  qed
qed

text \<open>
  C4. The process refines the sequential handler: in any situation the process can be in, a request
  that meets no resolution of its own cache key, and whose steps nothing else interrupts, ends in
  exactly the reply and the state of \<^verbatim>\<open>ServeHTTP\<close>; no other request is touched.
\<close>

theorem request_alone_is_sequential:
  assumes start: "rbac_ok kc s\<^sub>0" "reg_ok s\<^sub>0" "chans s\<^sub>0 = []" "servings kc cd p (idle_world s\<^sub>0) W"
    and new: "conns W t = None"
    and alone: "\<And>i. From (px_headers p) (rq_header r) = Inr i \<Longrightarrow> leader (flying W) (cacheKey i) = None"
    and run: "ServeHTTP (Instrumented (RbacAllowed kc) ''rbac'') cd p up r (shared (flying W)) = (reply, s)"
  shows "\<exists>c W'. servings kc cd p W W' \<and> replied c = Some (r, reply)
    \<and> shared (flying W') = s \<and> conns W' = (conns W)(t \<mapsto> c)"
  using alone_run [OF servings_ok [OF start(4) idle_world_ok [OF start(1-3)]]
      servings_calls [OF start(4) idle_world_calls] new alone run] by blast

section \<open>Every request can be answered\<close>

text \<open>
  C17. No request hangs: in every situation the process can be in, with any number of requests in
  flight, each of them can still get its reply.
\<close>

theorem every_request_can_be_answered:
  assumes start: "rbac_ok kc s\<^sub>0" "reg_ok s\<^sub>0" "chans s\<^sub>0 = []" "servings kc cd p (idle_world s\<^sub>0) W"
    and c: "conns W t = Some c"
  shows "\<exists>W' c' reply. servings kc cd p W W' \<and> conns W' t = Some c'
    \<and> replied c' = Some (connection_request c, reply)"
proof -
  have ok: "world_ok kc cd p W" by (rule servings_ok [OF start(4) idle_world_ok [OF start(1-3)]])
  have calls: "calls_ok W" by (rule servings_calls [OF start(4) idle_world_calls])
  have ended: ?thesis if V: "servings kc cd p W V"
    and "\<exists>s cs' x. handler_steps cd p ''rbac'' (answers V) (view_of V) (s, (conns V)(t \<mapsto> cs'))
      \<and> replied cs' = Some (connection_request c, x)" for V
  proof -
    from that(2) obtain s c' x where run: "handler_steps cd p ''rbac'' (answers V) (view_of V) (s, (conns V)(t \<mapsto> c'))"
      and c': "replied c' = Some (connection_request c, x)" by blast
    from servings_trans [OF handling_steps [where kc = kc, OF run refl refl] V] c' show ?thesis
      by (intro exI [of _ "handled (s, (conns V)(t \<mapsto> c')) V"] exI [of _ c']) simp
  qed
  show ?thesis
  proof (cases c)
    case (Authorizing r i)
    have waiting: ?thesis if "servings kc cd p W V" "world_ok kc cd p V" "conns V t = Some c"
        "asks (callers (flying V) t) = Some i" for V
    proof -
      from that(2) have "flight_ok kc (flying V)" by (simp add: world_ok_def)
      from call_returns [OF this that(4)] obtain G res where G: "flight_steps kc (flying V) G"
        "no_new_call (flying V) G" "callers G t = Returned i res" by (auto simp: can_return_def)
      let ?V = "V\<lparr>flying := G\<rparr>"
      have "conns ?V t = Some (Authorizing r i)" "answers ?V t i res"
        using that(3) Authorizing G(3) by (simp_all add: answers_def)
      from told_answered [where cs = "conns ?V" and t = t and told = "answers ?V", OF this, of cd p "''rbac''"
          "shared (flying ?V)"] show ?thesis
        by (intro ended [OF servings_trans [OF resolving_steps [OF G(1) refl G(2)] that(1)]]) (simp add: Authorizing)
    qed
    show ?thesis
    proof (cases "callers (flying W) t = Idle")
      case True
      note step = calling [OF c [unfolded Authorizing] True, of kc cd p]
      show ?thesis by (rule waiting [OF one_serving [OF step] serving_ok [OF step ok]]) (simp_all add: c)
    next
      case False
      with calls c Authorizing have "asks (callers (flying W) t) = Some i" by (auto simp: calls_ok_def)
      with waiting [OF no_serving ok c] show ?thesis .
    qed
  next
    case (Filtering r tk)
    with filtering_answered [of "conns W" t r tk cd p "''rbac''" "answers W" "shared (flying W)"] c
    show ?thesis by (intro ended [OF no_serving]) auto
  next
    case (Answered r tk reply)
    with c show ?thesis by (intro exI [of _ W] exI [of _ c]) (simp add: no_serving)
  next
    case (Refused r reply)
    with c show ?thesis by (intro exI [of _ W] exI [of _ c]) (simp add: no_serving)
  qed
qed

section \<open>No interleaving shows more\<close>

lemma rbac_confined:
  assumes start: "rbac_ok kc s\<^sub>0" "reg_ok s\<^sub>0" "chans s\<^sub>0 = []" "servings kc cd p (idle_world s\<^sub>0) W"
    and c: "conns W t = Some c" "replied c = Some (r, Relayed resp)"
    and served: "has_prefix (rq_path r) (apiPrefix p)" "status resp = StatusOK"
    and mode: "codec_reads_back cd" "requireBoth p"
    and K: "\<And>c v n. said cd p (tasks (seen (view_of W))) c v n \<Longrightarrow> K c v = Some n"
  shows "\<exists>i V j d. From (px_headers p) (rq_header r) = Inr i \<and> cacheKey j = cacheKey i
    \<and> servings kc cd p (idle_world s\<^sub>0) V \<and> servings kc cd p V W \<and> conns V t = Some (Authorizing r i)
    \<and> (reviewed kc {..<ticks (rt (shared (flying V)))} d j []
       \<or> (\<exists>msg. decodeEnvelope cd (rs_body resp) (is_json resp) = Inr msg
            \<and> message_discloses cd (K (message_channel msg)) msg
                \<subseteq> insert [] {ns. reviewed kc {..<ticks (rt (shared (flying V)))} d j ns}))"
proof -
  have "requests_ok cd p (told_meanwhile kc cd p (idle_world s\<^sub>0) W) (view_of W)"
    using servings_told [OF start(4) idle_world_ok [OF start(1-3)]] requests_ok_start [OF start(2,3)] by simp
  from relayed_confined [where K = K, OF this c served mode K] obtain i sc where
    i: "From (px_headers p) (rq_header r) = Inr i" and sc: "told_meanwhile kc cd p (idle_world s\<^sub>0) W t i sc"
    and how: "sc_all sc \<or> (\<exists>msg. decodeEnvelope cd (rs_body resp) (is_json resp) = Inr msg
      \<and> message_discloses cd (K (message_channel msg)) msg \<subseteq> insert [] (scope_set sc))" .
  from sc obtain V r' where V: "servings kc cd p (idle_world s\<^sub>0) V" "servings kc cd p V W"
    "conns V t = Some (Authorizing r' i)" and shown: "shown kc (shared (flying V)) i sc"
    unfolding told_meanwhile_def by blast
  from servings_request [OF V(2,3)] c have "r' = r" by (cases c) auto
  with V(3) have w: "conns V t = Some (Authorizing r i)" by simp
  show ?thesis
  proof (rule shown_reviews [OF shown])
    fix j d assume "cacheKey j = cacheKey i"
      "sc_all sc \<Longrightarrow> reviewed kc {..<ticks (rt (shared (flying V)))} d j []"
      "\<And>ns. in_scope sc ns \<Longrightarrow> reviewed kc {..<ticks (rt (shared (flying V)))} d j ns"
    with i how V(1,2) w show ?thesis
      by (intro exI [of _ i] exI [of _ V] exI [of _ j] exI [of _ d]) (auto simp: scope_set_def)
  qed
qed

text \<open>
  C3. The process in RBAC mode under concurrency, strict: start it with an empty registry and an
  honest cache, let any number of requests arrive, be authorized and filtered in any interleaving,
  with sweeps and notices in between. If the backend gives each service one namespace per channel,
  a successful reply on an API path went to an authenticated caller, and names no namespace whose
  pods the API server had not allowed an identity with that caller's cache key to list, by a review
  already answered at some moment at which this request waited for its scope, unless the API server
  had by then allowed it everything.
\<close>

theorem concurrent_rbac_confines:
  assumes start: "rbac_ok kc s\<^sub>0" "reg_ok s\<^sub>0" "chans s\<^sub>0 = []" "servings kc cd p (idle_world s\<^sub>0) W"
    and c: "conns W t = Some c" "replied c = Some (r, Relayed resp)"
    and served: "has_prefix (rq_path r) (apiPrefix p)" "status resp = StatusOK"
    and mode: "codec_reads_back cd" "requireBoth p"
    and K: "\<And>c v n. said cd p (tasks (seen (view_of W))) c v n \<Longrightarrow> K c v = Some n"
  shows "\<exists>i V j d. From (px_headers p) (rq_header r) = Inr i \<and> cacheKey j = cacheKey i
    \<and> servings kc cd p (idle_world s\<^sub>0) V \<and> servings kc cd p V W \<and> conns V t = Some (Authorizing r i)
    \<and> (reviewed kc {..<ticks (rt (shared (flying V)))} d j []
       \<or> (\<exists>msg. decodeEnvelope cd (rs_body resp) (is_json resp) = Inr msg
            \<and> message_discloses cd (K (message_channel msg)) msg
                \<subseteq> insert [] {ns. reviewed kc {..<ticks (rt (shared (flying V)))} d j ns}))"
  by (rule rbac_confined [where K = K, OF start c served mode K])

section \<open>A closed instance\<close>

abbreviation alice_world :: "unit world" where
  "alice_world \<equiv> idle_world (rbac_start int)"

lemma rbac_start_idle: "reg_ok (rbac_start int)" "chans (rbac_start int) = []"
proof -
  show "reg_ok (rbac_start int)" by (rule new_registry_ok) (simp_all add: rbac_start_def fresh_metrics_def)
  show "chans (rbac_start int) = []" by (simp add: rbac_start_def new_registry_def)
qed

lemma alice_serves: "ServeHTTP (Instrumented (RbacAllowed kube_pay) ''rbac'') alice_codec (example_proxy True)
    (bob_upstream []) alice_request (shared (flying alice_world))
  = (Relayed (bob_served [10, 2]), snd (ServeHTTP (Instrumented (RbacAllowed kube_pay) ''rbac'') alice_codec
      (example_proxy True) (bob_upstream []) alice_request (rbac_start int)))"
  using alice_served by (simp add: prod_eq_iff)

theorem request_alone_is_sequential_witness:
  "\<exists>c W'. servings kube_pay alice_codec (example_proxy True) alice_world W'
    \<and> replied c = Some (alice_request, Relayed (bob_served [10, 2]))
    \<and> shared (flying W') = snd (ServeHTTP (Instrumented (RbacAllowed kube_pay) ''rbac'') alice_codec
        (example_proxy True) (bob_upstream []) alice_request (rbac_start int))
    \<and> conns W' = (conns alice_world)(3 \<mapsto> c)"
  by (rule request_alone_is_sequential [OF rbac_start_ok rbac_start_idle no_serving _ _ alice_serves]) simp_all

lemma alice_answered:
  obtains c W where "servings kube_pay alice_codec (example_proxy True) alice_world W"
    and "replied c = Some (alice_request, Relayed (bob_served [10, 2]))"
    and "conns W = [0 \<mapsto> c]" and "its_task alice_codec (example_proxy True) (bob_upstream []) alice_request c"
  using alone_run [OF idle_world_ok [OF rbac_start_ok rbac_start_idle] idle_world_calls _ _ alice_serves, of 0]
  by auto

theorem every_request_can_be_answered_witness:
  "\<exists>W c W' c' reply. servings kube_pay alice_codec (example_proxy True) alice_world W \<and> conns W 0 = Some c
    \<and> servings kube_pay alice_codec (example_proxy True) W W' \<and> conns W' 0 = Some c'
    \<and> replied c' = Some (connection_request c, reply)"
proof -
  obtain c s where x: "receive alice_codec (example_proxy True) ''rbac'' (bob_upstream []) alice_request
      (shared (flying alice_world)) = (c, s)" by fastforce
  have "servings kube_pay alice_codec (example_proxy True) alice_world (handled (s, [0 \<mapsto> c]) alice_world)"
    using arrival [OF _ x, of Map.empty 0] by (intro one_serving handling) simp
  moreover have "conns (handled (s, [0 \<mapsto> c]) alice_world) 0 = Some c" by simp
  ultimately show ?thesis
    using every_request_can_be_answered [OF rbac_start_ok rbac_start_idle] by blast
qed

lemma alice_said:
  assumes "conns W = [0 \<mapsto> c]" and "its_task alice_codec (example_proxy True) (bob_upstream []) alice_request c"
    and "said alice_codec (example_proxy True) (tasks (seen (view_of W))) k v n"
  shows "map_of [(''a'', ''pay''), (''b'', ''db'')] v = Some n"
proof -
  from assms obtain tk evs where tk: "connection_task c = Some tk"
    "batch alice_codec (example_proxy True) tk = Some (k, evs)" "(v, n) \<in> set (announcements evs)"
    by (auto simp: said_def split: if_splits)
  from assms(2) tk(1) obtain info ur where
    ur: "round_trip (bob_upstream []) (Rewrite (bob_upstream []) alice_request) = Inr ur"
    and b: "batch alice_codec (example_proxy True) tk
      = batch alice_codec (example_proxy True) (accept alice_codec (example_proxy True)
          (Rewrite (bob_upstream []) alice_request) info ur)"
    by (fastforce simp: its_task_def)
  let ?info = "\<lparr>filtered = True, ri_scope = pay_scope, ri_id = alice []\<rparr>"
  have "open_response alice_codec (example_proxy True) (Rewrite (bob_upstream []) alice_request) (Some ?info)
      (projr (round_trip (bob_upstream []) (Rewrite (bob_upstream []) alice_request)))
    = Handling (bob_message [1]) (Learning alice_batch (er_events alice_batch))" by code_simp
  then have "open_response alice_codec (example_proxy True) (Rewrite (bob_upstream []) alice_request) (Some info) ur
      = (if \<not> filtered info \<or> sc_all (ri_scope info) then Handled (Inr None)
         else Handling (bob_message [1]) (Learning alice_batch (er_events alice_batch)))"
    unfolding ur by (simp add: open_response_def pay_scope_def)
  moreover have "announcements (er_events alice_batch) = [(''a'', ''pay''), (''b'', ''db'')]" by code_simp
  ultimately show ?thesis using tk b by (auto simp: batch_def accept_def split: if_splits)
qed

theorem concurrent_rbac_confines_witness:
  "\<exists>i V j d. From (px_headers (example_proxy True)) (rq_header alice_request) = Inr i \<and> cacheKey j = cacheKey i
    \<and> servings kube_pay alice_codec (example_proxy True) alice_world V
    \<and> conns V 0 = Some (Authorizing alice_request i)
    \<and> (reviewed kube_pay {..<ticks (rt (shared (flying V)))} d j []
       \<or> (\<exists>msg. decodeEnvelope alice_codec [10, 2] (is_json (bob_served [10, 2])) = Inr msg
            \<and> message_discloses alice_codec (map_of [(''a'', ''pay''), (''b'', ''db'')]) msg
                \<subseteq> insert [] {ns. reviewed kube_pay {..<ticks (rt (shared (flying V)))} d j ns}))"
proof (rule alice_answered)
  fix c W
  assume run: "servings kube_pay alice_codec (example_proxy True) alice_world W"
    and c: "replied c = Some (alice_request, Relayed (bob_served [10, 2]))" and W: "conns W = [0 \<mapsto> c]"
    and tk: "its_task alice_codec (example_proxy True) (bob_upstream []) alice_request c"
  have "conns W 0 = Some c" by (simp add: W)
  moreover have "codec_reads_back alice_codec" by (simp add: alice_codec_def table_codec_reads_back)
  moreover have "status (bob_served [10, 2]) = StatusOK" "rs_body (bob_served [10, 2]) = [10, 2]"
    by (simp_all add: bob_served_def StatusOK_def)
  ultimately show ?thesis
    using concurrent_rbac_confines [OF rbac_start_ok rbac_start_idle run _ c alice_api, of 0
        "\<lambda>_. map_of [(''a'', ''pay''), (''b'', ''db'')]"] alice_said [OF W tk]
    by (simp add: example_proxy_both) blast
qed

end
