(* ===== verification/File_Process.thy ===== *)
theory File_Process
  imports Handler_Runs
begin

text \<open>
  The process with the file-backed authorizer and its requests in flight: \<^verbatim>\<open>AllowedNamespaces\<close>
  (\<^verbatim>\<open>internal/authz/authz.go\<close>) reads the mapping under its lock in one step, and the reloader may
  replace the mapping between any two steps of a request.
\<close>

section \<open>The process\<close>

type_synonym 'b file_world = "(static_authorizer, 'b) reg_state_scheme \<times> (nat \<Rightarrow> connection option)"

definition maps_to :: "(static_authorizer, 'b) reg_state_scheme \<Rightarrow> nat \<Rightarrow> identity \<Rightarrow> go_error + scope \<Rightarrow> bool" where
  "maps_to s t i res \<longleftrightarrow> fst (StaticAllowed i s) = res"

inductive file_serving ::
  "environment \<Rightarrow> int \<Rightarrow> codec \<Rightarrow> proxy \<Rightarrow> 'b file_world \<Rightarrow> 'b file_world \<Rightarrow> bool" for env d cd p where
  file_handling: "handler_step cd p ''static'' (maps_to s) (s, cs) x \<Longrightarrow> file_serving env d cd p (s, cs) x"
| remapping: "file_serving env d cd p (s, cs)
    (RunReloader (en_sha256 env) (en_unmarshal env) d [File_Tick found] s, cs)"

inductive file_servings ::
  "environment \<Rightarrow> int \<Rightarrow> codec \<Rightarrow> proxy \<Rightarrow> 'b file_world \<Rightarrow> 'b file_world \<Rightarrow> bool" for env d cd p where
  no_file_serving: "file_servings env d cd p x x"
| more_file_serving: "file_servings env d cd p x y \<Longrightarrow> file_serving env d cd p y z \<Longrightarrow> file_servings env d cd p x z"

lemma file_servings_trans:
  "file_servings env d cd p y z \<Longrightarrow> file_servings env d cd p x y \<Longrightarrow> file_servings env d cd p x z"
  by (induction rule: file_servings.induct) (auto intro: more_file_serving)

section \<open>The invariant\<close>

text \<open>A scope was granted by the mapping in force at a moment when its request waited for it.\<close>

definition granted_meanwhile ::
  "environment \<Rightarrow> int \<Rightarrow> codec \<Rightarrow> proxy \<Rightarrow> 'b file_world \<Rightarrow> 'b file_world \<Rightarrow> nat \<Rightarrow> identity \<Rightarrow> scope \<Rightarrow> bool"
where
  "granted_meanwhile env d cd p x\<^sub>0 x t i sc \<longleftrightarrow>
    (\<exists>s cs r. file_servings env d cd p x\<^sub>0 (s, cs) \<and> file_servings env d cd p (s, cs) x
       \<and> cs t = Some (Authorizing r i) \<and> static_justified s i sc)"

lemma granted_meanwhile_step:
  "file_serving env d cd p x y \<Longrightarrow> granted_meanwhile env d cd p x\<^sub>0 x t i sc \<Longrightarrow>
    granted_meanwhile env d cd p x\<^sub>0 y t i sc"
  unfolding granted_meanwhile_def by (meson more_file_serving)

lemma maps_to_justified: "maps_to s t i (Inr sc) \<Longrightarrow> static_justified s i sc"
  using static_az.grants_justified [where s = s and i = i and sc = sc and s' = "snd (StaticAllowed i s)"]
  by (simp add: maps_to_def prod_eq_iff)

lemma file_serving_ok:
  assumes step: "file_serving env d cd p x y" and reached: "file_servings env d cd p x\<^sub>0 x"
    and ok: "requests_ok cd p (granted_meanwhile env d cd p x\<^sub>0 x) x"
  shows "requests_ok cd p (granted_meanwhile env d cd p x\<^sub>0 y) y"
proof -
  have later: "requests_ok cd p (granted_meanwhile env d cd p x\<^sub>0 y) x"
    by (rule requests_ok_mono [OF granted_meanwhile_step [OF step] ok])
  from step show ?thesis
  proof (cases rule: file_serving.cases)
    case (file_handling s cs)
    obtain s' cs' where y: "y = (s', cs')" by fastforce
    have "granted_meanwhile env d cd p x\<^sub>0 y t i sc"
      if "cs t = Some (Authorizing r i)" "maps_to s t i (Inr sc)" for t r i sc
    proof -
      have "granted_meanwhile env d cd p x\<^sub>0 x t i sc"
        unfolding granted_meanwhile_def using reached that(1) maps_to_justified [OF that(2)]
        by (auto simp: file_handling(1) intro: no_file_serving)
      then show ?thesis by (rule granted_meanwhile_step [OF step])
    qed
    with handler_step_ok [OF file_handling(2) [unfolded y] later [unfolded file_handling(1)]] show ?thesis
      by (simp add: y)
  next
    case (remapping s cs found)
    let ?s = "RunReloader (en_sha256 env) (en_unmarshal env) d [File_Tick found] s"
    have "services ?s = services s \<and> TrackedChannels (met ?s) = TrackedChannels (met s)"
      using reload_loop_state [of "en_sha256 env" "en_unmarshal env" "[File_Tick found]" s]
      by (simp add: RunReloader_def del: reload_loop.simps)
    with requests_ok_apart [OF later [unfolded remapping(1)]] show ?thesis
      by (simp add: remapping(2))
  qed
qed

lemma file_servings_ok:
  "file_servings env d cd p x y \<Longrightarrow> requests_ok cd p (granted_meanwhile env d cd p x x) x \<Longrightarrow>
    requests_ok cd p (granted_meanwhile env d cd p x y) y"
  by (induction rule: file_servings.induct) (auto intro: file_serving_ok)

text \<open>A request stays the same request.\<close>

lemma file_servings_request:
  "file_servings env d cd p x y \<Longrightarrow> snd x t = Some c \<Longrightarrow>
    \<exists>c'. snd y t = Some c' \<and> connection_request c' = connection_request c"
proof (induction rule: file_servings.induct)
  case (more_file_serving x y z)
  then obtain c' where c': "snd y t = Some c'" "connection_request c' = connection_request c" by blast
  obtain s' cs' where z: "z = (s', cs')" by fastforce
  from more_file_serving(2) c' show ?case
    by (cases rule: file_serving.cases) (use handler_step_request in \<open>fastforce simp: z\<close>)+
qed simp

section \<open>A request by itself\<close>

lemma file_handling_steps:
  "handler_steps cd p ''static'' told x y \<Longrightarrow> told = maps_to (fst x) \<Longrightarrow> requests_ok cd p (\<lambda>_ _ _. True) x \<Longrightarrow>
    file_servings env d cd p x y \<and> requests_ok cd p (\<lambda>_ _ _. True) y \<and> auth (fst y) = auth (fst x)"
proof (induction rule: handler_steps.induct)
  case (go_on x y z)
  obtain s cs where y: "y = (s, cs)" by fastforce
  obtain s' cs' where z: "z = (s', cs')" by fastforce
  from go_on have IH: "file_servings env d cd p x y" "requests_ok cd p (\<lambda>_ _ _. True) y"
    "auth s = auth (fst x)" by (simp_all add: y)
  have "told = maps_to s"
    using go_on.prems(1) IH(3) by (simp add: maps_to_def StaticAllowed_def Let_def fun_eq_iff)
  with go_on(2) have step: "handler_step cd p ''static'' (maps_to s) (s, cs) (s', cs')" by (simp add: y z)
  from handler_step_ok [OF step IH(2) [unfolded y]] more_file_serving [OF IH(1) [unfolded y] file_handling [OF step]]
    IH(3) show ?case by (simp add: z served_frame_def)
qed (simp add: no_file_serving)

end
