(* ===== verification/File_Process_Properties.thy ===== *)
theory File_Process_Properties
  imports File_Process
begin

text \<open>
  What the process with the file-backed authorizer keeps with its requests in flight: a request by
  itself is \<^verbatim>\<open>ServeHTTP\<close>, and no interleaving, reloads included, shows a caller more than a mapping
  that was in force while it waited.
\<close>

lemma file_alone:
  assumes ok: "requests_ok cd p (\<lambda>_ _ _. True) (s, cs)" and new: "cs t = None"
    and run: "ServeHTTP (Instrumented StaticAllowed ''static'') cd p up r s = (reply, s')"
  shows "\<exists>c. file_servings env d cd p (s, cs) (s', cs(t \<mapsto> c)) \<and> replied c = Some (r, reply)
    \<and> its_task cd p up r c"
proof -
  obtain c1 s1 where x: "receive cd p ''static'' up r s = (c1, s1)" by fastforce
  have arrive: "handler_step cd p ''static'' (maps_to s) (s, cs) (s1, cs(t \<mapsto> c1))"
    by (rule arrival [where cs = cs and t = t, OF new x])
  have ok1: "requests_ok cd p (\<lambda>_ _ _. True) (s1, cs(t \<mapsto> c1))"
    using handler_step_ok [OF arrive ok] by simp
  note first = more_file_serving [OF no_file_serving file_handling [OF arrive], of env d]
  show ?thesis
  proof (cases "\<exists>i. has_prefix (rq_path r) (apiPrefix p) \<and> From (px_headers p) (rq_header r) = Inr i")
    case False
    from ServeHTTP_refuses [OF False run] x have "c1 = Refused r reply" "s1 = s'" by simp_all
    with first show ?thesis by (intro exI [of _ c1]) (simp add: its_task_def)
  next
    case True
    then obtain i where api: "has_prefix (rq_path r) (apiPrefix p)"
      and i: "From (px_headers p) (rq_header r) = Inr i" by blast
    obtain res where call: "StaticAllowed i s1 = (res, s1)"
      using StaticAllowed_state by (metis surj_pair)
    from ServeHTTP_steps [OF api i run x call] have c1: "c1 = Authorizing r i"
      and rest: "after_answer cd p ''static'' up r i res s1 = (reply, s')" by simp_all
    have "(cs(t \<mapsto> c1)) t = Some (Authorizing r i)" "maps_to s1 t i res"
      using c1 call by (simp_all add: maps_to_def)
    from answered_alone [where cs = "cs(t \<mapsto> c1)" and t = t and told = "maps_to s1", OF this rest]
    obtain c where c: "handler_steps cd p ''static'' (maps_to s1) (s1, cs(t \<mapsto> c1)) (s', cs(t \<mapsto> c))"
      "replied c = Some (r, reply)" "its_task cd p up r c" by auto
    from file_handling_steps [OF c(1) _ ok1] have
      "file_servings env d cd p (s1, cs(t \<mapsto> c1)) (s', cs(t \<mapsto> c))" by simp
    from file_servings_trans [OF this first] c(2,3) show ?thesis by blast
  qed
qed

lemma file_started:
  assumes "reg_ok s\<^sub>0" and "chans s\<^sub>0 = []" and "file_servings env d cd p (s\<^sub>0, Map.empty) x"
  shows "requests_ok cd p (granted_meanwhile env d cd p (s\<^sub>0, Map.empty) x) x"
    and "requests_ok cd p (\<lambda>_ _ _. True) x"
proof -
  show ok: "requests_ok cd p (granted_meanwhile env d cd p (s\<^sub>0, Map.empty) x) x"
    by (rule file_servings_ok [OF assms(3) requests_ok_start [OF assms(1,2)]])
  show "requests_ok cd p (\<lambda>_ _ _. True) x" by (rule requests_ok_mono [OF _ ok]) simp
qed

text \<open>
  With the file-backed authorizer, too, the steps of a request with nothing in between are
  \<^verbatim>\<open>ServeHTTP\<close>: in any situation the process can be in, they end in its reply and its state, and
  touch no other request.
\<close>

theorem file_request_alone_is_sequential:
  assumes "reg_ok s\<^sub>0" and "chans s\<^sub>0 = []" and "file_servings env d cd p (s\<^sub>0, Map.empty) (s, cs)"
    and "cs t = None"
    and "ServeHTTP (Instrumented StaticAllowed ''static'') cd p up r s = (reply, s')"
  shows "\<exists>c. file_servings env d cd p (s, cs) (s', cs(t \<mapsto> c)) \<and> replied c = Some (r, reply)"
  using file_alone [OF file_started(2) [OF assms(1-3)] assms(4,5)] by blast

text \<open>
  In strict mode with the file-backed authorizer, however requests, sweeps and reloads of the
  mapping interleave: if the backend gives each service one namespace per channel, a successful
  reply on an API path went to an authenticated caller, and names only namespaces that a mapping
  in force while this request waited for its scope gave to it, unless it made it an administrator.
\<close>

theorem concurrent_file_confines:
  assumes start: "reg_ok s\<^sub>0" "chans s\<^sub>0 = []" "file_servings env d cd p (s\<^sub>0, Map.empty) (s, cs)"
    and c: "cs t = Some c" "replied c = Some (r, Relayed resp)"
    and served: "has_prefix (rq_path r) (apiPrefix p)" "status resp = StatusOK"
    and mode: "codec_reads_back cd" "requireBoth p"
    and K: "\<And>c v n. said cd p (tasks (seen (s, cs))) c v n \<Longrightarrow> K c v = Some n"
  shows "\<exists>i s\<^sub>1 cs\<^sub>1. From (px_headers p) (rq_header r) = Inr i
    \<and> file_servings env d cd p (s\<^sub>0, Map.empty) (s\<^sub>1, cs\<^sub>1) \<and> file_servings env d cd p (s\<^sub>1, cs\<^sub>1) (s, cs)
    \<and> cs\<^sub>1 t = Some (Authorizing r i)
    \<and> (is_admin (sa_m (auth s\<^sub>1)) i
       \<or> (\<exists>msg. decodeEnvelope cd (rs_body resp) (is_json resp) = Inr msg
            \<and> message_discloses cd (K (message_channel msg)) msg \<subseteq> insert [] (mapped_ns (sa_m (auth s\<^sub>1)) i)))"
proof -
  from relayed_confined [where K = K, OF file_started(1) [OF start] c served mode K] obtain i sc where
    i: "From (px_headers p) (rq_header r) = Inr i"
    and sc: "granted_meanwhile env d cd p (s\<^sub>0, Map.empty) (s, cs) t i sc"
    and how: "sc_all sc \<or> (\<exists>msg. decodeEnvelope cd (rs_body resp) (is_json resp) = Inr msg
      \<and> message_discloses cd (K (message_channel msg)) msg \<subseteq> insert [] (scope_set sc))" .
  from sc obtain s\<^sub>1 cs\<^sub>1 r' where run: "file_servings env d cd p (s\<^sub>0, Map.empty) (s\<^sub>1, cs\<^sub>1)"
    "file_servings env d cd p (s\<^sub>1, cs\<^sub>1) (s, cs)" and r': "cs\<^sub>1 t = Some (Authorizing r' i)"
    and j: "static_justified s\<^sub>1 i sc" by (auto simp: granted_meanwhile_def)
  from file_servings_request [OF run(2), of t] r' c(1) have "connection_request c = r'" by auto
  moreover have "connection_request c = r" using c(2) by (cases c) auto
  ultimately have "cs\<^sub>1 t = Some (Authorizing r i)" using r' by simp
  moreover from j have "sc_all sc \<Longrightarrow> is_admin (sa_m (auth s\<^sub>1)) i"
    "\<not> sc_all sc \<Longrightarrow> scope_set sc \<subseteq> mapped_ns (sa_m (auth s\<^sub>1)) i"
    by (auto simp: static_justified_def scope_set_def)
  ultimately show ?thesis
    using i run how by (intro exI [of _ i] exI [of _ s\<^sub>1] exI [of _ cs\<^sub>1]) auto
qed

section \<open>A closed instance\<close>

definition quiet_env :: environment where
  "quiet_env = \<lparr>en_parse_url = (\<lambda>u. Inl (Plain ''no url'')), en_read_file = (\<lambda>f. Inr [5]), en_sha256 = (\<lambda>b. [1]),
     en_unmarshal = (\<lambda>b. Inr example_mapping), en_client = Inl (Plain ''no cluster''),
     en_kube = pay_only (\<lambda>_. True), en_runtime = example_runtime\<rparr>"

lemma bob_state_idle: "chans bob_state = []"
  by (simp add: bob_state_def new_registry_def)

theorem file_request_alone_is_sequential_witness:
  "\<exists>c. file_servings quiet_env 30 bob_codec (example_proxy True) (bob_state, Map.empty)
      (snd (bob_reply True), [7 \<mapsto> c]) \<and> replied c = Some (bob_request, Relayed (bob_served [10, 2]))"
  by (rule file_request_alone_is_sequential [OF bob_state_ok bob_state_idle no_file_serving _ bob_run [OF bob_strict]])
    simp

lemma bob_answered:
  obtains c where "file_servings env d bob_codec (example_proxy True) (bob_state, Map.empty)
      (snd (bob_reply True), [7 \<mapsto> c])"
    and "replied c = Some (bob_request, Relayed (bob_served [10, 2]))"
    and "its_task bob_codec (example_proxy True) (bob_upstream []) bob_request c"
  using file_alone [OF requests_ok_start [OF bob_state_ok bob_state_idle] _ bob_run [OF bob_strict], where t = 7 and env = env and d = d]
  by auto

lemma bob_said:
  assumes "its_task bob_codec (example_proxy True) (bob_upstream []) bob_request c"
    and "said bob_codec (example_proxy True) (tasks (seen (s, [7 \<mapsto> c]))) k v n"
  shows "bob_names v = Some n"
proof -
  from assms obtain tk evs where tk: "connection_task c = Some tk"
    "batch bob_codec (example_proxy True) tk = Some (k, evs)" "(v, n) \<in> set (announcements evs)"
    by (auto simp: said_def split: if_splits)
  from assms(1) tk(1) obtain info ur where
    ur: "round_trip (bob_upstream []) (Rewrite (bob_upstream []) bob_request) = Inr ur"
    and b: "batch bob_codec (example_proxy True) tk
      = batch bob_codec (example_proxy True) (accept bob_codec (example_proxy True)
          (Rewrite (bob_upstream []) bob_request) info ur)"
    by (fastforce simp: its_task_def)
  let ?info = "\<lparr>filtered = True, ri_scope = bob_scope, ri_id = bob\<rparr>"
  have "open_response bob_codec (example_proxy True) (Rewrite (bob_upstream []) bob_request) (Some ?info)
      (projr (round_trip (bob_upstream []) (Rewrite (bob_upstream []) bob_request)))
    = Handling (bob_message [1]) (Learning bob_batch (er_events bob_batch))" by code_simp
  then have "open_response bob_codec (example_proxy True) (Rewrite (bob_upstream []) bob_request) (Some info) ur
      = (if \<not> filtered info \<or> sc_all (ri_scope info) then Handled (Inr None)
         else Handling (bob_message [1]) (Learning bob_batch (er_events bob_batch)))"
    unfolding ur by (simp add: open_response_def bob_scope_def)
  moreover have "announcements (er_events bob_batch) = [(''a'', ''sandbox-bob''), (''b'', ''db'')]" by code_simp
  ultimately show ?thesis using tk b by (auto simp: batch_def accept_def bob_names_def split: if_splits)
qed

theorem concurrent_file_confines_witness:
  "\<exists>i s\<^sub>1 cs\<^sub>1 c. From (px_headers (example_proxy True)) (rq_header bob_request) = Inr i
    \<and> file_servings quiet_env 30 bob_codec (example_proxy True) (bob_state, Map.empty) (s\<^sub>1, cs\<^sub>1)
    \<and> file_servings quiet_env 30 bob_codec (example_proxy True) (s\<^sub>1, cs\<^sub>1) (snd (bob_reply True), [7 \<mapsto> c])
    \<and> cs\<^sub>1 7 = Some (Authorizing bob_request i)
    \<and> (is_admin (sa_m (auth s\<^sub>1)) i
       \<or> (\<exists>msg. decodeEnvelope bob_codec [10, 2] (is_json (bob_served [10, 2])) = Inr msg
            \<and> message_discloses bob_codec bob_names msg \<subseteq> insert [] (mapped_ns (sa_m (auth s\<^sub>1)) i)))"
proof (rule bob_answered)
  fix c
  assume run: "file_servings quiet_env 30 bob_codec (example_proxy True) (bob_state, Map.empty)
      (snd (bob_reply True), [7 \<mapsto> c])"
    and c: "replied c = Some (bob_request, Relayed (bob_served [10, 2]))"
    and tk: "its_task bob_codec (example_proxy True) (bob_upstream []) bob_request c"
  have "codec_reads_back bob_codec" by (simp add: bob_codec_def table_codec_reads_back)
  moreover have "status (bob_served [10, 2]) = StatusOK" "rs_body (bob_served [10, 2]) = [10, 2]"
    by (simp_all add: bob_served_def StatusOK_def)
  ultimately show ?thesis
    using concurrent_file_confines [OF bob_state_ok bob_state_idle run _ c bob_api, of 7 "\<lambda>_. bob_names"]
      bob_said [OF tk]
    by (simp add: example_proxy_both) blast
qed

end
