(* ===== verification/Deployment_Process.thy ===== *)
theory Deployment_Process
  imports Rbac_Process_Properties File_Process_Properties
begin

text \<open>
  The process \<^verbatim>\<open>run\<close> (\<^verbatim>\<open>cmd/hubble-authz-proxy/root.go\<close>) starts, with its requests in flight, whichever
  authorizer it was configured with.
\<close>

section \<open>Situations\<close>

datatype situation =
    Files "unit file_world"
  | Reviews "unit world"

fun process_of :: "situation \<Rightarrow> process" where
  "process_of (Files x) = Static_Process (fst x)"
| "process_of (Reviews W) = Rbac_Process (shared (flying W))"

fun in_flight :: "situation \<Rightarrow> nat \<Rightarrow> connection option" where
  "in_flight (Files x) = snd x"
| "in_flight (Reviews W) = conns W"

definition responses :: "situation \<Rightarrow> nat \<Rightarrow> task option" where
  "responses X t = Option.bind (in_flight X t) connection_task"

fun at_launch :: "process \<Rightarrow> situation" where
  "at_launch (Static_Process s) = Files (s, Map.empty)"
| "at_launch (Rbac_Process s) = Reviews (idle_world s)"

text \<open>From one situation to a later one, with the goroutines the process was launched with.\<close>

fun reaches :: "environment \<Rightarrow> codec \<Rightarrow> launched \<Rightarrow> situation \<Rightarrow> situation \<Rightarrow> bool" where
  "reaches env cd l (Files x) (Files y) \<longleftrightarrow>
     (\<exists>d. Bg_Reloader d \<in> set (la_background l) \<and> file_servings env d cd (la_proxy l) x y)"
| "reaches env cd l (Reviews V) (Reviews W) \<longleftrightarrow> servings (en_kube env) cd (la_proxy l) V W"
| "reaches env cd l _ _ \<longleftrightarrow> False"

lemma process_of_opening [simp]: "process_of (at_launch P) = P"
  by (cases P) simp_all

lemma responses_seen:
  "responses (Files x) = tasks (seen x)" "responses (Reviews W) = tasks (seen (view_of W))"
  by (simp_all add: fun_eq_iff responses_def seen_def)

section \<open>Starting, and serving from there\<close>

lemma launched_idle:
  assumes "run env version cfg = Inr l"
  shows "la_process l = Static_Process s \<Longrightarrow> reg_ok s \<and> chans s = []"
    and "la_process l = Rbac_Process s' \<Longrightarrow> rbac_ok (en_kube env) s' \<and> reg_ok s' \<and> chans s' = []"
proof -
  note ok = deployment_starts(1) [OF assms]
  let ?r = "new_registry (cf_channelTTL cfg) (cf_maxChannels cfg)"
  from assms obtain P where P: "la_process l = (if cf_metricsListen cfg \<noteq> []
      then observe_process (NewRegistry version KnownRoutes) (install_registry ?r P) else install_registry ?r P)"
    by (auto elim: run_cases simp: Let_def)
  show "la_process l = Static_Process s \<Longrightarrow> reg_ok s \<and> chans s = []"
    using ok P by (cases P) (auto simp: process_ok_def new_registry_def split: if_splits)
  show "la_process l = Rbac_Process s' \<Longrightarrow> rbac_ok (en_kube env) s' \<and> reg_ok s' \<and> chans s' = []"
    using ok P by (cases P) (auto simp: process_ok_def new_registry_def split: if_splits)
qed

end
