(* ===== verification/Process_End.thy ===== *)
theory Process_End
  imports Command
begin

text \<open>
  The two servers of the process from outside: what the metrics listener answers
  (\<^verbatim>\<open>internal/metrics/metrics.go\<close>, \<^verbatim>\<open>Handler\<close>), and how \<^verbatim>\<open>run\<close> (\<^verbatim>\<open>cmd/hubble-authz-proxy/root.go\<close>) takes
  both down. \<^verbatim>\<open>http.ServeMux\<close> and \<^verbatim>\<open>http.Server.Shutdown\<close> are modelled as far as these use them.
\<close>

section \<open>The metrics listener\<close>

text \<open>
  \<^verbatim>\<open>http.ServeMux\<close> answers a path that is not clean with a redirect to the clean one: a slash in
  front, no empty, \<^verbatim>\<open>.\<close> or \<^verbatim>\<open>..\<close> segments, a slash at the end kept. Only \<^verbatim>\<open>CONNECT\<close> requests are
  matched as they are. \<^verbatim>\<open>promhttp\<close> exposes the collectors.
\<close>

definition clean_segment :: "string list \<Rightarrow> string \<Rightarrow> string list" where
  "clean_segment acc w =
    (if w = [] \<or> w = ''.'' then acc else if w = ''..'' then butlast acc else acc @ [w])"

definition clean_segments :: "string \<Rightarrow> string list" where
  "clean_segments path = foldl clean_segment [] (split_on CHR ''/'' path)"

definition cleanPath :: "string \<Rightarrow> string" where
  "cleanPath path =
    (let ws = clean_segments path
     in if ws = [] then ''/''
        else ''/'' @ join_with ''/'' ws @ (if has_suffix path ''/'' then ''/'' else []))"

datatype scrape =
    Exposition metrics
  | Healthy string
  | Moved string
  | Not_Found

definition Handler :: "metrics \<Rightarrow> string \<Rightarrow> string \<Rightarrow> scrape" where
  "Handler m verb path =
    (if verb \<noteq> ''CONNECT'' \<and> cleanPath path \<noteq> path then Moved (cleanPath path)
     else if path = ''/metrics'' then Exposition m
     else if path = ''/healthz'' then Healthy [CHR ''o'', CHR ''k'', CHR 0x0A]
     else Not_Found)"

lemma clean_segments_words:
  "w \<in> set (clean_segments path) \<Longrightarrow> w \<noteq> [] \<and> w \<noteq> ''.'' \<and> w \<noteq> ''..'' \<and> CHR ''/'' \<notin> set w"
proof -
  have "w \<noteq> [] \<and> w \<noteq> ''.'' \<and> w \<noteq> ''..'' \<and> CHR ''/'' \<notin> set w"
    if "w \<in> set (foldl clean_segment acc vs)" "\<And>v. v \<in> set vs \<Longrightarrow> CHR ''/'' \<notin> set v"
      "\<And>v. v \<in> set acc \<Longrightarrow> v \<noteq> [] \<and> v \<noteq> ''.'' \<and> v \<noteq> ''..'' \<and> CHR ''/'' \<notin> set v" for acc vs
    using that
  proof (induction vs arbitrary: acc)
    case (Cons v vs)
    from Cons.prems have "\<And>u. u \<in> set (clean_segment acc v) \<Longrightarrow>
        u \<noteq> [] \<and> u \<noteq> ''.'' \<and> u \<noteq> ''..'' \<and> CHR ''/'' \<notin> set u"
      by (auto simp: clean_segment_def dest: in_set_butlastD split: if_splits)
    with Cons.IH [of "clean_segment acc v"] Cons.prems show ?case by simp
  qed simp
  from this [of "[]" "split_on CHR ''/'' path"] show "w \<in> set (clean_segments path) \<Longrightarrow> ?thesis"
    using split_on_no_sep by (fastforce simp: clean_segments_def)
qed

lemma foldl_clean_segment:
  "(\<And>w. w \<in> set ws \<Longrightarrow> w \<noteq> [] \<and> w \<noteq> ''.'' \<and> w \<noteq> ''..'') \<Longrightarrow> foldl clean_segment acc ws = acc @ ws"
  by (induction ws arbitrary: acc) (auto simp: clean_segment_def)

lemma split_on_join_words:
  assumes "\<forall>w \<in> set ws. c \<notin> set w" and "ws \<noteq> []"
  shows "split_on c (join_with [c] ws) = ws"
proof -
  have "split_on c (join_with [c] ws) \<noteq> []" "\<forall>w \<in> set (split_on c (join_with [c] ws)). c \<notin> set w"
    using split_on_no_sep by auto
  from join_with_inj [OF this(2) assms(1) split_on_join this(1) assms(2)] show ?thesis .
qed

lemma clean_segments_again: "clean_segments (cleanPath path) = clean_segments path"
proof (cases "clean_segments path = []")
  case True
  then show ?thesis by (simp add: cleanPath_def clean_segments_def clean_segment_def)
next
  case False
  let ?ws = "clean_segments path"
  have words: "\<forall>w \<in> set ?ws. CHR ''/'' \<notin> set w" "\<And>w. w \<in> set ?ws \<Longrightarrow> w \<noteq> [] \<and> w \<noteq> ''.'' \<and> w \<noteq> ''..''"
    using clean_segments_words by blast+
  have split: "split_on CHR ''/'' (CHR ''/'' # join_with ''/'' ?ws @ t) =
      [] # ?ws @ (if t = [] then [] else [[]])" if "t = [] \<or> t = ''/''" for t
    using that split_on_join_words [OF words(1) False] split_on_append_sep [of "CHR ''/''" "join_with ''/'' ?ws" "[]"]
    by auto
  show ?thesis
    using False split [of "if has_suffix path ''/'' then ''/'' else []"] foldl_clean_segment [OF words(2), of ?ws "[]"]
    by (auto simp: cleanPath_def Let_def clean_segments_def [of "cleanPath path"] clean_segments_def [of "CHR ''/'' # _"]
        clean_segment_def [of _ "[]"])
qed

text \<open>
  The listener redirects at most once, answers the health probe whatever has happened to the
  process, and exposes the collectors under one path.
\<close>

lemma cleanPath_idem: "cleanPath (cleanPath path) = cleanPath path"
proof -
  have "has_suffix (cleanPath path) ''/'' = has_suffix path ''/''" if ws: "clean_segments path \<noteq> []"
  proof -
    let ?j = "join_with ''/'' (clean_segments path)"
    have split: "split_on CHR ''/'' ?j = clean_segments path"
      using clean_segments_words [of _ path] by (intro split_on_join_words [OF _ ws]) blast
    have "\<not> has_suffix (''/'' @ ?j) ''/''"
    proof
      assume "has_suffix (''/'' @ ?j) ''/''"
      then obtain t where t: "''/'' @ ?j = t @ ''/''" unfolding has_suffix_iff by blast
      have "[] \<in> set (split_on CHR ''/'' ?j)"
      proof (cases t)
        case (Cons x u)
        with arg_cong [OF t, of tl] have "?j = u @ CHR ''/'' # []" by simp
        then show ?thesis by (simp add: split_on_append_sep)
      qed (use t in simp)
      with split clean_segments_words show False by metis
    qed
    with ws show ?thesis by (auto simp: cleanPath_def has_suffix_iff)
  qed
  with clean_segments_again show ?thesis unfolding cleanPath_def [of "cleanPath path"]
    by (auto simp: Let_def cleanPath_def)
qed

lemma listener_settles:
  "Handler m verb path = Moved path' \<Longrightarrow> \<nexists>p. Handler m verb path' = Moved p"
proof -
  assume "Handler m verb path = Moved path'"
  then have "path' = cleanPath path" by (auto simp: Handler_def split: if_splits)
  then have "cleanPath path' = path'" by (simp add: cleanPath_idem)
  then show ?thesis by (auto simp: Handler_def)
qed

lemma probe_answered: "Handler m ''GET'' ''/healthz'' = Healthy [CHR ''o'', CHR ''k'', CHR 0x0A]"
  by code_simp

section \<open>Taking the servers down\<close>

text \<open>
  \<^verbatim>\<open>Shutdown\<close> at time \<open>t\<close> looks for busy connections at once and then at intervals: it returns when it
  finds none, at time \<open>idle\<close> if ever, with what closing the listeners gave, or when the deadline of
  its context passes, with the context's error.
\<close>

definition Shutdown :: "int option \<Rightarrow> go_error option \<Rightarrow> int \<Rightarrow> int \<Rightarrow> int \<times> go_error option" where
  "Shutdown idle closing deadline t =
    (case idle of
       Some u \<Rightarrow>
         if u \<le> t then (t, closing)
         else if u \<le> deadline then (u, closing)
         else (max t deadline, Some (Plain ''context deadline exceeded''))
     | None \<Rightarrow> (max t deadline, Some (Plain ''context deadline exceeded'')))"

record server_end =
  se_idle :: "int option"
  se_closing :: "go_error option"

text \<open>
  What the process does from the end of serving at time \<open>t\<close> on: the time it stops, its exit status
  and the messages it logs. Both servers are drained under one deadline, the proxy first.
\<close>

definition finish :: "launched \<Rightarrow> server_end \<Rightarrow> server_end \<Rightarrow> serve_end \<Rightarrow> int \<Rightarrow> int \<times> nat \<times> string list" where
  "finish l proxy_end metrics_end how t =
    (case how of
       Listener_Failed e \<Rightarrow> (t, exit_status how, [''serve failed''])
     | _ \<Rightarrow>
         let deadline = t + la_shutdownGrace l;
             log = (case how of Signal_Received \<Rightarrow> [''signal received, draining''] | _ \<Rightarrow> []);
             (t, err) = Shutdown (se_idle proxy_end) (se_closing proxy_end) deadline t;
             log = (case err of Some e \<Rightarrow> log @ [''proxy shutdown''] | None \<Rightarrow> log);
             (t, log) =
               (if list_ex (\<lambda>b. case b of Bg_MetricsListener a \<Rightarrow> True | _ \<Rightarrow> False) (la_background l) then
                  let (t, err) = Shutdown (se_idle metrics_end) (se_closing metrics_end) deadline t
                  in (t, case err of Some e \<Rightarrow> log @ [''metrics shutdown''] | None \<Rightarrow> log)
                else (t, log))
         in (t, exit_status how, log @ [''stopped'']))"

lemma Shutdown_bounds:
  assumes "Shutdown idle closing deadline t = (t', err)"
  shows "t \<le> t'" and "t' \<le> max t deadline"
    and "t' < deadline \<Longrightarrow> err = closing \<and> (\<exists>u. idle = Some u \<and> u \<le> t')"
  using assms by (auto simp: Shutdown_def split: option.splits if_splits)

lemma finish_bounds:
  assumes grace: "0 \<le> la_shutdownGrace l"
    and stop: "finish l proxy_end metrics_end how t = (t', code, log)" and how: "\<nexists>e. how = Listener_Failed e"
  shows "code = 0 \<and> t \<le> t' \<and> t' \<le> t + la_shutdownGrace l
    \<and> (t' < t + la_shutdownGrace l \<longrightarrow> (\<exists>u. se_idle proxy_end = Some u \<and> u \<le> t'))"
proof -
  let ?d = "t + la_shutdownGrace l"
  obtain t1 e1 where s1: "Shutdown (se_idle proxy_end) (se_closing proxy_end) ?d t = (t1, e1)" by fastforce
  obtain t2 e2 where s2: "Shutdown (se_idle metrics_end) (se_closing metrics_end) ?d t1 = (t2, e2)" by fastforce
  note b1 = Shutdown_bounds [OF s1] and b2 = Shutdown_bounds [OF s2]
  from stop s1 s2 how have "code = 0" "t' = t1 \<or> t' = t2"
    by (cases how; auto simp: finish_def exit_status_def Let_def split: if_splits)+
  with b1 b2 grace show ?thesis by fastforce
qed

end
