(* ===== verification/Handler_Log.thy ===== *)
theory Handler_Log
  imports Logging Proxy_Properties
begin

text \<open>
  What the handler of \<^verbatim>\<open>internal/proxy/proxy.go\<close> logs, and at which level, so that it can be said
  what a log tells about the callers. A record is its level, its message and its attributes.
\<close>

section \<open>Levels\<close>

instantiation level :: linorder
begin

fun level_rank :: "level \<Rightarrow> int" where
  "level_rank LevelDebug = - 4"
| "level_rank LevelInfo = 0"
| "level_rank LevelWarn = 4"
| "level_rank LevelError = 8"

definition less_eq_level :: "level \<Rightarrow> level \<Rightarrow> bool" where
  "less_eq_level a b \<longleftrightarrow> level_rank a \<le> level_rank b"

definition less_level :: "level \<Rightarrow> level \<Rightarrow> bool" where
  "less_level a b \<longleftrightarrow> level_rank a < level_rank b"

instance
proof
  fix a b :: level
  show "a \<le> b \<Longrightarrow> b \<le> a \<Longrightarrow> a = b"
    by (cases a; cases b) (simp_all add: less_eq_level_def)
qed (auto simp: less_eq_level_def less_level_def)

end

section \<open>Records\<close>

datatype attr =
    Text string
  | Names "string list"
  | Number int
  | Truth bool
  | Failure go_error

record log_record =
  lr_level :: level
  lr_message :: string
  lr_attrs :: "(string \<times> attr) list"

definition unauthenticated_record :: "proxy \<Rightarrow> request \<Rightarrow> log_record" where
  "unauthenticated_record p r = \<lparr>lr_level = LevelWarn, lr_message = ''no identity on request'',
     lr_attrs = [(''route'', Text (request_route p r)), (''expecting'', Text (Expecting (px_headers p))),
       (''present'', Names (PresentIn (px_headers p) (rq_header r))),
       (''other_family_present'', Names (OtherFamilyIn (px_headers p) (rq_header r)))]\<rparr>"

definition unresolved_record :: "proxy \<Rightarrow> request \<Rightarrow> identity \<Rightarrow> go_error \<Rightarrow> log_record" where
  "unresolved_record p r i e =
    (if clientGone e then
       \<lparr>lr_level = LevelDebug, lr_message = ''caller left while their scope was being resolved'',
        lr_attrs = [(''route'', Text (request_route p r)), (''user'', Text (id_email i))]\<rparr>
     else
       \<lparr>lr_level = LevelError, lr_message = ''cannot resolve allowed namespaces'',
        lr_attrs = [(''user'', Text (id_email i)), (''groups'', Names (id_groups i)), (''err'', Failure e)]\<rparr>)"

definition authorized_record :: "proxy \<Rightarrow> request \<Rightarrow> identity \<Rightarrow> scope \<Rightarrow> log_record" where
  "authorized_record p r i sc = \<lparr>lr_level = LevelDebug, lr_message = ''request authorized'',
     lr_attrs = [(''route'', Text (request_route p r)), (''user'', Text (cmp_or (id_email i) (id_user i))),
       (''groups'', Names (id_groups i)), (''unrestricted'', Truth (sc_all sc)),
       (''namespaces'', Number (int (length (sc_namespaces sc))))]\<rparr>"

definition refused_record :: "proxy \<Rightarrow> request \<Rightarrow> go_error \<Rightarrow> log_record" where
  "refused_record p r e =
    (let route = knownRoute (trim_prefix (rq_path r) (apiPrefix p))
     in if clientGone e then
          \<lparr>lr_level = LevelDebug, lr_message = ''client disconnected before the response completed'',
           lr_attrs = [(''route'', Text route), (''path'', Text (rq_path r)), (''err'', Failure e)]\<rparr>
        else if errors_is e Err_Response_Too_Large then
          \<lparr>lr_level = LevelError, lr_message = ''backend response too large to filter; refusing to serve it'',
           lr_attrs = [(''route'', Text route), (''limit_bytes'', Number (sint (maxResponse p))),
             (''hint'', Text ''raise --max-response-bytes if this is legitimate'')]\<rparr>
        else
          \<lparr>lr_level = LevelError, lr_message = ''refusing to serve response'',
           lr_attrs = [(''route'', Text route), (''path'', Text (rq_path r)), (''err'', Failure e)]\<rparr>)"

definition notice_record :: "identity \<Rightarrow> log_record" where
  "notice_record i = \<lparr>lr_level = LevelInfo,
     lr_message = ''caller has no visible namespaces; sending them a NoPermission notice'',
     lr_attrs = [(''user'', Text (cmp_or (id_email i) (id_user i))), (''groups'', Names (id_groups i))]\<rparr>"

text \<open>
  The notice is logged where \<^verbatim>\<open>filterControlStream\<close> sends it, right after it is counted; what the
  third operand of that guard answered is read off the counter, which no other code increments.
\<close>

definition notice_log ::
  "proxy \<Rightarrow> reqInfo \<Rightarrow> ('az, 'b) reg_state_scheme \<Rightarrow> ('az, 'b) reg_state_scheme \<Rightarrow> log_record list" where
  "notice_log p info s s' =
    (if notifyEmptyScope p \<and> length (sc_namespaces (ri_scope info)) = 0
        \<and> EmptyScopeNotifications (met s') \<noteq> EmptyScopeNotifications (met s)
     then [notice_record (ri_id info)] else [])"

text \<open>What \<^verbatim>\<open>ReverseProxy\<close>, the filter and the error handler log for a request.\<close>

definition rp_log ::
  "codec \<Rightarrow> proxy \<Rightarrow> upstream \<Rightarrow> reqInfo \<Rightarrow> request \<Rightarrow> ('az, 'b) reg_state_scheme \<Rightarrow> log_record list" where
  "rp_log cd p up info r s =
    (let out = Rewrite up r
     in case round_trip up out of
          Inl e \<Rightarrow> [refused_record p out e]
        | Inr resp \<Rightarrow>
            (case filterResponse cd p out (Some info) resp s of
               (Inl e, s') \<Rightarrow> notice_log p info s s' @ [refused_record p out e]
             | (Inr ro, s') \<Rightarrow> notice_log p info s s'))"

text \<open>What \<^verbatim>\<open>ServeHTTP\<close> logs for a request, the records in the order of the code.\<close>

definition handler_log ::
  "(identity \<Rightarrow> ('az, 'b) reg_state_scheme \<Rightarrow> (go_error + scope) \<times> ('az, 'b) reg_state_scheme)
   \<Rightarrow> codec \<Rightarrow> proxy \<Rightarrow> upstream \<Rightarrow> request \<Rightarrow> ('az, 'b) reg_state_scheme \<Rightarrow> log_record list" where
  "handler_log allowed cd p up r s =
    (if \<not> has_prefix (rq_path r) (apiPrefix p) then
       rp_log cd p up
         \<lparr>filtered = False, ri_scope = empty_scope, ri_id = \<lparr>id_user = [], id_email = [], id_groups = []\<rparr>\<rparr> r
         (count_request RouteNone OutcomePassthrough s)
     else
       (case From (px_headers p) (rq_header r) of
          Inl e \<Rightarrow> [unauthenticated_record p r]
        | Inr i \<Rightarrow>
            (case allowed i (timed p r s) of
               (Inl e, s) \<Rightarrow> [unresolved_record p r i e]
             | (Inr sc, s) \<Rightarrow>
                 authorized_record p r i sc
                 # rp_log cd p up \<lparr>filtered = True, ri_scope = sc, ri_id = i\<rparr> r
                     (count_request (request_route p r) OutcomeFiltered s))))"

text \<open>A handler drops the records below its level.\<close>

fun logger_level :: "logger \<Rightarrow> level" where
  "logger_level (TextHandler l) = l"
| "logger_level (JSONHandler l) = l"

definition written :: "logger \<Rightarrow> log_record list \<Rightarrow> log_record list" where
  "written lg rs = filter (\<lambda>lr. logger_level lg \<le> lr_level lr) rs"

section \<open>What a log tells\<close>

text \<open>Besides the debug records, a failed resolution names its caller, at every level.\<close>

lemma failed_resolution_names_caller:
  assumes "From (px_headers p) (rq_header r) = Inr i" and "has_prefix (rq_path r) (apiPrefix p)"
    and "allowed i (timed p r s) = (Inl e, s\<^sub>1)" and "\<not> clientGone e"
  shows "\<exists>lr. written lg (handler_log allowed cd p up r s) = [lr]
    \<and> (''user'', Text (id_email i)) \<in> set (lr_attrs lr) \<and> (''groups'', Names (id_groups i)) \<in> set (lr_attrs lr)"
  using assms by (cases "logger_level lg") (simp_all add: handler_log_def written_def unresolved_record_def less_eq_level_def)

text \<open>
  C35. The record of a request without identity names headers and never their values: two requests to
  the same path that have values in the same identity headers, none of them a user or an email of
  the family read, leave the same log, whatever those values are.
\<close>

theorem unauthenticated_log_hides_values:
  assumes "rq_path r = rq_path r'" and api: "has_prefix (rq_path r) (apiPrefix p)"
    and same: "\<And>name. header_get (rq_header r) name = [] \<longleftrightarrow> header_get (rq_header r') name = []"
    and "From (px_headers p) (rq_header r) = Inl e"
  shows "handler_log allowed cd p up r s = handler_log allowed' cd' p up' r' s'"
proof -
  have "From (px_headers p) (rq_header r') = Inl Err_No_Identity"
    using assms(4) same by (auto simp: From_def Let_def split: if_splits)
  with assms api show ?thesis
    by (simp add: handler_log_def unauthenticated_record_def request_route_def PresentIn_def OtherFamilyIn_def
        Let_def cong: filter_cong)
qed

definition stranger :: "string \<Rightarrow> request" where
  "stranger v = \<lparr>rq_path = ''/api/service-map-stream'', rq_header = [(''X-Forwarded-User'', [v])], rq_rest = []\<rparr>"

lemma stranger_header:
  "v \<noteq> [] \<Longrightarrow> header_get (rq_header (stranger v)) name = [] \<longleftrightarrow> canonical_key name \<noteq> ''X-Forwarded-User''"
  by (simp add: stranger_def header_get_def get_list_def)

theorem unauthenticated_log_hides_values_witness:
  "handler_log (Instrumented StaticAllowed ''static'') bob_codec (example_proxy True) (bob_upstream [])
     (stranger ''eve'') bob_state
   = handler_log (Instrumented StaticAllowed ''static'') bob_codec (example_proxy True) (bob_upstream [])
     (stranger ''mallory'') bob_state"
proof (rule unauthenticated_log_hides_values)
  show "has_prefix (rq_path (stranger ''eve'')) (apiPrefix (example_proxy True))"
    by (simp add: stranger_def example_proxy_def has_prefix_def)
  have "From (NewHeaders AuthRequestPrefix) (rq_header (stranger ''eve'')) = Inl Err_No_Identity" by code_simp
  then show "From (px_headers (example_proxy True)) (rq_header (stranger ''eve'')) = Inl Err_No_Identity"
    by (simp add: example_proxy_def)
qed (simp_all add: stranger_header, simp add: stranger_def)

text \<open>
  What the log tells of a caller whose scope was resolved, above the debug level: a logger of
  level info or higher writes at most the record of the notice, and then at most one record that
  the response was refused, with the route or the path and the error. Only the notice names the
  caller; it is written at level info, and for a caller with no visible namespace.
\<close>

theorem served_request_log_above_debug:
  assumes "From (px_headers p) (rq_header r) = Inr i" and "has_prefix (rq_path r) (apiPrefix p)"
    and "allowed i (timed p r s) = (Inr sc, s\<^sub>1)" and "LevelInfo \<le> logger_level lg"
  shows "\<exists>notice refusal. written lg (handler_log allowed cd p up r s) = notice @ refusal
    \<and> (notice = [] \<or> notice = [notice_record i] \<and> logger_level lg = LevelInfo
        \<and> notifyEmptyScope p \<and> sc_namespaces sc = [])
    \<and> (refusal = [] \<or> (\<exists>e. refusal = [refused_record p (Rewrite up r) e] \<and> \<not> clientGone e))"
proof -
  have quiet: "\<not> logger_level lg \<le> LevelDebug"
    using assms(4) by (cases "logger_level lg") (simp_all add: less_eq_level_def)
  let ?info = "\<lparr>filtered = True, ri_scope = sc, ri_id = i\<rparr>"
  let ?rp = "rp_log cd p up ?info r (count_request (request_route p r) OutcomeFiltered s\<^sub>1)"
  let ?s = "count_request (request_route p r) OutcomeFiltered s\<^sub>1"
  let ?n = "\<lambda>n. n = [] \<or> n = [notice_record i] \<and> notifyEmptyScope p \<and> sc_namespaces sc = []"
  let ?f = "\<lambda>f. f = [] \<or> (\<exists>e. f = [refused_record p (Rewrite up r) e])"
  have notice: "?n (notice_log p ?info ?s s')" for s' by (simp add: notice_log_def)
  have "\<exists>n f. ?rp = n @ f \<and> ?n n \<and> ?f f"
  proof (cases "round_trip up (Rewrite up r)")
    case (Inl e)
    then have "?rp = [] @ [refused_record p (Rewrite up r) e]" by (simp add: rp_log_def)
    then show ?thesis by blast
  next
    case (Inr resp)
    obtain res s' where "filterResponse cd p (Rewrite up r) (Some ?info) resp ?s = (res, s')" by fastforce
    with Inr have "?rp = notice_log p ?info ?s s'
        @ (case res of Inl e \<Rightarrow> [refused_record p (Rewrite up r) e] | Inr ro \<Rightarrow> [])"
      by (simp add: rp_log_def split: sum.split)
    moreover have "?f (case res of Inl e \<Rightarrow> [refused_record p (Rewrite up r) e] | Inr ro \<Rightarrow> [])"
      by (cases res) auto
    ultimately show ?thesis using notice [of s'] by blast
  qed
  then obtain n f where rp: "?rp = n @ f" and n: "?n n" and f: "?f f" by blast
  have "written lg (handler_log allowed cd p up r s) = written lg n @ written lg f"
    using assms quiet rp by (simp add: handler_log_def written_def authorized_record_def)
  moreover have "written lg n = [] \<or> written lg n = [notice_record i] \<and> logger_level lg = LevelInfo
        \<and> notifyEmptyScope p \<and> sc_namespaces sc = []"
    using n assms(4) by (auto simp: written_def notice_record_def split: if_splits)
  moreover have "written lg f = [] \<or> (\<exists>e. written lg f = [refused_record p (Rewrite up r) e] \<and> \<not> clientGone e)"
  proof (cases "\<exists>e. f = [refused_record p (Rewrite up r) e]")
    case True
    then obtain e where f: "f = [refused_record p (Rewrite up r) e]" by blast
    have "written lg f = []" if "clientGone e"
      unfolding f using that quiet by (simp add: refused_record_def written_def)
    moreover have "written lg f = [] \<or> written lg f = f" by (simp add: f written_def)
    ultimately show ?thesis using f by blast
  qed (use f in \<open>simp add: written_def\<close>)
  ultimately show ?thesis by blast
qed

theorem served_request_log_above_debug_witness:
  "\<exists>notice refusal. written (TextHandler LevelInfo) (handler_log (Instrumented StaticAllowed ''static'') bob_codec
      (example_proxy True) down_upstream bob_request bob_state) = notice @ refusal
    \<and> (notice = [] \<or> notice = [notice_record bob] \<and> logger_level (TextHandler LevelInfo) = LevelInfo
        \<and> notifyEmptyScope (example_proxy True) \<and> sc_namespaces bob_scope = [])
    \<and> (refusal = [] \<or> (\<exists>e. refusal = [refused_record (example_proxy True) (Rewrite down_upstream bob_request) e]
        \<and> \<not> clientGone e))"
proof -
  have "Instrumented StaticAllowed ''static'' bob (timed (example_proxy True) bob_request bob_state)
      = (Inr bob_scope, snd (Instrumented StaticAllowed ''static'' bob (timed (example_proxy True) bob_request bob_state)))"
    using bob_resolved [of "timed (example_proxy True) bob_request bob_state"] by (simp add: prod_eq_iff timed_def)
  from served_request_log_above_debug [where allowed = "Instrumented StaticAllowed ''static''" and s = bob_state
      and p = "example_proxy True" and r = bob_request,
      OF bob_identity bob_api this, of "TextHandler LevelInfo" bob_codec down_upstream] show ?thesis
    by (simp add: less_eq_level_def)
qed

end
