(* ===== verification/Spec2Isabelle.thy ===== *)
theory Spec2Isabelle
  imports Deployment_Process Process_End Handler_Log
begin

text \<open>
  Verification of hubble-authz-proxy, an authorizing reverse proxy between the Hubble UI and its
  backend. The proxy takes the caller's identity from request headers, resolves it to the set of
  namespaces the caller may see, forwards the request, and removes from the response what lies
  outside that set.

  \<^bold>\<open>Parts and theories.\<close> Source files are under \<^verbatim>\<open>src/\<close>.

  \<^item> \<open>Prelude\<close>: byte strings, insertion-ordered maps (Go maps, whose iteration order is an arbitrary
    rank taken from the runtime at every loop), Go errors, \<open>join_with\<close>, prefixes and suffixes.
  \<^item> \<open>Metrics\<close> (\<^verbatim>\<open>internal/metrics/metrics.go\<close>): the collectors as counters per label list, the label
    vocabulary, \<^verbatim>\<open>NewRegistry\<close> with its pre-initialisation.
  \<^item> \<open>Identity_Headers\<close> (\<^verbatim>\<open>internal/identity/identity.go\<close>): reading an identity from the headers.
  \<^item> \<open>Authorizer\<close> (\<^verbatim>\<open>internal/authz/authz.go\<close>): scopes, the process state (runtime, metrics, the
    authorizer's own data, later the registry), \<open>Instrumented\<close>, and the locale \<open>authorizer\<close>, the
    contract of \<^verbatim>\<open>AllowedNamespaces\<close>.
  \<^item> \<open>Static_Authorizer\<close> (the rest of that file): the mapping file, \<open>reload\<close>, \<open>RunReloader\<close>,
    \<open>StaticAllowed\<close>; it provides the contract.
  \<^item> \<open>Rbac_Authorizer\<close>, \<open>Rbac_Laws\<close>, \<open>Rbac_Calls\<close> (\<^verbatim>\<open>internal/authz/rbac/rbac.go\<close>): the scope cache, the
    reviews, one call of \<^verbatim>\<open>AllowedNamespaces\<close> as \<open>RbacAllowed\<close>, and which call an entry goes back to; \<open>Rbac_Watch\<close>, \<open>Rbac_Watch_Laws\<close>
    (\<^verbatim>\<open>internal/authz/rbac/watch.go\<close>): the informers' handlers and the evictions they cause;
    \<open>Rbac_Properties\<close>: the properties of both, and the contract again.
  \<^item> \<open>Rbac_Flight\<close>, \<open>Rbac_Flight_Properties\<close>: concurrent calls of \<^verbatim>\<open>AllowedNamespaces\<close>, cut at the
    points where another goroutine may take the mutex, together with the sweeper and the watch;
    a resolution in small steps is shown to be the sequential one when nobody interferes.
  \<^item> \<open>Service_Registry\<close>, \<open>Registry_Laws\<close>, \<open>Registry_Properties\<close> (\<^verbatim>\<open>internal/registry/registry.go\<close>): the
    channels' services, peers and expiry, eviction at the cap.
  \<^item> \<open>Ui_Messages\<close> (\<^verbatim>\<open>internal/proxy/envelope.go\<close> and the fields of the third-party messages),
    \<open>Ui_Filter\<close>, \<open>Ui_Filter_Laws\<close>, \<open>Ui_Filter_Properties\<close> (\<^verbatim>\<open>internal/proxy/filter.go\<close>,
    \<^verbatim>\<open>uifilter.go\<close>): the two filters and the empty-scope notice.
  \<^item> \<open>Proxy_Handler\<close>, \<open>Proxy_Properties\<close> (\<^verbatim>\<open>internal/proxy/proxy.go\<close>): the handler, its error paths
    and size limit. The locale \<open>handler_authorizer\<close> extends \<open>authorizer\<close>; the properties are proved
    in it once and used for the file-backed and the RBAC authorizer by interpretation.
  \<^item> \<open>Logging\<close> (\<^verbatim>\<open>internal/logging/logging.go\<close>), \<open>Command\<close> (\<^verbatim>\<open>cmd/hubble-authz-proxy/root.go\<close>,
    \<^verbatim>\<open>main.go\<close>): flag defaults, what \<^verbatim>\<open>run\<close> builds, the goroutines it starts, how the process ends,
    and the step relation of a running process. \<open>Exported_Series\<close>: what each operation does to the
    set of exported series. \<open>Deployment_Laws\<close>: the invariant of a running process;
    \<open>Deployment_History\<close>: which request an entry of its scope cache goes back to.
    \<open>Serving_Properties\<close>: how requests are counted, and that what is served reads back.
  \<^item> \<open>Filter_Steps\<close>, \<open>Filter_Steps_Laws\<close>, \<open>Concurrent_Filters\<close>, \<open>Concurrent_Properties\<close>: the response
    filter cut at its calls into the registry, any number of responses filtered at a time, and the
    sweeper between them. \<open>Handler_Steps\<close>, \<open>Handler_Runs\<close>: \<^verbatim>\<open>ServeHTTP\<close> cut the same way, with the
    authorizer left open. \<open>Rbac_Process\<close>, \<open>Rbac_Process_Properties\<close>: those requests with the calls of
    \<open>Rbac_Flight\<close> as the authorizer, over one state; \<open>File_Process\<close>, \<open>File_Process_Properties\<close>: with
    the mapping file, reloaded meanwhile. A request that meets no other is shown to be \<open>ServeHTTP\<close>.
    \<open>Deployment_Process\<close>: those two as what \<^verbatim>\<open>run\<close> starts.
  \<^item> \<open>Process_End\<close>: what the metrics listener answers (\<^verbatim>\<open>metrics.Handler\<close>), and how \<^verbatim>\<open>run\<close> shuts both
    servers down. \<open>Handler_Log\<close>: the records the handler logs, and what they tell about callers.
  \<^item> This theory: the properties of the whole process.

  \<^bold>\<open>State and operations.\<close> Every operation is a function on an extensible record: clock and
  iteration ranks (\<open>rt\<close>), metrics (\<open>met\<close>), the authorizer's data (\<open>auth\<close>), the registry (\<open>services\<close>).
  The clock and the ranks are arbitrary functions of the number of consultations so far; the API
  server's answers are too, so its rules may change at any time. An error is \<open>Inl\<close>, a panic
  of a goroutine is a value. Sections under a mutex are single steps. The functions that take a
  request as a whole are the reference; the step relations run many of them at a time, a request
  being a \<open>connection\<close> (\<open>Authorizing\<close>, \<open>Filtering\<close>, \<open>Answered\<close>, \<open>Refused\<close>) and a filter a \<open>stage\<close>.

  \<^bold>\<open>What the lemmas show.\<close> The laws theories state for every operation what it keeps and what it
  changes (\<open>reg_frame\<close>, \<open>filter_frame\<close>, \<open>rbac_frame\<close>, \<open>served_frame\<close>) and that it keeps the component's
  invariant (\<open>reg_ok\<close>, \<open>rbac_ok\<close>, \<open>flight_ok\<close>, \<open>connection_ok\<close>, \<open>world_ok\<close>, \<open>deployment_ok\<close>). On these rest confinement (what a
  caller can read lies in the scope, and the scope in what the rules grant), exactness of the
  filters and of eviction, refinement of the registry by a memory that never forgets, bounds on
  staleness and on memory, accounting, and progress of concurrent callers. The concurrent part
  adds that confinement holds for every interleaving, that a request alone is the sequential one,
  and that every request in progress can be answered. Under RBAC, confinement is by the API server's
  answers: for requests served one after the other those given to this request, or to an earlier one
  that stored its result less than a TTL before; for overlapping requests those given by the time
  the request had its scope.

  \<^bold>\<open>Bounds.\<close> Response limits are 64-bit words with wrap-around, as \<^verbatim>\<open>maxResponse+1\<close> is computed; a
  length is unbounded, which no body reaches. Durations are unbounded integers in nanoseconds. The
  scope cache holds at most 2048 entries, the registry at most the configured cap, the request
  counter 19 series (3 routes by 6 outcomes, and passthrough). No fuel is used: loops are
  recursions over the snapshot of the map they range over, and a resolution takes at most six steps
  and one per namespace; a filter takes a number of steps linear in the events of its batch
  (\<open>steps_to_go\<close>).

  \<^bold>\<open>Parameters.\<close> Protobuf and JSON codecs (assumed only to read back what they wrote), SHA-256, YAML,
  URL and flag parsing, the file system, the backend's round trip, the API server, what informers
  deliver and listers hold. \<^verbatim>\<open>singleflight\<close> is used by its documented contract: one run per key at a
  time, everyone who comes meanwhile waits and gets its result. The theorems on interleaved filters
  assume that the backend gives a service the same namespace in every batch of a channel, which is
  what the registry relies on when it caches the first answer for the next batches.

  \<^bold>\<open>Not modelled.\<close> Histogram buckets and observed durations (only their number); log records outside
  the handler (start-up, reloads, the watch), of which only the messages of the shutdown are kept;
  the help text of the command; listening and the delivery of
  signals, which belong to \<^verbatim>\<open>net/http\<close> and \<^verbatim>\<open>os/signal\<close>; the Go and process collectors of the metrics
  registry; memory and CPU use. A client that disconnects while its scope
  is resolved needs no event: the code detaches the resolution from the request, and what the
  client misses is its reply.
\<close>

section \<open>The whole process\<close>

text \<open>
  Who may see everything, and who may see a namespace, by the rules in force: with the mapping file,
  by the mapping as it is; in RBAC mode, where the API server is asked, by what it has answered so
  far for an identity with the caller's cache key.
\<close>

fun unrestricted :: "environment \<Rightarrow> process \<Rightarrow> identity \<Rightarrow> bool" where
  "unrestricted env (Static_Process s) i \<longleftrightarrow> is_admin (sa_m (auth s)) i"
| "unrestricted env (Rbac_Process s) i \<longleftrightarrow>
     (\<exists>j d. cacheKey j = cacheKey i \<and> reviewed (en_kube env) {..<ticks (rt s)} d j [])"

fun entitled :: "environment \<Rightarrow> process \<Rightarrow> identity \<Rightarrow> string \<Rightarrow> bool" where
  "entitled env (Static_Process s) i ns \<longleftrightarrow> ns \<in> mapped_ns (sa_m (auth s)) i"
| "entitled env (Rbac_Process s) i ns \<longleftrightarrow>
     (\<exists>j d. cacheKey j = cacheKey i \<and> reviewed (en_kube env) {..<ticks (rt s)} d j ns)"

text \<open>
  The same for a request that is served as a whole, from one state of the process to the next. In
  RBAC mode the caller was granted it by reviews of this very request, or by an earlier one: a request
  of this process, of an identity with the same cache key, that had stored the result of its
  resolution, at \<open>m\<close>, less than a TTL before this request looked, at \<open>k\<close>. (\<open>granted_at\<close> takes the state
  a request finds, since the timing of requests and resolutions changes the collectors only, on
  which a resolution does not depend.)
\<close>

definition granted_during ::
  "environment \<Rightarrow> codec \<Rightarrow> config \<Rightarrow> launched \<Rightarrow> rbac_authorizer reg_state \<Rightarrow> rbac_authorizer reg_state
   \<Rightarrow> identity \<Rightarrow> string \<Rightarrow> bool" where
  "granted_during env cd cfg l s s' i ns \<longleftrightarrow>
     (\<exists>m < ticks (rt s'). granted_at (en_kube env) i ns s m)
     \<or> (\<exists>j q m k. earlier_call env cd l j q (Rbac_Process s) \<and> cacheKey j = cacheKey i
          \<and> granted_at (en_kube env) j ns q m \<and> ticks (rt s) \<le> k \<and> k < ticks (rt s')
          \<and> now_at (en_runtime env) k < now_at (en_runtime env) m + cf_rbacTTL cfg)"

fun unrestricted_during ::
  "environment \<Rightarrow> codec \<Rightarrow> config \<Rightarrow> launched \<Rightarrow> process \<Rightarrow> process \<Rightarrow> identity \<Rightarrow> bool" where
  "unrestricted_during env cd cfg l (Rbac_Process s) (Rbac_Process s') i \<longleftrightarrow>
     granted_during env cd cfg l s s' i []"
| "unrestricted_during env cd cfg l P P' i \<longleftrightarrow> unrestricted env P i"

fun entitled_during ::
  "environment \<Rightarrow> codec \<Rightarrow> config \<Rightarrow> launched \<Rightarrow> process \<Rightarrow> process \<Rightarrow> identity \<Rightarrow> string \<Rightarrow> bool" where
  "entitled_during env cd cfg l (Rbac_Process s) (Rbac_Process s') i ns \<longleftrightarrow>
     granted_during env cd cfg l s s' i ns"
| "entitled_during env cd cfg l P P' i ns \<longleftrightarrow> entitled env P i ns"

lemma served_during:
  assumes run: "run env version cfg = Inr l" and reach: "reachable env cd l (Rbac_Process s)"
    and just: "served_from (en_kube env) i sc s s'"
  shows "sc_all sc \<Longrightarrow> granted_during env cd cfg l s s' i []"
    and "in_scope sc ns \<Longrightarrow> granted_during env cd cfg l s s' i ns"
proof -
  have clock: "now_at (rt s) = now_at (en_runtime env)"
    using reachable_deployment_ok [OF run reach] by simp
  have "granted_during env cd cfg l s s' i ns" if ns: "in_scope sc ns \<or> ns = [] \<and> sc_all sc" for ns
  proof -
    have grants: "granted_at kc j ns t m" if "resolves kc j sc t m" for kc j t m
      using resolves_grants [OF that] ns by blast
    from just consider m where "resolves (en_kube env) i sc s m" "m < ticks (rt s')"
      | c k where "map_of (scopes s) (cacheKey i) = Some c" "sc = cs_scope c"
          "ticks (rt s) \<le> k" "k < ticks (rt s')" "now_at (rt s) k < cs_expires c"
      by (auto simp: served_from_def)
    then show ?thesis
    proof cases
      case (1 m)
      with grants show ?thesis unfolding granted_during_def by blast
    next
      case (2 c k)
      from entries_origin [OF run reach refl 2(1)] obtain j q m where
        "earlier_call env cd l j q (Rbac_Process s)" "cacheKey i = cacheKey j"
        "resolves (en_kube env) j sc q m" "cs_expires c = now_at (en_runtime env) m + cf_rbacTTL cfg"
        unfolding 2(2) by blast
      with 2(3-5) clock grants show ?thesis
        unfolding granted_during_def by (intro disjI2 exI [of _ j] exI [of _ q] exI [of _ m] exI [of _ k]) simp
    qed
  qed
  then show "sc_all sc \<Longrightarrow> granted_during env cd cfg l s s' i []"
    and "in_scope sc ns \<Longrightarrow> granted_during env cd cfg l s s' i ns" by blast+
qed

fun process_known :: "process \<Rightarrow> string \<Rightarrow> string \<Rightarrow> string option" where
  "process_known (Static_Process s) = known s"
| "process_known (Rbac_Process s) = known s"

text \<open>
  C1. A strict deployment confines its callers: start the process with any environment and any
  configuration that asks for both endpoints, let it serve, sweep, reload, expire and watch in any
  order, one request after the other; whatever successful response a request on an API path then gets comes from an authenticated
  caller, decodes, and names no namespace the rules in force do not entitle that caller to, unless
  they leave the caller unrestricted. In RBAC mode the rules in force are what the API server
  answered during this request, or to an earlier request of this process with the same cache key
  that had stored its result less than a TTL before this request looked. (That bounds the age of the
  resolution: the reviews in it are older by what remained of it after them.)
\<close>

theorem deployment_confines:
  assumes run: "run env version cfg = Inr l" and strict: "cf_reqBoth cfg" and reads: "codec_reads_back cd"
    and reach: "reachable env cd l P" and api: "has_prefix (rq_path r) (cf_apiPrefix cfg)"
    and serve: "process_serve env cd l up r P = (Relayed resp, P')" and 200: "status resp = StatusOK"
  shows "\<exists>i msg. From (NewHeaders (cf_identityPfx cfg)) (rq_header r) = Inr i
    \<and> (unrestricted_during env cd cfg l P P' i
       \<or> decodeEnvelope cd (rs_body resp) (is_json resp) = Inr msg
         \<and> message_discloses cd (process_known P' (message_channel msg)) msg
             \<subseteq> insert [] {ns. entitled_during env cd cfg l P P' i ns})"
proof -
  have l: "la_mode l = cf_mode cfg" "requireBoth (la_proxy l)" "apiPrefix (la_proxy l) = cf_apiPrefix cfg"
      "px_headers (la_proxy l) = NewHeaders (cf_identityPfx cfg)"
    using run strict by (auto elim!: run_cases simp: NewProxy_def)
  have ok: "deployment_ok env cfg P" using reachable_deployment_ok [OF run reach] by simp
  note api' = api [folded l(3)]
  show ?thesis
  proof (cases P)
    case (Static_Process s)
    with ok l(1) have reg: "reg_ok s" and mode: "la_mode l = ''static''" by (simp_all add: process_ok_def)
    from serve Static_Process mode obtain s' where P': "P' = Static_Process s'"
      and run_s: "ServeHTTP (Instrumented StaticAllowed ''static'') cd (la_proxy l) up r s = (Relayed resp, s')"
      by (auto split: prod.splits)
    from static_handler.strict_end_to_end [OF reg _ reads l(2) api' run_s 200] obtain i sc msg where
      "From (px_headers (la_proxy l)) (rq_header r) = Inr i" and "static_justified s i sc"
      and "sc_all sc \<or> decodeEnvelope cd (rs_body resp) (is_json resp) = Inr msg
         \<and> message_discloses cd (known s' (message_channel msg)) msg \<subseteq> insert [] (scope_set sc)"
      by blast
    then show ?thesis
      by (intro exI [of _ i] exI [of _ msg])
        (auto simp: Static_Process P' l(4) static_justified_def scope_set_def)
  next
    case (Rbac_Process s)
    with ok l(1) have reg: "reg_ok s" "rbac_ok (en_kube env) s" and mode: "la_mode l = ''rbac''"
      by (simp_all add: process_ok_def)
    from serve Rbac_Process mode obtain s' where P': "P' = Rbac_Process s'"
      and run_s: "ServeHTTP (Instrumented (RbacAllowed (en_kube env)) ''rbac'') cd (la_proxy l) up r s
        = (Relayed resp, s')"
      by (auto split: prod.splits)
    from rbac_handler.strict_end_to_end [OF reg reads l(2) api' run_s 200] obtain i sc msg where
      "From (px_headers (la_proxy l)) (rq_header r) = Inr i" and just: "served_from (en_kube env) i sc s s'"
      and how: "sc_all sc \<or> decodeEnvelope cd (rs_body resp) (is_json resp) = Inr msg
         \<and> message_discloses cd (known s' (message_channel msg)) msg \<subseteq> insert [] (scope_set sc)"
      by blast
    from served_during [OF run reach [unfolded Rbac_Process] just] have "sc_all sc \<Longrightarrow> unrestricted_during env cd cfg l P P' i"
      "scope_set sc \<subseteq> {ns. entitled_during env cd cfg l P P' i ns}"
      by (auto simp: Rbac_Process P' scope_set_def)
    with how show ?thesis
      using \<open>From (px_headers (la_proxy l)) (rq_header r) = Inr i\<close>
      by (intro exI [of _ i] exI [of _ msg]) (auto simp: P' l(4))
  qed
qed

text \<open>A closed instance: the defaults in strict mode with a mapping file.\<close>

definition example_env :: environment where
  "example_env = \<lparr>en_parse_url = (\<lambda>u. Inr \<lparr>bu_scheme = ''http'', bu_host = ''hubble-ui-backend:8090'', bu_path = []\<rparr>),
     en_read_file = (\<lambda>f. Inr [5]), en_sha256 = (\<lambda>b. [1]), en_unmarshal = (\<lambda>b. Inr example_mapping),
     en_client = Inr (), en_kube = pay_only (\<lambda>_. True), en_runtime = example_runtime\<rparr>"

definition example_launched :: "config \<Rightarrow> launched" where
  "example_launched cfg =
    (let process = \<lparr>rt = example_runtime, met = fresh_metrics,
           auth = \<lparr>sa_path = cf_mapFile cfg, sa_m = example_mapping, sa_sum = [1]\<rparr>,
           services = new_registry (cf_channelTTL cfg) (cf_maxChannels cfg)\<rparr>;
         exporting = cf_metricsListen cfg \<noteq> []
     in \<lparr>la_logger = NewLogger (cf_logLevel cfg) (cf_logFormat cfg),
          la_backend = \<lparr>bu_scheme = ''http'', bu_host = ''hubble-ui-backend:8090'', bu_path = []\<rparr>,
          la_mode = ''static'',
          la_proxy = NewProxy (cf_apiPrefix cfg) (cf_reqBoth cfg) (cf_identityPfx cfg) (cf_maxResponse cfg) (cf_notifyEmpty cfg),
          la_process = Static_Process
            (if exporting then observe (NewRegistry ''dev'' KnownRoutes) process else process),
          la_background = [Bg_Reloader (cf_mapReload cfg), Bg_ChannelSweeper]
            @ (if exporting then [Bg_MetricsListener (cf_metricsListen cfg)] else []),
          la_listen = cf_listen cfg, la_shutdownGrace = cf_shutdownGrace cfg\<rparr>)"

lemma example_runs: "cf_mode cfg = ''static'' \<Longrightarrow> run example_env ''dev'' cfg = Inr (example_launched cfg)"
proof -
  assume "cf_mode cfg = ''static''"
  moreover have "[1] \<noteq> replicate 32 (0 :: 8 word)" by (simp add: numeral_eq_Suc)
  ultimately show ?thesis
    by (simp add: run_def start_authorizer_def example_env_def NewStaticAuthorizer_def
        reload_def blank_process_def example_launched_def Let_def)
qed

definition strict_config :: config where
  "strict_config = default_config\<lparr>cf_reqBoth := True, cf_metricsListen := [], cf_mapFile := ''/etc/mapping.yaml'',
     cf_channelTTL := 60, cf_maxChannels := 4, cf_maxResponse := 1024\<rparr>"

definition strict_launched :: launched where
  "strict_launched = example_launched strict_config"

lemma strict_runs: "run example_env ''dev'' strict_config = Inr strict_launched"
  unfolding strict_launched_def by (rule example_runs) (simp add: strict_config_def default_config_def)

lemma strict_fields [simp]:
  "la_process strict_launched = Static_Process bob_state" "la_proxy strict_launched = example_proxy True"
  "la_mode strict_launched = ''static''"
  by (simp_all add: strict_launched_def example_launched_def strict_config_def default_config_def Let_def
      bob_state_def example_proxy_def NewProxy_def)

lemma strict_facts:
  "cf_reqBoth strict_config" "cf_apiPrefix strict_config = ''/api''" "cf_identityPfx strict_config = AuthRequestPrefix"
  by (simp_all add: strict_config_def default_config_def)

lemma strict_served: "fst (process_serve example_env bob_codec strict_launched (bob_upstream []) bob_request
    (la_process strict_launched)) = Relayed (bob_served [10, 2])"
  by (simp add: bob_run [OF bob_strict])

theorem deployment_confines_witness:
  "\<exists>i msg. From (NewHeaders AuthRequestPrefix) (rq_header bob_request) = Inr i
    \<and> (unrestricted_during example_env bob_codec strict_config strict_launched (la_process strict_launched) (snd (process_serve example_env bob_codec strict_launched
         (bob_upstream []) bob_request (la_process strict_launched))) i
       \<or> decodeEnvelope bob_codec [10, 2] (is_json (bob_served [10, 2])) = Inr msg
         \<and> message_discloses bob_codec (process_known (snd (process_serve example_env bob_codec strict_launched
               (bob_upstream []) bob_request (la_process strict_launched))) (message_channel msg)) msg
             \<subseteq> insert [] {ns. entitled_during example_env bob_codec strict_config strict_launched (la_process strict_launched) (snd (process_serve example_env bob_codec strict_launched
         (bob_upstream []) bob_request (la_process strict_launched))) i ns})"
proof -
  have serve: "process_serve example_env bob_codec strict_launched (bob_upstream []) bob_request
      (la_process strict_launched) = (Relayed (bob_served [10, 2]),
        snd (process_serve example_env bob_codec strict_launched (bob_upstream []) bob_request
          (la_process strict_launched)))"
    using strict_served by (simp add: prod_eq_iff del: process_serve.simps)
  have "codec_reads_back bob_codec" by (simp add: bob_codec_def table_codec_reads_back)
  moreover have "has_prefix (rq_path bob_request) (cf_apiPrefix strict_config)"
    using bob_api by (simp add: strict_facts example_proxy_def)
  moreover have "status (bob_served [10, 2]) = StatusOK" "rs_body (bob_served [10, 2]) = [10, 2]"
    by (simp_all add: bob_served_def StatusOK_def)
  ultimately show ?thesis
    using deployment_confines [OF strict_runs strict_facts(1) _ reachable.start _ serve] by (simp only: strict_facts)
qed

text \<open>
  C2. The same with requests that overlap, whichever authorizer was configured: start the process in
  strict mode and let requests arrive, be authorized and filtered in any interleaving, with the
  background work in between. If the backend gives each service one namespace per channel, whatever
  successful reply a request on an API path has got went to an authenticated caller, and names no
  namespace that caller was not entitled to, at some moment when this very request waited for its
  scope, by the mapping then in force or the reviews answered by then, unless these left the caller
  unrestricted.
\<close>

theorem concurrent_deployment_confines:
  assumes run: "run env version cfg = Inr l" and strict: "cf_reqBoth cfg" and reads: "codec_reads_back cd"
    and reach: "reaches env cd l (at_launch (la_process l)) Y"
    and c: "in_flight Y t = Some c" "replied c = Some (r, Relayed resp)"
    and api: "has_prefix (rq_path r) (cf_apiPrefix cfg)" and 200: "status resp = StatusOK"
    and K: "\<And>c v n. said cd (la_proxy l) (responses Y) c v n \<Longrightarrow> K c v = Some n"
  shows "\<exists>i X. From (NewHeaders (cf_identityPfx cfg)) (rq_header r) = Inr i
    \<and> reaches env cd l (at_launch (la_process l)) X \<and> reaches env cd l X Y
    \<and> in_flight X t = Some (Authorizing r i)
    \<and> (unrestricted env (process_of X) i
       \<or> (\<exists>msg. decodeEnvelope cd (rs_body resp) (is_json resp) = Inr msg
            \<and> message_discloses cd (K (message_channel msg)) msg
                \<subseteq> insert [] {ns. entitled env (process_of X) i ns}))"
proof -
  have l: "requireBoth (la_proxy l)" "apiPrefix (la_proxy l) = cf_apiPrefix cfg"
      "px_headers (la_proxy l) = NewHeaders (cf_identityPfx cfg)"
    using run strict by (auto elim!: run_cases simp: NewProxy_def)
  note api' = api [folded l(2)] and idle = launched_idle [OF run]
  show ?thesis
  proof (cases "la_process l")
    case (Static_Process s\<^sub>0)
    with reach obtain s cs d where Y: "Y = Files (s, cs)" and d: "Bg_Reloader d \<in> set (la_background l)"
      and path: "file_servings env d cd (la_proxy l) (s\<^sub>0, Map.empty) (s, cs)"
      by (cases Y) auto
    from concurrent_file_confines [where K = K and p = "la_proxy l" and t = t, OF _ _ path _ c(2) api' 200 reads l(1)]
      idle(1) [OF Static_Process] c(1) K obtain i s\<^sub>1 cs\<^sub>1 where
      "From (px_headers (la_proxy l)) (rq_header r) = Inr i"
      "file_servings env d cd (la_proxy l) (s\<^sub>0, Map.empty) (s\<^sub>1, cs\<^sub>1)"
      "file_servings env d cd (la_proxy l) (s\<^sub>1, cs\<^sub>1) (s, cs)" "cs\<^sub>1 t = Some (Authorizing r i)"
      "is_admin (sa_m (auth s\<^sub>1)) i
       \<or> (\<exists>msg. decodeEnvelope cd (rs_body resp) (is_json resp) = Inr msg
            \<and> message_discloses cd (K (message_channel msg)) msg \<subseteq> insert [] (mapped_ns (sa_m (auth s\<^sub>1)) i))"
      unfolding Y by (auto simp: responses_seen)
    with d show ?thesis
      by (intro exI [of _ i] exI [of _ "Files (s\<^sub>1, cs\<^sub>1)"]) (auto simp: Static_Process Y l(3))
  next
    case (Rbac_Process s\<^sub>0)
    with reach obtain W where Y: "Y = Reviews W"
      and path: "servings (en_kube env) cd (la_proxy l) (idle_world s\<^sub>0) W" by (cases Y) auto
    have W: "conns W t = Some c" using c(1) Y by simp
    have K': "\<And>c v n. said cd (la_proxy l) (tasks (seen (view_of W))) c v n \<Longrightarrow> K c v = Some n"
      using K by (simp add: Y responses_seen)
    from idle(2) [OF Rbac_Process] have start: "rbac_ok (en_kube env) s\<^sub>0" "reg_ok s\<^sub>0" "chans s\<^sub>0 = []" by simp_all
    from rbac_confined [where K = K, OF start path W c(2) api' 200 reads l(1) K'] obtain i V j d where
      "From (px_headers (la_proxy l)) (rq_header r) = Inr i" "cacheKey j = cacheKey i"
      "servings (en_kube env) cd (la_proxy l) (idle_world s\<^sub>0) V"
      "servings (en_kube env) cd (la_proxy l) V W" "conns V t = Some (Authorizing r i)"
      "reviewed (en_kube env) {..<ticks (rt (shared (flying V)))} d j []
       \<or> (\<exists>msg. decodeEnvelope cd (rs_body resp) (is_json resp) = Inr msg
            \<and> message_discloses cd (K (message_channel msg)) msg
                \<subseteq> insert [] {ns. reviewed (en_kube env) {..<ticks (rt (shared (flying V)))} d j ns})"
      by blast
    then show ?thesis
      by (intro exI [of _ i] exI [of _ "Reviews V"]) (fastforce simp: Rbac_Process Y l(3))
  qed
qed

theorem concurrent_deployment_confines_witness:
  "\<exists>i X c. From (NewHeaders AuthRequestPrefix) (rq_header bob_request) = Inr i
    \<and> reaches example_env bob_codec strict_launched (at_launch (la_process strict_launched)) X
    \<and> reaches example_env bob_codec strict_launched X (Files (snd (bob_reply True), [7 \<mapsto> c]))
    \<and> in_flight X 7 = Some (Authorizing bob_request i)
    \<and> (unrestricted example_env (process_of X) i
       \<or> (\<exists>msg. decodeEnvelope bob_codec [10, 2] (is_json (bob_served [10, 2])) = Inr msg
            \<and> message_discloses bob_codec bob_names msg
                \<subseteq> insert [] {ns. entitled example_env (process_of X) i ns}))"
proof (rule bob_answered [where env = example_env and d = "cf_mapReload strict_config"])
  fix c
  let ?Y = "Files (snd (bob_reply True), [7 \<mapsto> c])"
  assume path: "file_servings example_env (cf_mapReload strict_config) bob_codec (example_proxy True)
      (bob_state, Map.empty) (snd (bob_reply True), [7 \<mapsto> c])"
    and c: "replied c = Some (bob_request, Relayed (bob_served [10, 2]))"
    and tk: "its_task bob_codec (example_proxy True) (bob_upstream []) bob_request c"
  have "Bg_Reloader (cf_mapReload strict_config) \<in> set (la_background strict_launched)"
    by (simp add: strict_launched_def example_launched_def Let_def)
  with path have reach: "reaches example_env bob_codec strict_launched (at_launch (la_process strict_launched)) ?Y"
    by auto
  have "codec_reads_back bob_codec" by (simp add: bob_codec_def table_codec_reads_back)
  moreover have "status (bob_served [10, 2]) = StatusOK" "rs_body (bob_served [10, 2]) = [10, 2]"
    by (simp_all add: bob_served_def StatusOK_def)
  moreover have "has_prefix (rq_path bob_request) (cf_apiPrefix strict_config)"
    using bob_api by (simp add: strict_facts example_proxy_def)
  moreover have "said bob_codec (la_proxy strict_launched) (responses ?Y) k v n \<Longrightarrow> bob_names v = Some n" for k v n
    using bob_said [OF tk] by (simp add: responses_seen)
  ultimately show ?thesis
    using concurrent_deployment_confines [where K = "\<lambda>_. bob_names" and t = 7,
        OF strict_runs strict_facts(1) _ reach _ c] by (simp only: strict_facts) fastforce
qed

section \<open>Starting\<close>

text \<open>
  C21. The process starts exactly when the backend URL is absolute and the selected authorizer can be
  built: in static mode when the mapping file is read and parsed (or has the digest the empty state
  starts from), in RBAC mode when the in-cluster client exists. Otherwise it exits with status 1,
  and nothing has been started.
\<close>

theorem run_outcome:
  "run env version cfg \<in> {Inl 1} \<union> range Inr
   \<and> ((\<exists>l. run env version cfg = Inr l) \<longleftrightarrow>
        (\<exists>u. en_parse_url env (cf_backendURL cfg) = Inr u \<and> bu_scheme u \<noteq> [] \<and> bu_host u \<noteq> [])
        \<and> (cf_mode cfg = ''static'' \<and> (\<exists>b. en_read_file env (cf_mapFile cfg) = Inr b
               \<and> (en_sha256 env b = replicate 32 0 \<or> (\<exists>m. en_unmarshal env b = Inr m)))
           \<or> cf_mode cfg = ''rbac'' \<and> en_client env = Inr ()))"
proof -
  have static: "(\<exists>s. NewStaticAuthorizer h u path found z = Inr s) \<longleftrightarrow>
      (\<exists>b. found = Inr b \<and> (h b = replicate 32 0 \<or> (\<exists>m. u b = Inr m)))"
    for h u path found and z :: "static_authorizer reg_state"
    by (auto simp: NewStaticAuthorizer_def reload_def Let_def split: sum.splits if_splits)
  have rbac: "(\<exists>a. NewRbac kc ttl n = Inr a) \<longleftrightarrow> kc = Inr ()" for kc ttl n
    by (auto simp: NewRbac_def Let_def split: sum.splits)
  have start: "(\<exists>x. start_authorizer env cfg = Inr x) \<longleftrightarrow>
      cf_mode cfg = ''static'' \<and> (\<exists>b. en_read_file env (cf_mapFile cfg) = Inr b
               \<and> (en_sha256 env b = replicate 32 0 \<or> (\<exists>m. en_unmarshal env b = Inr m)))
      \<or> cf_mode cfg = ''rbac'' \<and> en_client env = Inr ()"
    unfolding static [symmetric, where path = "cf_mapFile cfg" and z = "blank_process env
        \<lparr>sa_path = [], sa_m = zero_mapping, sa_sum = replicate 32 0\<rparr>"]
      rbac [symmetric, where ttl = "cf_rbacTTL cfg" and n = "cf_rbacWorkers cfg"]
    by (auto simp: start_authorizer_def split: sum.splits)
  have "(\<exists>l. run env version cfg = Inr l) \<longleftrightarrow>
      (\<exists>u. en_parse_url env (cf_backendURL cfg) = Inr u \<and> bu_scheme u \<noteq> [] \<and> bu_host u \<noteq> [])
      \<and> (\<exists>x. start_authorizer env cfg = Inr x)"
    by (auto simp: run_def Let_def split: sum.splits prod.splits)
  moreover have "run env version cfg \<in> {Inl 1} \<union> range Inr"
    by (auto simp: run_def Let_def split: sum.splits prod.splits)
  ultimately show ?thesis by (simp only: start simp_thms)
qed

text \<open>
  C22. At no point of its life does a goroutine the process has started panic, unless the channel TTL
  or, in RBAC mode, the scope TTL was configured to zero or less; and with such a TTL one does.
\<close>

theorem background_panics_iff:
  assumes run: "run env version cfg = Inr l" and reach: "reachable env cd l P"
  shows "(\<exists>b \<in> set (la_background l). background_panics b P)
    \<longleftrightarrow> cf_channelTTL cfg \<le> 0 \<or> cf_mode cfg = ''rbac'' \<and> cf_rbacTTL cfg \<le> 0"
proof -
  have ok: "deployment_ok env cfg P" using reachable_deployment_ok [OF assms] by simp
  from run obtain P0 bg where P0: "start_authorizer env cfg = Inr (P0, bg)"
    and bg: "set (la_background l) = set bg \<union> {Bg_ChannelSweeper} \<union>
      (if cf_metricsListen cfg \<noteq> [] then {Bg_MetricsListener (cf_metricsListen cfg)} else {})"
    by (auto elim!: run_cases)
  from P0 show ?thesis
  proof (cases rule: start_authorizer_cases)
    case (static s)
    with ok bg show ?thesis
      by (cases P) (auto simp: RunSweeper_def as_configured_def)
  next
    case (rbac a)
    with ok bg show ?thesis
      by (cases P) (auto simp: RunSweeper_def RunScopeSweeper_def as_configured_def)
  qed
qed

theorem background_panics_iff_witness:
  "\<not> (\<exists>b \<in> set (la_background strict_launched). background_panics b (la_process strict_launched))"
proof -
  have "0 < cf_channelTTL strict_config" "cf_mode strict_config = ''static''"
    by (simp_all add: strict_config_def default_config_def minute_def second_def)
  with background_panics_iff [OF strict_runs reachable.start] show ?thesis by simp
qed

section \<open>Stopping\<close>

text \<open>
  C34. After a signal, or when the listener is closed, the process ends by itself with status 0: not
  before the requests in flight at the proxy are done or the configured grace is over, and not
  after the grace, whatever the clients of its two servers do.
\<close>

theorem stops_within_grace:
  assumes "run env version cfg = Inr l" and "0 \<le> cf_shutdownGrace cfg"
    and "finish l proxy_end metrics_end how t = (t', code, log)" and "how = Signal_Received \<or> how = Server_Closed"
  shows "code = 0 \<and> t \<le> t' \<and> t' \<le> t + cf_shutdownGrace cfg
    \<and> (t' < t + cf_shutdownGrace cfg \<longrightarrow> (\<exists>u. se_idle proxy_end = Some u \<and> u \<le> t'))"
proof -
  have "la_shutdownGrace l = cf_shutdownGrace cfg"
    using assms(1) by (auto simp: run_def Let_def split: sum.splits if_splits prod.splits)
  with assms(2-) finish_bounds [of l proxy_end metrics_end how t t' code log] show ?thesis by auto
qed

text \<open>A request that takes seven seconds more, and one that never ends.\<close>

theorem stops_within_grace_witness:
  "fst (finish strict_launched \<lparr>se_idle = Some (7 * second), se_closing = None\<rparr>
      \<lparr>se_idle = Some 0, se_closing = None\<rparr> Signal_Received 0) \<le> 20 * second
   \<and> fst (finish strict_launched \<lparr>se_idle = None, se_closing = None\<rparr>
      \<lparr>se_idle = Some 0, se_closing = None\<rparr> Signal_Received 0) \<le> 20 * second"
proof -
  have grace: "cf_shutdownGrace strict_config = 20 * second" "0 \<le> 20 * second"
    by (simp_all add: strict_config_def default_config_def second_def)
  have "fst (finish strict_launched p q Signal_Received 0) \<le> 20 * second" for p q
  proof -
    obtain t code log where stop: "finish strict_launched p q Signal_Received 0 = (t, code, log)"
      by (cases "finish strict_launched p q Signal_Received 0")
    from stops_within_grace [OF strict_runs _ stop] grace stop show ?thesis by simp
  qed
  then show ?thesis by blast
qed

section \<open>How requests are counted\<close>




section \<open>What the process may grow to\<close>

text \<open>
  C24. Whatever is asked of a process that exports metrics, the series it exports are exactly the ones
  declared at start-up: no caller, backend or cluster event adds a label value.
\<close>

theorem exported_series_fixed:
  assumes "run env version cfg = Inr l" and "cf_metricsListen cfg \<noteq> []" and "reachable env cd l P"
  shows "labels_exactly KnownRoutes (process_metrics P)"
  using reports_labels [OF deployment_starts(2) [OF assms(1,2)]] reachable_deployment_ok [OF assms(1,3)]
  by blast

definition default_launched :: launched where
  "default_launched = example_launched default_config"

lemma default_runs: "run example_env ''dev'' default_config = Inr default_launched"
  unfolding default_launched_def by (rule example_runs) (simp add: default_config_def)

lemma default_reaches: "reachable example_env bob_codec default_launched
    (snd (process_serve example_env bob_codec default_launched (bob_upstream []) bob_request
      (la_process default_launched)))"
proof -
  have "backend_path (bob_upstream []) = bu_path (la_backend default_launched)"
    by (simp add: bob_upstream_def default_launched_def example_launched_def Let_def)
  from next_step [OF start serve [OF this]] show ?thesis .
qed

theorem exported_series_fixed_witness:
  "labels_exactly KnownRoutes (process_metrics (snd (process_serve example_env bob_codec default_launched
     (bob_upstream []) bob_request (la_process default_launched))))"
  by (rule exported_series_fixed [OF default_runs _ default_reaches]) (simp add: default_config_def)

fun cached_scopes :: "process \<Rightarrow> nat" where
  "cached_scopes (Static_Process s) = 0"
| "cached_scopes (Rbac_Process s) = length (scopes s)"

fun tracked :: "process \<Rightarrow> nat" where
  "tracked (Static_Process s) = length (chans s)"
| "tracked (Rbac_Process s) = length (chans s)"

lemma registry_bounded:
  assumes "process_ok s" and "as_configured cfg s" and "0 < cf_maxChannels cfg"
  shows "int (length (chans s)) \<le> cf_maxChannels cfg \<and> TrackedChannels (met s) = length (chans s)
    \<and> card (series (RequestsTotal (met s))) \<le> 19"
proof -
  from assms(1) have ok: "reg_ok s" and "series (RequestsTotal (met s)) \<subseteq> request_labels KnownRoutes"
    by (simp_all add: process_ok_def)
  then have "card (series (RequestsTotal (met s))) \<le> 19"
    using card_mono [OF request_labels_bounded(2)] request_labels_bounded(1) le_trans by blast
  with ok assms(2,3) show ?thesis by (simp add: reg_ok_def as_configured_def)
qed

text \<open>
  C25. The process holds bounded state for its callers: however many channels, identities and paths
  they present, the tracked channels stay within the configured cap, the cached scopes within 2048,
  and the request series within 19.
\<close>

theorem process_bounded:
  assumes run: "run env version cfg = Inr l" and reach: "reachable env cd l P" and "0 < cf_maxChannels cfg"
  shows "int (tracked P) \<le> cf_maxChannels cfg \<and> TrackedChannels (process_metrics P) = tracked P
    \<and> cached_scopes P \<le> 2048 \<and> card (series (RequestsTotal (process_metrics P))) \<le> 19"
proof -
  have ok: "deployment_ok env cfg P" using reachable_deployment_ok [OF run reach] by simp
  show ?thesis
  proof (cases P)
    case (Static_Process s)
    with ok registry_bounded [OF _ _ assms(3), where s = s] show ?thesis by simp
  next
    case (Rbac_Process s)
    with ok have "process_ok s" "as_configured cfg s" "rbac_ok (en_kube env) s"
      "ra_maxCache (auth s) = 2048" by (simp_all add: defaultMaxCacheSize_def)
    with registry_bounded [OF _ _ assms(3), where s = s] show ?thesis by (simp add: Rbac_Process rbac_ok_def)
  qed
qed

theorem process_bounded_witness:
  "int (tracked (la_process strict_launched)) \<le> 4 \<and> cached_scopes (la_process strict_launched) \<le> 2048"
proof -
  have "cf_maxChannels strict_config = 4"
    by (simp add: strict_config_def default_config_def)
  with process_bounded [OF strict_runs reachable.start] show ?thesis by simp
qed

end
